theory Spec2Isabelle
  imports Main "HOL-Library.Monad_Syntax"
begin

section \<open>Nodes, the heap and the tree object\<close>

text \<open>
  The container of \<^verbatim>\<open>BPlusTree.h\<close> is a graph of heap nodes tied together by raw
  pointers (\<^verbatim>\<open>next\<close>, \<^verbatim>\<open>pre\<close>, \<^verbatim>\<open>parent\<close> and the child pointer of every record).
  The embedding keeps that graph: a pointer is an \<open>addr option\<close> (\<open>None\<close> is
  \<^verbatim>\<open>nullptr\<close>), the heap maps the addresses of live nodes to their contents,
  \<^verbatim>\<open>new\<close> takes the next unused address and \<^verbatim>\<open>delete\<close> removes the address from
  the heap. The key type is any linear order, compared with \<open><\<close> as
  \<^verbatim>\<open>std::less\<close> does.

  Every function that dereferences a pointer or a container iterator returns an
  \<open>option\<close>: \<open>None\<close> stands for "no defined result", that is a dereference of
  \<^verbatim>\<open>nullptr\<close>, of a freed node or of \<^verbatim>\<open>end()\<close>, or a loop that never ends.
\<close>

type_synonym addr = nat

record 'k node =
  records :: "('k \<times> addr option) list"
  is_leaf :: bool
  nxt :: "addr option"
  pre :: "addr option"
  parent :: "addr option"

type_synonym 'k heap = "addr \<Rightarrow> 'k node option"

text \<open>
  The tree object: \<^verbatim>\<open>m_root\<close>, \<^verbatim>\<open>m_size\<close>, and the heap with the address counter
  of the allocator. The member \<^verbatim>\<open>m_header\<close> is a node inside the tree object; it
  lives at the fixed address \<open>m_header\<close> of the heap. \<^verbatim>\<open>m_size\<close> is a
  \<^verbatim>\<open>size_t\<close> that counts stored keys, each of which occupies memory, so it
  cannot wrap and is a \<open>nat\<close>.
\<close>

record 'k bplustree =
  heap :: "'k heap"
  m_root :: "addr option"
  m_size :: nat
  fresh :: addr

definition m_header :: addr where
  "m_header = 0"

text \<open>\<^verbatim>\<open>Node()\<close>: the default member initialisers.\<close>

definition make_node :: "'k node" where
  "make_node = \<lparr>records = [], is_leaf = True, nxt = None, pre = None, parent = None\<rparr>"

text \<open>The constructor: \<^verbatim>\<open>clear()\<close> on the untouched object, i.e. \<^verbatim>\<open>reset_header\<close>.\<close>

definition empty_tree :: "'k bplustree" where
  "empty_tree =
     \<lparr>heap = (\<lambda>_. None)(m_header \<mapsto> make_node\<lparr>nxt := Some m_header, pre := Some m_header\<rparr>),
      m_root = None, m_size = 0, fresh = Suc m_header\<rparr>"

definition half_order :: "nat \<Rightarrow> nat" where
  "half_order m = (m + 1) div 2"

text \<open>A write through a pointer to a live node.\<close>

definition update_node :: "addr \<Rightarrow> ('k node \<Rightarrow> 'k node) \<Rightarrow> 'k heap \<Rightarrow> 'k heap option" where
  "update_node a f h = (case h a of None \<Rightarrow> None | Some n \<Rightarrow> Some (h(a \<mapsto> f n)))"

section \<open>The record container\<close>

text \<open>
  \<^verbatim>\<open>records\<close> is a \<^verbatim>\<open>std::set\<close> of pairs ordered by the key alone. It is modelled
  by the list of its elements in iteration order; a container iterator is an index
  into the list and \<^verbatim>\<open>end()\<close> is the length. The source overwrites keys in place
  through \<^verbatim>\<open>const_cast\<close> (\<open>set_key\<close>), which leaves the position of the element
  unchanged.
\<close>

definition set_lower_bound :: "('k::linorder \<times> 'c) list \<Rightarrow> 'k \<Rightarrow> nat" where
  "set_lower_bound rs k = length (takeWhile (\<lambda>r. fst r < k) rs)"

definition set_upper_bound :: "('k::linorder \<times> 'c) list \<Rightarrow> 'k \<Rightarrow> nat" where
  "set_upper_bound rs k = length (takeWhile (\<lambda>r. \<not> k < fst r) rs)"

definition set_find :: "('k::linorder \<times> 'c) list \<Rightarrow> 'k \<Rightarrow> nat" where
  "set_find rs k =
     (let i = set_lower_bound rs k
      in if i < length rs \<and> \<not> k < fst (rs ! i) then i else length rs)"

text \<open>Insertion keeps the order and drops an element whose key is already there.\<close>

definition set_insert :: "('k::linorder \<times> 'c) list \<Rightarrow> 'k \<times> 'c \<Rightarrow> ('k \<times> 'c) list" where
  "set_insert rs r =
     (let i = set_lower_bound rs (fst r)
      in if i < length rs \<and> \<not> fst r < fst (rs ! i) then rs else take i rs @ r # drop i rs)"

definition set_erase :: "'a list \<Rightarrow> nat \<Rightarrow> 'a list option" where
  "set_erase rs i = (if i < length rs then Some (take i rs @ drop (Suc i) rs) else None)"

text \<open>Dereferencing an iterator, and \<^verbatim>\<open>--end()\<close>.\<close>

definition set_at :: "'a list \<Rightarrow> nat \<Rightarrow> 'a option" where
  "set_at rs i = (if i < length rs then Some (rs ! i) else None)"

definition set_last :: "'a list \<Rightarrow> nat option" where
  "set_last rs = (if rs = [] then None else Some (length rs - 1))"

definition set_key :: "('k \<times> 'c) list \<Rightarrow> nat \<Rightarrow> 'k \<Rightarrow> ('k \<times> 'c) list" where
  "set_key rs i k = rs[i := (k, snd (rs ! i))]"

definition set_child :: "('k \<times> 'c) list \<Rightarrow> nat \<Rightarrow> 'c \<Rightarrow> ('k \<times> 'c) list" where
  "set_child rs i c = rs[i := (fst (rs ! i), c)]"

section \<open>Iterators\<close>

text \<open>
  \<^verbatim>\<open>BPlusTreeIterator\<close>: the node and the position in its record container. Every
  handle the tree gives out carries the tree itself in its \<^verbatim>\<open>tree\<close> field and the
  model has one tree, so that field and its null tests are left out. The
  past-the-end handle has a null node and a default-constructed position.
\<close>

record iterator =
  it_node :: "addr option"
  record_iterator :: nat

definition make_iterator_uncheck :: "addr \<Rightarrow> nat \<Rightarrow> iterator" where
  "make_iterator_uncheck a i = \<lparr>it_node = Some a, record_iterator = i\<rparr>"

definition end_iterator :: iterator where
  "end_iterator = \<lparr>it_node = None, record_iterator = 0\<rparr>"

text \<open>\<^verbatim>\<open>operator==\<close>: two past-the-end handles are equal whatever their positions.\<close>

definition iterator_eq :: "iterator \<Rightarrow> iterator \<Rightarrow> bool" where
  "iterator_eq x y =
     (if it_node x = None \<and> it_node y = None then True
      else if it_node x = None \<or> it_node y = None then False
      else it_node x = it_node y \<and> record_iterator x = record_iterator y)"

text \<open>\<^verbatim>\<open>make_iterator(node, rit)\<close>, the checked constructor.\<close>

definition make_iterator :: "'k heap \<Rightarrow> addr \<Rightarrow> nat \<Rightarrow> iterator option" where
  "make_iterator h a i = do {
     n \<leftarrow> h a;
     if i \<noteq> length (records n) then Some (make_iterator_uncheck a i)
     else if nxt n \<noteq> Some m_header then do {
       b \<leftarrow> nxt n;
       _ \<leftarrow> h b;
       Some (make_iterator_uncheck b 0)
     }
     else Some end_iterator
   }"

text \<open>\<^verbatim>\<open>operator*\<close>.\<close>

definition deref :: "'k bplustree \<Rightarrow> iterator \<Rightarrow> 'k option" where
  "deref t it = do {
     a \<leftarrow> it_node it;
     n \<leftarrow> heap t a;
     r \<leftarrow> set_at (records n) (record_iterator it);
     Some (fst r)
   }"

text \<open>
  \<^verbatim>\<open>operator++\<close>. The statement \<^verbatim>\<open>record_iterator++\<close> advances a container iterator;
  this is defined when the iterator is at an element, and has no defined result
  when it is at \<^verbatim>\<open>end()\<close> of the container or when the handle has a null node (the
  test that follows reads \<^verbatim>\<open>node->records\<close>).
\<close>

definition increment :: "'k bplustree \<Rightarrow> iterator \<Rightarrow> iterator option" where
  "increment t it =
     (if m_root t = None then Some it
      else do {
        a \<leftarrow> it_node it;
        n \<leftarrow> heap t a;
        _ \<leftarrow> set_at (records n) (record_iterator it);
        let i = Suc (record_iterator it);
        if i = length (records n) then
          (if nxt n \<noteq> Some m_header then do {
             b \<leftarrow> nxt n;
             _ \<leftarrow> heap t b;
             Some \<lparr>it_node = Some b, record_iterator = 0\<rparr>
           }
           else Some \<lparr>it_node = None, record_iterator = i\<rparr>)
        else Some \<lparr>it_node = Some a, record_iterator = i\<rparr>
      })"

text \<open>\<^verbatim>\<open>operator--\<close>.\<close>

definition decrement :: "'k bplustree \<Rightarrow> iterator \<Rightarrow> iterator option" where
  "decrement t it =
     (if m_root t = None then Some it
      else do {
        hd \<leftarrow> heap t m_header;
        if it_node it = nxt hd \<and> record_iterator it = 0 then Some it
        else (case it_node it of
          None \<Rightarrow> do {
            a \<leftarrow> pre hd;
            n \<leftarrow> heap t a;
            i \<leftarrow> set_last (records n);
            Some \<lparr>it_node = Some a, record_iterator = i\<rparr>
          }
        | Some a \<Rightarrow> do {
            n \<leftarrow> heap t a;
            if record_iterator it = 0 then do {
              b \<leftarrow> pre n;
              p \<leftarrow> heap t b;
              i \<leftarrow> set_last (records p);
              Some \<lparr>it_node = Some b, record_iterator = i\<rparr>
            }
            else Some \<lparr>it_node = Some a, record_iterator = record_iterator it - 1\<rparr>
          })
      })"

text \<open>\<^verbatim>\<open>begin()\<close> and \<^verbatim>\<open>end()\<close>.\<close>

definition begin_iterator :: "'k bplustree \<Rightarrow> iterator option" where
  "begin_iterator t =
     (if m_size t = 0 then Some end_iterator
      else do {
        hd \<leftarrow> heap t m_header;
        a \<leftarrow> nxt hd;
        _ \<leftarrow> heap t a;
        Some (make_iterator_uncheck a 0)
      })"

section \<open>Search\<close>

text \<open>
  The three lookups share the loop \<^verbatim>\<open>while (cur != nullptr)\<close>; they differ in the
  container search used at an internal node and in what happens at the leaf.
\<close>

partial_function (option) find_loop :: "'k::linorder heap \<Rightarrow> 'k \<Rightarrow> addr option \<Rightarrow> iterator option" where
  "find_loop h key cur =
     (case cur of
        None \<Rightarrow> Some end_iterator
      | Some a \<Rightarrow> do {
          n \<leftarrow> h a;
          if \<not> is_leaf n then
            (let i = set_lower_bound (records n) key
             in if i = length (records n) then Some end_iterator
                else find_loop h key (snd (records n ! i)))
          else
            (let i = set_find (records n) key
             in if i \<noteq> length (records n) then Some (make_iterator_uncheck a i)
                else Some end_iterator)
        })"

declare find_loop.simps [code]

definition find :: "'k::linorder bplustree \<Rightarrow> 'k \<Rightarrow> iterator option" where
  "find t key = find_loop (heap t) key (m_root t)"

partial_function (option) lower_bound_loop :: "'k::linorder heap \<Rightarrow> 'k \<Rightarrow> addr option \<Rightarrow> iterator option" where
  "lower_bound_loop h key cur =
     (case cur of
        None \<Rightarrow> Some end_iterator
      | Some a \<Rightarrow> do {
          n \<leftarrow> h a;
          if \<not> is_leaf n then
            (let i = set_lower_bound (records n) key
             in if i = length (records n) then Some end_iterator
                else lower_bound_loop h key (snd (records n ! i)))
          else Some (make_iterator_uncheck a (set_lower_bound (records n) key))
        })"

declare lower_bound_loop.simps [code]

definition lower_bound :: "'k::linorder bplustree \<Rightarrow> 'k \<Rightarrow> iterator option" where
  "lower_bound t key = lower_bound_loop (heap t) key (m_root t)"

partial_function (option) upper_bound_loop :: "'k::linorder heap \<Rightarrow> 'k \<Rightarrow> addr option \<Rightarrow> iterator option" where
  "upper_bound_loop h key cur =
     (case cur of
        None \<Rightarrow> Some end_iterator
      | Some a \<Rightarrow> do {
          n \<leftarrow> h a;
          if \<not> is_leaf n then
            (let i = set_upper_bound (records n) key
             in if i = length (records n) then Some end_iterator
                else upper_bound_loop h key (snd (records n ! i)))
          else make_iterator h a (set_upper_bound (records n) key)
        })"

declare upper_bound_loop.simps [code]

definition upper_bound :: "'k::linorder bplustree \<Rightarrow> 'k \<Rightarrow> iterator option" where
  "upper_bound t key = upper_bound_loop (heap t) key (m_root t)"

text \<open>\<^verbatim>\<open>equal_range\<close>: \<^verbatim>\<open>lb\<close> is advanced in place and \<^verbatim>\<open>lower_bound\<close> is called again.\<close>

definition equal_range :: "'k::linorder bplustree \<Rightarrow> 'k \<Rightarrow> (iterator \<times> iterator) option" where
  "equal_range t key = do {
     lb \<leftarrow> lower_bound t key;
     lb' \<leftarrow> increment t lb;
     lb2 \<leftarrow> lower_bound t key;
     Some (lb2, lb')
   }"

section \<open>Insertion and split\<close>

text \<open>
  \<^verbatim>\<open>split\<close> moves the first \<open>half_order\<close> records of a node into a new left
  neighbour. \<open>split_move\<close> is the \<^verbatim>\<open>for\<close> loop: each round takes the first
  record of the node, redirects the parent pointer of its child, appends it to the
  new node and erases it from the old one.
\<close>

fun split_move :: "nat \<Rightarrow> addr \<Rightarrow> addr \<Rightarrow> 'k::linorder heap \<Rightarrow> 'k heap option" where
  "split_move 0 leaf_node left h = Some h"
| "split_move (Suc i) leaf_node left h = do {
     n \<leftarrow> h leaf_node;
     r \<leftarrow> set_at (records n) 0;
     h \<leftarrow> (case snd r of
            None \<Rightarrow> Some h
          | Some c \<Rightarrow> update_node c (\<lambda>x. x\<lparr>parent := Some left\<rparr>) h);
     h \<leftarrow> update_node left (\<lambda>x. x\<lparr>records := set_insert (records x) r\<rparr>) h;
     h \<leftarrow> update_node leaf_node (\<lambda>x. x\<lparr>records := tl (records x)\<rparr>) h;
     split_move i leaf_node left h
   }"

text \<open>The result is the pair (parent that received the router, new left node).\<close>

definition split :: "nat \<Rightarrow> addr \<Rightarrow> 'k::linorder bplustree \<Rightarrow> ((addr \<times> addr) \<times> 'k bplustree) option" where
  "split m leaf_node t = do {
     let left = fresh t;
     let t = t\<lparr>heap := (heap t)(left \<mapsto> make_node), fresh := Suc left\<rparr>;
     h \<leftarrow> split_move (half_order m) leaf_node left (heap t);
     n \<leftarrow> h leaf_node;
     _ \<leftarrow> set_at (records n) 0;
     h \<leftarrow> update_node left (\<lambda>x. x\<lparr>is_leaf := is_leaf n, nxt := Some leaf_node\<rparr>) h;
     h \<leftarrow> (case pre n of
            None \<Rightarrow> Some h
          | Some p \<Rightarrow> do {
              h \<leftarrow> update_node left (\<lambda>x. x\<lparr>pre := Some p\<rparr>) h;
              update_node p (\<lambda>x. x\<lparr>nxt := Some left\<rparr>) h
            });
     h \<leftarrow> update_node leaf_node (\<lambda>x. x\<lparr>pre := Some left\<rparr>) h;
     (p, t) \<leftarrow> (case parent n of
            Some p \<Rightarrow> Some (p, t\<lparr>heap := h\<rparr>)
          | None \<Rightarrow> do {
              let p = fresh t;
              j \<leftarrow> set_last (records n);
              let root = make_node\<lparr>is_leaf := False,
                                   records := set_insert [] (fst (records n ! j), Some leaf_node)\<rparr>;
              Some (p, t\<lparr>heap := h(p \<mapsto> root), fresh := Suc p, m_root := Some p\<rparr>)
            });
     l \<leftarrow> heap t left;
     j \<leftarrow> set_last (records l);
     h \<leftarrow> update_node p (\<lambda>x. x\<lparr>records := set_insert (records x) (fst (records l ! j), Some left)\<rparr>) (heap t);
     h \<leftarrow> update_node left (\<lambda>x. x\<lparr>parent := Some p\<rparr>) h;
     h \<leftarrow> update_node leaf_node (\<lambda>x. x\<lparr>parent := Some p\<rparr>) h;
     Some ((p, left), t\<lparr>heap := h\<rparr>)
   }"

text \<open>\<^verbatim>\<open>while (cur != nullptr && cur->records.size() > order) cur = split(cur).first;\<close>\<close>

partial_function (option) split_loop :: "nat \<Rightarrow> addr option \<Rightarrow> 'k::linorder bplustree \<Rightarrow> 'k bplustree option" where
  "split_loop m cur t =
     (case cur of
        None \<Rightarrow> Some t
      | Some a \<Rightarrow> do {
          n \<leftarrow> heap t a;
          if length (records n) > m then do {
            (pl, t') \<leftarrow> split m a t;
            split_loop m (Some (fst pl)) t'
          }
          else Some t
        })"

declare split_loop.simps [code]

text \<open>
  The descent of \<^verbatim>\<open>insert\<close> to a leaf. At an internal node whose keys are all
  less than the new key it takes the last record and overwrites its key.
\<close>

partial_function (option) insert_descend :: "'k::linorder \<Rightarrow> addr option \<Rightarrow> 'k heap \<Rightarrow> (addr \<times> 'k heap) option" where
  "insert_descend key cur h = do {
     a \<leftarrow> cur;
     n \<leftarrow> h a;
     if \<not> is_leaf n then
       (let i = set_lower_bound (records n) key
        in if i = length (records n) then do {
             j \<leftarrow> set_last (records n);
             insert_descend key (snd (records n ! j)) (h(a \<mapsto> n\<lparr>records := set_key (records n) j key\<rparr>))
           }
           else insert_descend key (snd (records n ! i)) h)
     else Some (a, h)
   }"

declare insert_descend.simps [code]

text \<open>\<^verbatim>\<open>insert\<close> returns the handle of the key and whether it was inserted.\<close>

definition insert :: "nat \<Rightarrow> 'k::linorder \<Rightarrow> 'k bplustree \<Rightarrow> ((iterator \<times> bool) \<times> 'k bplustree) option" where
  "insert m key t =
     (case m_root t of
        None \<Rightarrow> do {
          let a = fresh t;
          let root = make_node\<lparr>is_leaf := True, nxt := Some m_header, pre := Some m_header\<rparr>;
          h \<leftarrow> update_node m_header (\<lambda>x. x\<lparr>nxt := Some a, pre := Some a\<rparr>) ((heap t)(a \<mapsto> root));
          h \<leftarrow> update_node a (\<lambda>x. x\<lparr>records := set_insert (records x) (key, None)\<rparr>) h;
          Some ((make_iterator_uncheck a 0, True),
                t\<lparr>heap := h, fresh := Suc a, m_root := Some a, m_size := m_size t + 1\<rparr>)
        }
      | Some r \<Rightarrow> do {
          (cur, h) \<leftarrow> insert_descend key (Some r) (heap t);
          n \<leftarrow> h cur;
          let t = t\<lparr>heap := h\<rparr>;
          if set_find (records n) key \<noteq> length (records n) then
            Some ((make_iterator_uncheck cur (set_find (records n) key), False), t)
          else do {
            let rs = set_insert (records n) (key, None);
            let t = t\<lparr>heap := h(cur \<mapsto> n\<lparr>records := rs\<rparr>), m_size := m_size t + 1\<rparr>;
            if length rs \<le> m then
              Some ((make_iterator_uncheck cur (set_find rs key), True), t)
            else do {
              ((p, left), t) \<leftarrow> split m cur t;
              n \<leftarrow> heap t cur;
              first \<leftarrow> set_at (records n) 0;
              let insert_node = (if key < fst first then left else cur);
              l \<leftarrow> heap t insert_node;
              let find_result = set_find (records l) key;
              t \<leftarrow> split_loop m (Some p) t;
              Some ((make_iterator_uncheck insert_node find_result, True), t)
            }
          }
        })"

section \<open>Clearing\<close>

text \<open>
  \<^verbatim>\<open>clear_helper\<close> frees a subtree in post-order. The recursion over the child
  pointers is written with an explicit stack of pending work: \<open>Visit p\<close> is a
  pending call \<^verbatim>\<open>clear_helper(p)\<close>, \<open>Free a\<close> is the pending \<^verbatim>\<open>delete node\<close> that
  follows the loop over the records of \<open>a\<close>.
\<close>

datatype work = Visit "addr option" | Free addr

partial_function (option) clear_stack :: "work list \<Rightarrow> 'k heap \<Rightarrow> 'k heap option" where
  "clear_stack ws h =
     (case ws of
        [] \<Rightarrow> Some h
      | Visit None # ws' \<Rightarrow> clear_stack ws' h
      | Visit (Some a) # ws' \<Rightarrow> do {
          n \<leftarrow> h a;
          clear_stack (map (\<lambda>r. Visit (snd r)) (records n) @ Free a # ws') h
        }
      | Free a # ws' \<Rightarrow> clear_stack ws' (h(a := None)))"

declare clear_stack.simps [code]

definition clear_helper :: "addr option \<Rightarrow> 'k heap \<Rightarrow> 'k heap option" where
  "clear_helper p h = clear_stack [Visit p] h"

definition reset_header :: "'k heap \<Rightarrow> 'k heap option" where
  "reset_header h = update_node m_header (\<lambda>x. x\<lparr>nxt := Some m_header, pre := Some m_header\<rparr>) h"

definition clear :: "'k bplustree \<Rightarrow> 'k bplustree option" where
  "clear t = do {
     h \<leftarrow> clear_helper (m_root t) (heap t);
     h \<leftarrow> reset_header h;
     Some (t\<lparr>heap := h, m_root := None, m_size := 0\<rparr>)
   }"

section \<open>Deletion\<close>

datatype EraseStrategy =
  ROOT | REMOVE_DIRECTLY | MERGE_LEFT | MERGE_RIGHT | BORROW_LEFT | BORROW_RIGHT | SINGLE_CHILD

text \<open>
  \<^verbatim>\<open>node->records.size() - 1 + sibling->records.size()\<close> is computed in \<^verbatim>\<open>size_t\<close>:
  when both containers are empty the subtraction wraps to the largest value; in
  every other case the sum is the natural number \<open>n + l - 1\<close>.
\<close>

definition merged_size :: "nat \<Rightarrow> nat \<Rightarrow> nat" where
  "merged_size n l = (if n + l = 0 then 2 ^ 64 - 1 else n + l - 1)"

text \<open>
  What \<^verbatim>\<open>erase_strategy\<close> reads of the neighbour \<open>p\<close> (\<^verbatim>\<open>node->pre\<close> or
  \<^verbatim>\<open>node->next\<close>) of a node \<open>n\<close>: whether it is an end of the chain
  (\<^verbatim>\<open>is_left_end\<close>, \<^verbatim>\<open>is_right_end\<close>), whether it has the parent of \<open>n\<close>
  (\<^verbatim>\<open>has_left_slibing\<close>, \<^verbatim>\<open>has_right_slibing\<close>), and its number of records. The
  neighbour is dereferenced only when it is not an end.
\<close>

definition neighbour :: "'k heap \<Rightarrow> 'k node \<Rightarrow> addr option \<Rightarrow> (bool \<times> bool \<times> nat) option" where
  "neighbour h n p =
     (if p = None \<or> p = Some m_header then Some (True, False, 0)
      else do {
        a \<leftarrow> p;
        s \<leftarrow> h a;
        Some (False, parent s = parent n, length (records s))
      })"

text \<open>The two instances of the template \<^verbatim>\<open>erase_strategy<order_eq_2>\<close>.\<close>

definition erase_strategy_eq2 :: "nat \<Rightarrow> 'k bplustree \<Rightarrow> addr \<Rightarrow> EraseStrategy option" where
  "erase_strategy_eq2 m t a =
     (if m_root t = Some a then Some ROOT
      else do {
        n \<leftarrow> heap t a;
        (is_left_end, has_left_slibing, left_size) \<leftarrow> neighbour (heap t) n (pre n);
        (is_right_end, has_right_slibing, right_size) \<leftarrow> neighbour (heap t) n (nxt n);
        Some (if has_left_slibing \<and> merged_size (length (records n)) left_size \<le> m then MERGE_LEFT
              else if has_right_slibing \<and> merged_size (length (records n)) right_size \<le> m then MERGE_RIGHT
              else if length (records n) > half_order m then REMOVE_DIRECTLY
              else if \<not> is_right_end \<and> right_size > half_order m then BORROW_RIGHT
              else if \<not> is_left_end \<and> left_size > half_order m then BORROW_LEFT
              else SINGLE_CHILD)
      })"

definition erase_strategy_gt2 :: "nat \<Rightarrow> 'k bplustree \<Rightarrow> addr \<Rightarrow> EraseStrategy option" where
  "erase_strategy_gt2 m t a =
     (if m_root t = Some a then Some ROOT
      else do {
        n \<leftarrow> heap t a;
        (is_left_end, has_left_slibing, left_size) \<leftarrow> neighbour (heap t) n (pre n);
        (is_right_end, has_right_slibing, right_size) \<leftarrow> neighbour (heap t) n (nxt n);
        Some (if length (records n) > half_order m then REMOVE_DIRECTLY
              else if \<not> is_right_end \<and> right_size > half_order m then BORROW_RIGHT
              else if \<not> is_left_end \<and> left_size > half_order m then BORROW_LEFT
              else if has_left_slibing \<and> merged_size (length (records n)) left_size \<le> m then MERGE_LEFT
              else if has_right_slibing \<and> merged_size (length (records n)) right_size \<le> m then MERGE_RIGHT
              else SINGLE_CHILD)
      })"

text \<open>\<^verbatim>\<open>erase_strategy<order == 2>(node, record_iterator)\<close>, as \<^verbatim>\<open>erase_helper\<close> calls it.\<close>

definition erase_strategy :: "nat \<Rightarrow> 'k bplustree \<Rightarrow> addr \<Rightarrow> EraseStrategy option" where
  "erase_strategy m t a = (if m = 2 then erase_strategy_eq2 m t a else erase_strategy_gt2 m t a)"

text \<open>
  \<^verbatim>\<open>fix_key_on_path\<close>. \<open>fix_to_root\<close> is the loop of the first branch (the node is
  the last of its level), \<open>fix_to_common\<close> the loop of the second branch together
  with the overwrite in the common ancestor that follows it.
\<close>

partial_function (option) fix_to_root :: "'k \<Rightarrow> addr option \<Rightarrow> 'k heap \<Rightarrow> 'k heap option" where
  "fix_to_root new_key p h =
     (case p of
        None \<Rightarrow> Some h
      | Some a \<Rightarrow> do {
          n \<leftarrow> h a;
          j \<leftarrow> set_last (records n);
          fix_to_root new_key (parent n) (h(a \<mapsto> n\<lparr>records := set_key (records n) j new_key\<rparr>))
        })"

declare fix_to_root.simps [code]

partial_function (option) fix_to_common :: "'k::linorder \<Rightarrow> 'k \<Rightarrow> addr option \<Rightarrow> addr option \<Rightarrow> 'k heap \<Rightarrow> 'k heap option" where
  "fix_to_common old_key new_key p right h =
     (if p \<noteq> right then do {
        a \<leftarrow> p;
        n \<leftarrow> h a;
        j \<leftarrow> set_last (records n);
        let h = h(a \<mapsto> n\<lparr>records := set_key (records n) j new_key\<rparr>);
        r \<leftarrow> right;
        rn \<leftarrow> h r;
        fix_to_common old_key new_key (parent n) (parent rn) h
      }
      else do {
        a \<leftarrow> p;
        n \<leftarrow> h a;
        let i = set_find (records n) old_key;
        _ \<leftarrow> set_at (records n) i;
        Some (h(a \<mapsto> n\<lparr>records := set_key (records n) i new_key\<rparr>))
      })"

declare fix_to_common.simps [code]

definition fix_key_on_path :: "addr \<Rightarrow> 'k::linorder \<Rightarrow> 'k \<Rightarrow> 'k heap \<Rightarrow> 'k heap option" where
  "fix_key_on_path a old_key new_key h = do {
     n \<leftarrow> h a;
     if nxt n = None \<or> nxt n = Some m_header then fix_to_root new_key (parent n) h
     else do {
       b \<leftarrow> nxt n;
       r \<leftarrow> h b;
       fix_to_common old_key new_key (parent n) (parent r) h
     }
   }"

text \<open>
  The loops of the two merges: every record of the source node is inserted into the
  target, after the parent pointer of its child has been redirected to the target.
\<close>

fun adopt :: "addr \<Rightarrow> ('k::linorder \<times> addr option) list \<Rightarrow> 'k heap \<Rightarrow> 'k heap option" where
  "adopt target [] h = Some h"
| "adopt target (r # rs) h = do {
     h \<leftarrow> (case snd r of
            None \<Rightarrow> Some h
          | Some c \<Rightarrow> update_node c (\<lambda>x. x\<lparr>parent := Some target\<rparr>) h);
     h \<leftarrow> update_node target (\<lambda>x. x\<lparr>records := set_insert (records x) r\<rparr>) h;
     adopt target rs h
   }"

text \<open>
  \<^verbatim>\<open>erase_helper\<close> takes the node and the position by reference; the result is
  (repair goes on in the parent, node, position, heap). Where the source goes on
  with a null \<^verbatim>\<open>node\<close>, the next round dereferences it at once, so the model has
  no result there. Each branch of the \<^verbatim>\<open>if\<close> chain over the strategy is a
  definition of its own; \<open>a\<close> is the node, \<open>i\<close> the position of the record to
  remove.
\<close>

type_synonym 'k repair = "(bool \<times> addr \<times> nat \<times> 'k heap) option"

definition erase_root :: "addr \<Rightarrow> nat \<Rightarrow> 'k heap \<Rightarrow> 'k repair" where
  "erase_root a i h = do {
     n \<leftarrow> h a;
     rs \<leftarrow> set_erase (records n) i;
     Some (False, a, i, h(a \<mapsto> n\<lparr>records := rs\<rparr>))
   }"

definition erase_merge_left :: "addr \<Rightarrow> nat \<Rightarrow> 'k::linorder heap \<Rightarrow> 'k repair" where
  "erase_merge_left a i h = do {
     n \<leftarrow> h a;
     rec \<leftarrow> set_at (records n) i;
     let to_delete_key = fst rec;
     let left = pre n;
     let need_fix_pos_key_on_path = (Suc i = length (records n));
     rs \<leftarrow> set_erase (records n) i;
     let h = h(a \<mapsto> n\<lparr>records := rs\<rparr>);
     la \<leftarrow> left;
     l \<leftarrow> h la;
     j \<leftarrow> set_last (records l);
     let left_key = fst (records l ! j);
     pa \<leftarrow> parent n;
     p \<leftarrow> h pa;
     let left_in_parent = set_find (records p) left_key;
     h \<leftarrow> adopt a (rev (records l)) h;
     h \<leftarrow> (if need_fix_pos_key_on_path then do {
             n \<leftarrow> h a;
             j \<leftarrow> set_last (records n);
             fix_key_on_path a to_delete_key (fst (records n ! j)) h
           } else Some h);
     l \<leftarrow> h la;
     h \<leftarrow> (case pre l of
            None \<Rightarrow> Some h
          | Some lp \<Rightarrow> update_node lp (\<lambda>x. x\<lparr>nxt := Some a\<rparr>) h);
     l \<leftarrow> h la;
     h \<leftarrow> update_node a (\<lambda>x. x\<lparr>pre := pre l\<rparr>) h;
     let h = h(la := None);
     p \<leftarrow> h pa;
     _ \<leftarrow> set_at (records p) left_in_parent;
     let h = h(pa \<mapsto> p\<lparr>records := set_child (records p) left_in_parent None\<rparr>);
     Some (True, pa, left_in_parent, h)
   }"

definition erase_merge_right :: "addr \<Rightarrow> nat \<Rightarrow> 'k::linorder heap \<Rightarrow> 'k repair" where
  "erase_merge_right a i h = do {
     n \<leftarrow> h a;
     let right = nxt n;
     j \<leftarrow> set_last (records n);
     let left_key = fst (records n ! j);
     rs \<leftarrow> set_erase (records n) i;
     let h = h(a \<mapsto> n\<lparr>records := rs\<rparr>);
     pa \<leftarrow> parent n;
     p \<leftarrow> h pa;
     let left_in_parent = set_find (records p) left_key;
     ra \<leftarrow> right;
     h \<leftarrow> adopt ra rs h;
     h \<leftarrow> update_node a (\<lambda>x. x\<lparr>records := []\<rparr>) h;
     n \<leftarrow> h a;
     h \<leftarrow> (case pre n of
            None \<Rightarrow> Some h
          | Some np \<Rightarrow> update_node np (\<lambda>x. x\<lparr>nxt := Some ra\<rparr>) h);
     n \<leftarrow> h a;
     h \<leftarrow> update_node ra (\<lambda>x. x\<lparr>pre := pre n\<rparr>) h;
     let h = h(a := None);
     p \<leftarrow> h pa;
     _ \<leftarrow> set_at (records p) left_in_parent;
     let h = h(pa \<mapsto> p\<lparr>records := set_child (records p) left_in_parent None\<rparr>);
     Some (True, pa, left_in_parent, h)
   }"

definition erase_remove_directly :: "addr \<Rightarrow> nat \<Rightarrow> 'k::linorder heap \<Rightarrow> 'k repair" where
  "erase_remove_directly a i h = do {
     n \<leftarrow> h a;
     rec \<leftarrow> set_at (records n) i;
     let to_delete_key = fst rec;
     let need_fix_pos_key_on_path = (Suc i = length (records n));
     rs \<leftarrow> set_erase (records n) i;
     let h = h(a \<mapsto> n\<lparr>records := rs\<rparr>);
     h \<leftarrow> (if need_fix_pos_key_on_path then do {
             j \<leftarrow> set_last rs;
             fix_key_on_path a to_delete_key (fst (rs ! j)) h
           } else Some h);
     Some (False, a, i, h)
   }"

definition erase_borrow_right :: "addr \<Rightarrow> nat \<Rightarrow> 'k::linorder heap \<Rightarrow> 'k repair" where
  "erase_borrow_right a i h = do {
     n \<leftarrow> h a;
     let right = nxt n;
     j \<leftarrow> set_last (records n);
     let old_key = fst (records n ! j);
     ra \<leftarrow> right;
     r \<leftarrow> h ra;
     right_first \<leftarrow> set_at (records r) 0;
     let new_key = fst right_first;
     h \<leftarrow> fix_key_on_path a old_key new_key h;
     n \<leftarrow> h a;
     rs \<leftarrow> set_erase (records n) i;
     let h = h(a \<mapsto> n\<lparr>records := rs\<rparr>);
     r \<leftarrow> h ra;
     right_first \<leftarrow> set_at (records r) 0;
     h \<leftarrow> (case snd right_first of
            None \<Rightarrow> Some h
          | Some c \<Rightarrow> update_node c (\<lambda>x. x\<lparr>parent := Some a\<rparr>) h);
     h \<leftarrow> update_node a (\<lambda>x. x\<lparr>records := set_insert (records x) right_first\<rparr>) h;
     h \<leftarrow> update_node ra (\<lambda>x. x\<lparr>records := tl (records x)\<rparr>) h;
     Some (False, a, i, h)
   }"

definition erase_borrow_left :: "addr \<Rightarrow> nat \<Rightarrow> 'k::linorder heap \<Rightarrow> 'k repair" where
  "erase_borrow_left a i h = do {
     n \<leftarrow> h a;
     rec \<leftarrow> set_at (records n) i;
     let to_delete_key = fst rec;
     let left = pre n;
     let need_fix_pos_key_on_path = (Suc i = length (records n));
     rs \<leftarrow> set_erase (records n) i;
     let h = h(a \<mapsto> n\<lparr>records := rs\<rparr>);
     la \<leftarrow> left;
     l \<leftarrow> h la;
     j \<leftarrow> set_last (records l);
     let left_last = records l ! j;
     let left_old_key = fst left_last;
     h \<leftarrow> (case snd left_last of
            None \<Rightarrow> Some h
          | Some c \<Rightarrow> update_node c (\<lambda>x. x\<lparr>parent := Some a\<rparr>) h);
     h \<leftarrow> update_node a (\<lambda>x. x\<lparr>records := set_insert (records x) left_last\<rparr>) h;
     h \<leftarrow> update_node la (\<lambda>x. x\<lparr>records := butlast (records x)\<rparr>) h;
     l \<leftarrow> h la;
     j \<leftarrow> set_last (records l);
     let left_new_key = fst (records l ! j);
     h \<leftarrow> fix_key_on_path la left_old_key left_new_key h;
     h \<leftarrow> (if need_fix_pos_key_on_path then do {
             n \<leftarrow> h a;
             j \<leftarrow> set_last (records n);
             fix_key_on_path a to_delete_key (fst (records n ! j)) h
           } else Some h);
     Some (False, a, i, h)
   }"

definition erase_single_child :: "addr \<Rightarrow> nat \<Rightarrow> 'k heap \<Rightarrow> 'k repair" where
  "erase_single_child a i h = do {
     n \<leftarrow> h a;
     let left = pre n;
     let right = nxt n;
     pa \<leftarrow> parent n;
     p \<leftarrow> h pa;
     _ \<leftarrow> set_at (records p) 0;
     let h = h(pa \<mapsto> p\<lparr>records := set_child (records p) 0 None\<rparr>);
     n \<leftarrow> h a;
     h \<leftarrow> (case pre n of
            None \<Rightarrow> Some h
          | Some np \<Rightarrow> do {
              h \<leftarrow> update_node np (\<lambda>x. x\<lparr>nxt := right\<rparr>) h;
              n \<leftarrow> h a;
              (case right of
                 None \<Rightarrow> Some h
               | Some ra \<Rightarrow> update_node ra (\<lambda>x. x\<lparr>pre := pre n\<rparr>) h)
            });
     n \<leftarrow> h a;
     h \<leftarrow> (case nxt n of
            None \<Rightarrow> Some h
          | Some nn \<Rightarrow> do {
              h \<leftarrow> update_node nn (\<lambda>x. x\<lparr>pre := left\<rparr>) h;
              n \<leftarrow> h a;
              (case left of
                 None \<Rightarrow> Some h
               | Some la \<Rightarrow> update_node la (\<lambda>x. x\<lparr>nxt := nxt n\<rparr>) h)
            });
     let h = h(a := None);
     Some (True, pa, 0, h)
   }"

definition erase_helper :: "nat \<Rightarrow> 'k::linorder bplustree \<Rightarrow> addr \<Rightarrow> nat \<Rightarrow> 'k repair" where
  "erase_helper m t a i = do {
     strategy \<leftarrow> erase_strategy m t a;
     n \<leftarrow> heap t a;
     _ \<leftarrow> set_at (records n) i;
     (case strategy of
        ROOT \<Rightarrow> erase_root a i (heap t)
      | MERGE_LEFT \<Rightarrow> erase_merge_left a i (heap t)
      | MERGE_RIGHT \<Rightarrow> erase_merge_right a i (heap t)
      | REMOVE_DIRECTLY \<Rightarrow> erase_remove_directly a i (heap t)
      | BORROW_RIGHT \<Rightarrow> erase_borrow_right a i (heap t)
      | BORROW_LEFT \<Rightarrow> erase_borrow_left a i (heap t)
      | SINGLE_CHILD \<Rightarrow> erase_single_child a i (heap t))
   }"

text \<open>\<^verbatim>\<open>while (erase_helper(node, record_iterator));\<close>\<close>

partial_function (option) erase_loop :: "nat \<Rightarrow> addr \<Rightarrow> nat \<Rightarrow> 'k::linorder bplustree \<Rightarrow> 'k bplustree option" where
  "erase_loop m a i t = do {
     (again, a', i', h) \<leftarrow> erase_helper m t a i;
     if again then erase_loop m a' i' (t\<lparr>heap := h\<rparr>) else Some (t\<lparr>heap := h\<rparr>)
   }"

declare erase_loop.simps [code]

text \<open>The loop that replaces a root with a single record by its child.\<close>

partial_function (option) shrink_root :: "'k bplustree \<Rightarrow> 'k bplustree option" where
  "shrink_root t = do {
     ra \<leftarrow> m_root t;
     r \<leftarrow> heap t ra;
     if \<not> is_leaf r \<and> length (records r) = 1 then do {
       let tmp = snd (records r ! 0);
       let h = (heap t)(ra := None);
       c \<leftarrow> tmp;
       h \<leftarrow> update_node c (\<lambda>x. x\<lparr>parent := None\<rparr>) h;
       shrink_root (t\<lparr>heap := h, m_root := tmp\<rparr>)
     }
     else Some t
   }"

declare shrink_root.simps [code]

text \<open>
  \<^verbatim>\<open>erase(iterator pos)\<close>. The exception leaves the function with the tree as it
  is at the \<^verbatim>\<open>throw\<close>, so the result pairs the outcome with the tree.
\<close>

datatype exn = underflow_error

definition erase :: "nat \<Rightarrow> iterator \<Rightarrow> 'k::linorder bplustree \<Rightarrow> ((exn + iterator) \<times> 'k bplustree) option" where
  "erase m pos t =
     (if m_size t = 0 then Some (Inl underflow_error, t)
      else
        let t = t\<lparr>m_size := m_size t - 1\<rparr>
        in if m_size t = 0 then do {
             t \<leftarrow> clear t;
             Some (Inr end_iterator, t)
           }
           else do {
             a \<leftarrow> it_node pos;
             n \<leftarrow> heap t a;
             rec \<leftarrow> set_at (records n) (record_iterator pos);
             let to_delete_key = fst rec;
             t \<leftarrow> erase_loop m a (record_iterator pos) t;
             t \<leftarrow> shrink_root t;
             it \<leftarrow> lower_bound t to_delete_key;
             Some (Inr it, t)
           })"

text \<open>
  \<^verbatim>\<open>erase(const_iterator pos)\<close>. The argument of the call of \<^verbatim>\<open>erase(iterator)\<close> is
  built first: \<^verbatim>\<open>pos.node->records.erase(pos.record_iterator, pos.record_iterator)\<close>
  reads the container of the node of the handle and turns the position into a
  mutable one, removing nothing. This happens before the body of
  \<^verbatim>\<open>erase(iterator)\<close> looks at the size, and it has no defined result for a handle
  whose node is null or freed, or whose position is not one of the container.
\<close>

definition erase_const :: "nat \<Rightarrow> iterator \<Rightarrow> 'k::linorder bplustree \<Rightarrow> ((exn + iterator) \<times> 'k bplustree) option" where
  "erase_const m pos t = do {
     a \<leftarrow> it_node pos;
     n \<leftarrow> heap t a;
     if record_iterator pos \<le> length (records n)
     then erase m (make_iterator_uncheck a (record_iterator pos)) t
     else None
   }"

section \<open>Histories\<close>

text \<open>
  The states a program can bring a tree into: starting from the constructed tree it
  inserts keys, erases through the handle that \<^verbatim>\<open>find\<close> returned for a stored key
  (as the driver \<^verbatim>\<open>example.cpp\<close> does), and clears.
\<close>

datatype 'k op = Insert 'k | Erase 'k | Clear

fun apply_op :: "nat \<Rightarrow> 'k::linorder op \<Rightarrow> 'k bplustree \<Rightarrow> 'k bplustree option" where
  "apply_op m (Insert k) t = map_option snd (insert m k t)"
| "apply_op m (Erase k) t = do {
     it \<leftarrow> find t k;
     if it_node it = None then Some t
     else map_option snd (erase m it t)
   }"
| "apply_op m Clear t = clear t"

fun run :: "nat \<Rightarrow> 'k::linorder op list \<Rightarrow> 'k bplustree \<Rightarrow> 'k bplustree option" where
  "run m [] t = Some t"
| "run m (x # xs) t = do { t' \<leftarrow> apply_op m x t; run m xs t' }"

definition reachable :: "nat \<Rightarrow> 'k::linorder bplustree \<Rightarrow> bool" where
  "reachable m t = (\<exists>ops. run m ops empty_tree = Some t)"

section \<open>Sample trees\<close>

text \<open>Trees of integer keys built by short histories; the examples below use them.\<close>

definition t12 :: "int bplustree" where
  "t12 = the (run 3 [Insert 1, Insert 2] empty_tree)"

definition t_order2 :: "int bplustree" where
  "t_order2 = the (run 2 [Insert 1, Insert 2, Insert 3] empty_tree)"

definition t_order4 :: "int bplustree" where
  "t_order4 = the (run 4 [Insert 1, Insert 2, Insert 3, Insert 4, Insert 5] empty_tree)"

text \<open>
  Order 3, two internal nodes under the root: leaves \<open>[1,2]\<close> and \<open>[3,4,5]\<close> under
  the first, \<open>[6,7]\<close> and \<open>[8,9]\<close> under the second.
\<close>

definition t_borrow :: "int bplustree" where
  "t_borrow = the (run 3 [Insert 5, Insert 8, Insert 7, Insert 2, Insert 3, Insert 6,
                          Insert 1, Insert 4, Insert 9] empty_tree)"

section \<open>The shape of a tree in the heap\<close>

text \<open>
  What the nodes reachable from the root look like between two calls is described
  against a list of levels: level 0 holds the root, the last level the leaves from
  left to right, and the children of the nodes of a level, in order, are the next
  level. The list of levels is not part of the program state.
\<close>

definition recs :: "'k heap \<Rightarrow> addr \<Rightarrow> ('k \<times> addr option) list" where
  "recs h a = (case h a of None \<Rightarrow> [] | Some n \<Rightarrow> records n)"

definition keys_of :: "'k heap \<Rightarrow> addr \<Rightarrow> 'k list" where
  "keys_of h a = map fst (recs h a)"

definition kids_of :: "'k heap \<Rightarrow> addr \<Rightarrow> addr option list" where
  "kids_of h a = map snd (recs h a)"

definition level_keys :: "'k heap \<Rightarrow> addr list \<Rightarrow> 'k list" where
  "level_keys h L = concat (map (keys_of h) L)"

definition level_kids :: "'k heap \<Rightarrow> addr list \<Rightarrow> addr option list" where
  "level_kids h L = concat (map (kids_of h) L)"

definition level_recs :: "'k heap \<Rightarrow> addr list \<Rightarrow> ('k \<times> addr option) list" where
  "level_recs h L = concat (map (recs h) L)"

definition last_key :: "'k heap \<Rightarrow> addr \<Rightarrow> 'k" where
  "last_key h a = fst (last (recs h a))"

text \<open>
  While a key travels up or down a path, the routers above one node \<open>b\<close> already
  (or still) carry a key \<open>k\<close> that is not the last key of \<open>b\<close>. \<open>rep_key\<close> is the
  key that the router of a node is to carry: its last key, or \<open>k\<close> for that one
  node.
\<close>

definition rep_key :: "'k heap \<Rightarrow> (addr \<times> 'k) option \<Rightarrow> addr \<Rightarrow> 'k" where
  "rep_key h ov a = (case ov of None \<Rightarrow> last_key h a
                     | Some (b, k) \<Rightarrow> if a = b then k else last_key h a)"

text \<open>The nodes of a level are linked from left to right, between the ends \<open>l\<close> and \<open>r\<close>.\<close>

fun chain :: "'k heap \<Rightarrow> addr option \<Rightarrow> addr option \<Rightarrow> addr list \<Rightarrow> bool" where
  "chain h l r [] = True"
| "chain h l r (a # as) =
     (case h a of
        None \<Rightarrow> False
      | Some n \<Rightarrow> pre n = l \<and> nxt n = (case as of [] \<Rightarrow> r | b # _ \<Rightarrow> Some b)
                  \<and> chain h (Some a) r as)"

definition internal_level :: "'k heap \<Rightarrow> (addr \<times> 'k) option \<Rightarrow> addr list \<Rightarrow> addr list \<Rightarrow> bool" where
  "internal_level h ov L L' \<longleftrightarrow>
     (\<forall>a\<in>set L. \<exists>n. h a = Some n \<and> \<not> is_leaf n)
     \<and> level_recs h L = map (\<lambda>c. (rep_key h ov c, Some c)) L'
     \<and> (\<forall>a\<in>set L. \<forall>c. Some c \<in> set (kids_of h a) \<longrightarrow> (\<exists>n. h c = Some n \<and> parent n = Some a))"

definition leaf_level :: "'k heap \<Rightarrow> addr list \<Rightarrow> bool" where
  "leaf_level h L \<longleftrightarrow> (\<forall>a\<in>set L. \<exists>n. h a = Some n \<and> is_leaf n \<and> (\<forall>r\<in>set (records n). snd r = None))"

definition shape :: "'k::linorder heap \<Rightarrow> addr list list \<Rightarrow> (addr \<times> 'k) option \<Rightarrow> bool" where
  "shape h lv ov \<longleftrightarrow>
     lv \<noteq> [] \<and> (\<forall>L\<in>set lv. L \<noteq> []) \<and> distinct (concat lv) \<and> m_header \<notin> set (concat lv)
     \<and> (\<exists>r n. hd lv = [r] \<and> h r = Some n \<and> parent n = None)
     \<and> (\<forall>d. Suc d < length lv \<longrightarrow>
            internal_level h ov (lv ! d) (lv ! Suc d) \<and> chain h None None (lv ! d))
     \<and> leaf_level h (last lv)
     \<and> chain h (Some m_header) (Some m_header) (last lv)
     \<and> (\<exists>hn. h m_header = Some hn \<and> nxt hn = Some (hd (last lv)) \<and> pre hn = Some (last (last lv)))
     \<and> (\<forall>L\<in>set lv. sorted_wrt (<) (level_keys h L))
     \<and> (\<forall>a\<in>set (concat lv). (case ov of None \<Rightarrow> True | Some (b, k) \<Rightarrow> a \<noteq> b) \<longrightarrow> recs h a \<noteq> [])"

text \<open>
  The fill bounds: at most \<open>m\<close> records; at least \<open>half_order m\<close> in a node other
  than the root, at least one in the root and at least two in a root that is not a
  leaf.
\<close>

definition fits :: "nat \<Rightarrow> 'k heap \<Rightarrow> addr list list \<Rightarrow> addr \<Rightarrow> bool" where
  "fits m h lv a \<longleftrightarrow>
     length (recs h a) \<le> m
     \<and> (if hd lv = [a] then 1 \<le> length (recs h a) \<and> (1 < length lv \<longrightarrow> 2 \<le> length (recs h a))
        else half_order m \<le> length (recs h a))"

definition inv :: "nat \<Rightarrow> 'k::linorder bplustree \<Rightarrow> addr list list \<Rightarrow> bool" where
  "inv m t lv \<longleftrightarrow>
     m_header < fresh t \<and> (\<forall>a\<in>set (concat lv). a < fresh t)
     \<and> (case m_root t of
          None \<Rightarrow> lv = [] \<and> m_size t = 0
                  \<and> (\<exists>hn. heap t m_header = Some hn \<and> nxt hn = Some m_header \<and> pre hn = Some m_header)
        | Some r \<Rightarrow> shape (heap t) lv None \<and> hd lv = [r]
                  \<and> (\<forall>a\<in>set (concat lv). fits m (heap t) lv a)
                  \<and> m_size t = length (level_keys (heap t) (last lv)))"

text \<open>The keys in the leaves, from left to right.\<close>

definition leaf_keys :: "'k bplustree \<Rightarrow> addr list list \<Rightarrow> 'k list" where
  "leaf_keys t lv = (if lv = [] then [] else level_keys (heap t) (last lv))"

text \<open>The set of keys that a history leaves in the container.\<close>

fun contents :: "'k op list \<Rightarrow> 'k set \<Rightarrow> 'k set" where
  "contents [] S = S"
| "contents (Insert k # xs) S = contents xs (Set.insert k S)"
| "contents (Erase k # xs) S = contents xs (S - {k})"
| "contents (Clear # xs) S = contents xs {}"

text \<open>
  The client loop \<^verbatim>\<open>for (it = begin(); it != end(); ++it)\<close>, collecting \<^verbatim>\<open>*it\<close>.
\<close>

partial_function (option) collect :: "'k bplustree \<Rightarrow> iterator \<Rightarrow> 'k list option" where
  "collect t it =
     (if iterator_eq it end_iterator then Some []
      else do {
        k \<leftarrow> deref t it;
        it' \<leftarrow> increment t it;
        ks \<leftarrow> collect t it';
        Some (k # ks)
      })"

declare collect.simps [code]

definition traverse :: "'k bplustree \<Rightarrow> 'k list option" where
  "traverse t = do { b \<leftarrow> begin_iterator t; collect t b }"

text \<open>
  The heap \<open>H\<close> after \<^verbatim>\<open>split\<close> has moved the first \<open>hh\<close> records of the node \<open>a\<close>
  (contents \<open>n\<close> in the heap \<open>h\<close> before) into the new node \<open>f\<close> under the parent
  \<open>p\<close>, seen from every node but the parent.
\<close>

definition split_view :: "'k heap \<Rightarrow> 'k heap \<Rightarrow> addr \<Rightarrow> 'k node \<Rightarrow> addr \<Rightarrow> addr \<Rightarrow> nat \<Rightarrow> bool" where
  "split_view h H a n f p hh \<longleftrightarrow>
     H a = Some (n\<lparr>records := drop hh (records n), pre := Some f, parent := Some p\<rparr>)
     \<and> H f = Some \<lparr>records = take hh (records n), is_leaf = is_leaf n, nxt = Some a, pre = pre n,
                   parent = Some p\<rparr>
     \<and> (\<forall>x. x \<noteq> a \<and> x \<noteq> f \<and> x \<noteq> p \<longrightarrow>
           H x = (if Some x = pre n then map_option (\<lambda>y. y\<lparr>nxt := Some f\<rparr>) (h x)
                  else if Some x \<in> snd ` set (take hh (records n))
                       then map_option (\<lambda>y. y\<lparr>parent := Some f\<rparr>) (h x)
                  else h x))"


text \<open>
  The state between two rounds of the loop of splits: the tree is well formed but
  for the node \<open>cur\<close>, which may hold one record more than the order allows.
\<close>

definition pending :: "nat \<Rightarrow> 'k::linorder bplustree \<Rightarrow> addr list list \<Rightarrow> addr \<Rightarrow> bool" where
  "pending m t lv cur \<longleftrightarrow>
     m_header < fresh t \<and> (\<forall>a\<in>set (concat lv). a < fresh t)
     \<and> (\<exists>r. m_root t = Some r \<and> hd lv = [r])
     \<and> shape (heap t) lv None
     \<and> (\<forall>a\<in>set (concat lv). a \<noteq> cur \<longrightarrow> fits m (heap t) lv a)
     \<and> length (recs (heap t) cur) \<le> Suc m
     \<and> (if hd lv = [cur] then 1 < length lv \<longrightarrow> 2 \<le> length (recs (heap t) cur)
         else half_order m \<le> length (recs (heap t) cur))"

text \<open>
  The part of a tree above a level \<open>d\<close>, described without looking at the records
  of the nodes of that level: \<open>routed h \<rho> L L'\<close> says that the records of the
  nodes \<open>L\<close> are, in order, the routers of the nodes \<open>L'\<close> with the keys \<open>\<rho>\<close>, and
  \<open>upper h lv d \<rho>\<close> that the levels above \<open>d\<close> are in order when the nodes of
  level \<open>d\<close> are to be routed by the keys \<open>\<rho>\<close>.
\<close>

definition routed :: "'k heap \<Rightarrow> (addr \<Rightarrow> 'k) \<Rightarrow> addr list \<Rightarrow> addr list \<Rightarrow> bool" where
  "routed h \<rho> L L' \<longleftrightarrow>
     (\<forall>a\<in>set L. \<exists>n. h a = Some n \<and> \<not> is_leaf n)
     \<and> level_recs h L = map (\<lambda>c. (\<rho> c, Some c)) L'
     \<and> (\<forall>a\<in>set L. \<forall>c. Some c \<in> set (kids_of h a) \<longrightarrow> (\<exists>n. h c = Some n \<and> parent n = Some a))"

definition upper :: "'k::linorder heap \<Rightarrow> addr list list \<Rightarrow> nat \<Rightarrow> (addr \<Rightarrow> 'k) \<Rightarrow> bool" where
  "upper h lv d \<rho> \<longleftrightarrow>
     d < length lv \<and> (\<forall>L\<in>set lv. L \<noteq> []) \<and> distinct (concat lv) \<and> m_header \<notin> set (concat lv)
     \<and> (\<exists>r n. hd lv = [r] \<and> h r = Some n \<and> parent n = None)
     \<and> (\<forall>e<d. routed h (if Suc e = d then \<rho> else last_key h) (lv ! e) (lv ! Suc e)
                \<and> chain h None None (lv ! e)
                \<and> sorted_wrt (<) (level_keys h (lv ! e))
                \<and> (\<forall>a\<in>set (lv ! e). recs h a \<noteq> []))"

text \<open>What a node is apart from the keys of its records.\<close>

definition skel :: "'k node \<Rightarrow> bool \<times> addr option \<times> addr option \<times> addr option \<times> addr option list" where
  "skel n = (is_leaf n, nxt n, pre n, parent n, map snd (records n))"

text \<open>
  While \<^verbatim>\<open>erase\<close> repairs the tree, one record, at the position \<open>i\<close> of the node \<open>a\<close>
  of level \<open>d\<close>, is still to be removed. \<open>without h a i\<close> is the heap without that
  record. In the state \<open>mid\<close> between two rounds of the loop the heap without that
  record has the shape of a tree, but for the router of \<open>a\<close>, which carries the last
  key that \<open>a\<close> has with the record; and the nodes have their numbers of records
  when the record is counted.
\<close>

definition without :: "'k heap \<Rightarrow> addr \<Rightarrow> nat \<Rightarrow> 'k heap" where
  "without h a i =
     (case h a of
        None \<Rightarrow> h
      | Some n \<Rightarrow> h(a \<mapsto> n\<lparr>records := take i (records n) @ drop (Suc i) (records n)\<rparr>))"

definition mid :: "nat \<Rightarrow> 'k::linorder heap \<Rightarrow> addr list list \<Rightarrow> nat \<Rightarrow> addr \<Rightarrow> nat \<Rightarrow> bool" where
  "mid m h lv d a i \<longleftrightarrow>
     d < length lv \<and> a \<in> set (lv ! d) \<and> h a \<noteq> None \<and> i < length (recs h a)
     \<and> shape (without h a i) lv (Some (a, last_key h a))
     \<and> (\<forall>x\<in>set (concat lv). fits m h lv x)"

text \<open>
  After the loop the tree is well formed, but its root may be an internal node with
  a single record.
\<close>

definition settled :: "nat \<Rightarrow> 'k::linorder heap \<Rightarrow> addr list list \<Rightarrow> bool" where
  "settled m h lv \<longleftrightarrow>
     shape h lv None
     \<and> (\<forall>x\<in>set (concat lv). hd lv \<noteq> [x] \<longrightarrow> fits m h lv x)
     \<and> (\<forall>r. hd lv = [r] \<longrightarrow> length (recs h r) \<le> m)"

text \<open>The part of a tree from a level \<open>d\<close> downwards.\<close>

definition lower :: "'k::linorder heap \<Rightarrow> addr list list \<Rightarrow> nat \<Rightarrow> (addr \<times> 'k) option \<Rightarrow> bool" where
  "lower h lv d ov \<longleftrightarrow>
     (\<forall>e. d \<le> e \<and> Suc e < length lv \<longrightarrow>
          internal_level h ov (lv ! e) (lv ! Suc e) \<and> chain h None None (lv ! e))
     \<and> leaf_level h (last lv)
     \<and> chain h (Some m_header) (Some m_header) (last lv)
     \<and> (\<exists>hn. h m_header = Some hn \<and> nxt hn = Some (hd (last lv)) \<and> pre hn = Some (last (last lv)))
     \<and> (\<forall>e. d \<le> e \<and> e < length lv \<longrightarrow>
          sorted_wrt (<) (level_keys h (lv ! e))
          \<and> (\<forall>a\<in>set (lv ! e). (case ov of None \<Rightarrow> True | Some (b, k) \<Rightarrow> a \<noteq> b) \<longrightarrow> recs h a \<noteq> []))"
section \<open>Basic facts\<close>

lemma update_node_Some:
  "update_node a f h = Some h' \<longleftrightarrow> (\<exists>n. h a = Some n \<and> h' = h(a \<mapsto> f n))"
  by (auto simp: update_node_def split: option.splits)

lemma recs_Some [simp]: "h a = Some n \<Longrightarrow> recs h a = records n"
  by (simp add: recs_def)

lemma length_keys_of [simp]: "length (keys_of h a) = length (recs h a)"
  by (simp add: keys_of_def)

lemma length_kids_of [simp]: "length (kids_of h a) = length (recs h a)"
  by (simp add: kids_of_def)

lemma level_keys_append [simp]: "level_keys h (xs @ ys) = level_keys h xs @ level_keys h ys"
  by (simp add: level_keys_def)

lemma level_kids_append [simp]: "level_kids h (xs @ ys) = level_kids h xs @ level_kids h ys"
  by (simp add: level_kids_def)

lemma level_keys_Cons [simp]: "level_keys h (a # xs) = keys_of h a @ level_keys h xs"
  by (simp add: level_keys_def)

lemma level_kids_Cons [simp]: "level_kids h (a # xs) = kids_of h a @ level_kids h xs"
  by (simp add: level_kids_def)

lemma level_keys_Nil [simp]: "level_keys h [] = []"
  by (simp add: level_keys_def)

lemma level_kids_Nil [simp]: "level_kids h [] = []"
  by (simp add: level_kids_def)

lemma length_level_kids: "length (level_kids h L) = length (level_keys h L)"
  by (induction L) auto

lemma level_recs_simps [simp]:
  "level_recs h [] = []"
  "level_recs h (a # xs) = recs h a @ level_recs h xs"
  "level_recs h (xs @ ys) = level_recs h xs @ level_recs h ys"
  by (simp_all add: level_recs_def)

lemma map_fst_level_recs: "map fst (level_recs h L) = level_keys h L"
  by (induction L) (simp_all add: keys_of_def)

lemma map_snd_level_recs: "map snd (level_recs h L) = level_kids h L"
  by (induction L) (simp_all add: kids_of_def)

lemma internal_level_keys:
  "internal_level h ov L L' \<Longrightarrow> level_keys h L = map (rep_key h ov) L'"
  unfolding internal_level_def by (metis (mono_tags, lifting) map_fst_level_recs fst_conv map_eq_conv map_map o_apply)

lemma internal_level_kids:
  "internal_level h ov L L' \<Longrightarrow> level_kids h L = map Some L'"
  unfolding internal_level_def by (metis (mono_tags, lifting) map_snd_level_recs snd_conv map_eq_conv map_map o_apply)

section \<open>Searching below a valid shape\<close>

subsection \<open>Searching a record container\<close>

lemma set_lower_bound_le: "set_lower_bound rs k \<le> length rs"
  by (simp add: set_lower_bound_def length_takeWhile_le)

lemma set_lower_bound_before: "j < set_lower_bound rs k \<Longrightarrow> fst (rs ! j) < k"
  unfolding set_lower_bound_def
  by (metis (mono_tags, lifting) nth_mem set_takeWhileD takeWhile_nth)

lemma set_lower_bound_at: "set_lower_bound rs k < length rs \<Longrightarrow> \<not> fst (rs ! set_lower_bound rs k) < k"
  unfolding set_lower_bound_def by (rule nth_length_takeWhile)

lemma set_lower_bound_lt:
  "rs \<noteq> [] \<Longrightarrow> k \<le> fst (last rs) \<Longrightarrow> set_lower_bound rs k < length rs"
proof (rule ccontr)
  assume ne: "rs \<noteq> []" and le: "k \<le> fst (last rs)" and "\<not> set_lower_bound rs k < length rs"
  then have "set_lower_bound rs k = length rs" using set_lower_bound_le [of rs k] by simp
  then have "length rs - 1 < set_lower_bound rs k" using ne by simp
  from set_lower_bound_before [OF this] have "fst (last rs) < k" using ne by (simp add: last_conv_nth)
  with le show False by simp
qed

lemma set_lower_bound_all_less:
  "\<forall>r\<in>set rs. fst r < k \<Longrightarrow> set_lower_bound rs k = length rs"
  by (simp add: set_lower_bound_def takeWhile_eq_all_conv [THEN iffD2])

lemma set_find_le: "set_find rs k \<le> length rs"
  using set_lower_bound_le [of rs k] by (simp add: set_find_def Let_def)

lemma set_find_found: "set_find rs k < length rs \<Longrightarrow> fst (rs ! set_find rs k) = k"
  using set_lower_bound_at [of rs k]
  by (auto simp: set_find_def Let_def split: if_splits)

lemma set_find_present:
  assumes "sorted_wrt (<) (map fst rs)" and "k \<in> fst ` set rs"
  shows "set_find rs k < length rs"
proof -
  from assms(2) obtain j where j: "j < length rs" "fst (rs ! j) = k"
    by (auto simp: in_set_conv_nth)
  let ?i = "set_lower_bound rs k"
  have ij: "?i \<le> j"
  proof (rule ccontr)
    assume "\<not> ?i \<le> j"
    then have "fst (rs ! j) < k" using set_lower_bound_before [of j rs k] by simp
    with j show False by simp
  qed
  then have il: "?i < length rs" using j by simp
  have "fst (rs ! ?i) \<le> fst (rs ! j)"
  proof (cases "?i = j")
    case True then show ?thesis by simp
  next
    case False
    with ij have "?i < j" by simp
    with j have "map fst rs ! ?i < map fst rs ! j"
      using sorted_wrt_nth_less [OF assms(1), of ?i j] by simp
    with il j show ?thesis by simp
  qed
  with j have "\<not> k < fst (rs ! ?i)" by simp
  with il show ?thesis by (simp add: set_find_def Let_def)
qed

lemma set_find_absent:
  "k \<notin> fst ` set rs \<Longrightarrow> set_find rs k = length rs"
  using set_find_found [of rs k] set_find_le [of rs k]
  by (metis image_eqI le_neq_implies_less nth_mem)

subsection \<open>Levels\<close>

lemma internal_level_split:
  assumes "internal_level h ov L L'" and "L = xs @ a # ys"
  shows "\<exists>X C Y. L' = X @ C @ Y
           \<and> level_kids h xs = map Some X \<and> kids_of h a = map Some C \<and> level_kids h ys = map Some Y
           \<and> level_keys h xs = map (rep_key h ov) X \<and> keys_of h a = map (rep_key h ov) C
           \<and> level_keys h ys = map (rep_key h ov) Y"
proof -
  from assms have kids: "level_kids h xs @ kids_of h a @ level_kids h ys = map Some L'"
    and keys: "level_keys h xs @ keys_of h a @ level_keys h ys = map (rep_key h ov) L'"
    using internal_level_kids [of h ov L L'] internal_level_keys [of h ov L L'] by simp_all
  from kids obtain X R where 1: "L' = X @ R" "level_kids h xs = map Some X"
    "kids_of h a @ level_kids h ys = map Some R"
    by (auto simp: append_eq_map_conv)
  from 1(3) obtain C Y where 2: "R = C @ Y" "kids_of h a = map Some C" "level_kids h ys = map Some Y"
    by (auto simp: append_eq_map_conv)
  have lx: "length (level_keys h xs) = length X"
    using 1(2) length_level_kids [of h xs] by (metis length_map)
  have lc: "length (keys_of h a) = length C"
    using 2(2) by (metis length_kids_of length_keys_of length_map)
  from keys 1(1) 2(1) have "level_keys h xs @ keys_of h a @ level_keys h ys
      = map (rep_key h ov) X @ map (rep_key h ov) C @ map (rep_key h ov) Y" by simp
  with lx lc have "level_keys h xs = map (rep_key h ov) X \<and> keys_of h a = map (rep_key h ov) C
      \<and> level_keys h ys = map (rep_key h ov) Y" by simp
  with 1 2 show ?thesis by blast
qed

lemma last_level_keys:
  "xs \<noteq> [] \<Longrightarrow> recs h (last xs) \<noteq> [] \<Longrightarrow> last (level_keys h xs) = last_key h (last xs)"
proof -
  assume ne: "xs \<noteq> []" and r: "recs h (last xs) \<noteq> []"
  have "level_keys h xs = level_keys h (butlast xs @ [last xs])" using ne by simp
  also have "\<dots> = level_keys h (butlast xs) @ keys_of h (last xs)" by simp
  finally show ?thesis using r by (simp add: keys_of_def last_key_def last_map)
qed

lemma level_keys_empty_iff:
  "\<forall>c\<in>set xs. recs h c \<noteq> [] \<Longrightarrow> level_keys h xs = [] \<longleftrightarrow> xs = []"
  by (cases xs) (auto simp: keys_of_def)

lemma sorted_le_last:
  fixes zs :: "'a::linorder list"
  assumes "sorted_wrt (<) zs" and "z \<in> set zs"
  shows "z \<le> last zs"
proof -
  from assms(2) have ne: "zs \<noteq> []" by auto
  then have "zs = butlast zs @ [last zs]" by simp
  then have "sorted_wrt (<) (butlast zs @ [last zs])" using assms(1) by simp
  then have "\<forall>x\<in>set (butlast zs). x < last zs" by (simp add: sorted_wrt_append)
  moreover have "z \<in> set (butlast zs) \<or> z = last zs"
    using assms(2) ne by (metis Un_iff append_butlast_last_id empty_iff insert_iff list.set(1) list.set(2) set_append)
  ultimately show ?thesis by auto
qed

lemma descend_step:
  assumes il: "internal_level h None L L'"
    and ne: "\<forall>c\<in>set L. recs h c \<noteq> []"
    and L: "L = xs @ a # ys"
    and lo: "xs \<noteq> [] \<longrightarrow> last_key h (last xs) < k"
    and hi: "k \<le> last_key h a"
  shows "set_lower_bound (recs h a) k < length (recs h a)
       \<and> (\<exists>c xs' ys'. snd (recs h a ! set_lower_bound (recs h a) k) = Some c \<and> L' = xs' @ c # ys'
             \<and> (xs' \<noteq> [] \<longrightarrow> last_key h (last xs') < k) \<and> k \<le> last_key h c)"
proof -
  let ?rs = "recs h a"
  let ?i = "set_lower_bound ?rs k"
  have nea: "?rs \<noteq> []" using ne L by simp
  have i: "?i < length ?rs" using set_lower_bound_lt [OF nea] hi by (simp add: last_key_def)
  from internal_level_split [OF il L] obtain X C Y where
    s: "L' = X @ C @ Y" "level_kids h xs = map Some X" "kids_of h a = map Some C"
       "level_keys h xs = map (last_key h) X" "keys_of h a = map (last_key h) C"
    by (auto simp: rep_key_def)
  have lc: "length C = length ?rs" using s(3) by (metis length_kids_of length_map)
  let ?c = "C ! ?i"
  have kid: "snd (?rs ! ?i) = Some ?c"
    using s(3) i lc by (metis kids_of_def nth_map)
  have key: "fst (?rs ! ?i) = last_key h ?c"
    using s(5) i lc by (metis keys_of_def nth_map)
  have hi': "k \<le> last_key h ?c" using set_lower_bound_at [OF i] key by simp
  have dec: "L' = (X @ take ?i C) @ ?c # (drop (Suc ?i) C @ Y)"
    using s(1) i lc by (simp add: Cons_nth_drop_Suc)
  have lo': "X @ take ?i C \<noteq> [] \<longrightarrow> last_key h (last (X @ take ?i C)) < k"
  proof (cases "?i = 0")
    case False
    then have tne: "take ?i C \<noteq> []" using i lc by auto
    have "last (take ?i C) = take ?i C ! (length (take ?i C) - 1)"
      using tne by (rule last_conv_nth)
    also have "\<dots> = C ! (?i - 1)" using i lc False by (simp add: min_def)
    finally have "last (X @ take ?i C) = C ! (?i - 1)" using tne by simp
    moreover have "fst (?rs ! (?i - 1)) = last_key h (C ! (?i - 1))"
      using s(5) i lc by (metis keys_of_def less_imp_diff_less nth_map)
    moreover have "fst (?rs ! (?i - 1)) < k"
      using False by (intro set_lower_bound_before) simp
    ultimately show ?thesis by simp
  next
    case True
    show ?thesis
    proof
      assume "X @ take ?i C \<noteq> []"
      with True have X: "X \<noteq> []" by simp
      then have "level_keys h xs \<noteq> []" using s(4) by simp
      then have xs: "xs \<noteq> []" by auto
      have "recs h (last xs) \<noteq> []" using ne L xs by simp
      from last_level_keys [OF xs this] have "last_key h (last xs) = last (map (last_key h) X)"
        using s(4) by simp
      also have "\<dots> = last_key h (last X)" using X by (simp add: last_map)
      finally show "last_key h (last (X @ take ?i C)) < k" using lo xs True by simp
    qed
  qed
  from i kid dec lo' hi' show ?thesis by blast
qed

lemma sorted_level_member:
  fixes h :: "'k::linorder heap"
  assumes s: "sorted_wrt (<) (level_keys h L)" and L: "L = xs @ a # ys"
    and ne: "\<forall>c\<in>set L. recs h c \<noteq> []"
    and lo: "xs \<noteq> [] \<longrightarrow> last_key h (last xs) < k"
    and hi: "k \<le> last_key h a"
  shows "k \<in> set (level_keys h L) \<longleftrightarrow> k \<in> set (keys_of h a)"
proof -
  have nea: "keys_of h a \<noteq> []" using ne L by (simp add: keys_of_def)
  have sx: "sorted_wrt (<) (level_keys h xs)"
    and sy: "\<forall>x\<in>set (keys_of h a). \<forall>y\<in>set (level_keys h ys). x < y"
    using s L by (auto simp: sorted_wrt_append)
  have "k \<notin> set (level_keys h xs)"
  proof
    assume k: "k \<in> set (level_keys h xs)"
    then have xs: "xs \<noteq> []" by auto
    then have "recs h (last xs) \<noteq> []" using ne L by simp
    from last_level_keys [OF xs this] lo xs have lt: "last (level_keys h xs) < k" by simp
    from sorted_le_last [OF sx k] have "k \<le> last (level_keys h xs)" .
    with lt show False by simp
  qed
  moreover have "k \<notin> set (level_keys h ys)"
  proof
    assume "k \<in> set (level_keys h ys)"
    moreover have "last (keys_of h a) \<in> set (keys_of h a)" using nea by simp
    ultimately have "last (keys_of h a) < k" using sy by blast
    then show False using hi nea by (simp add: last_key_def keys_of_def last_map)
  qed
  ultimately show ?thesis using L by auto
qed

lemma shapeD:
  assumes "shape h lv ov"
  shows "lv \<noteq> []" and "\<forall>L\<in>set lv. L \<noteq> []" and "distinct (concat lv)"
    and "m_header \<notin> set (concat lv)"
    and "\<exists>r n. hd lv = [r] \<and> h r = Some n \<and> parent n = None"
    and "\<forall>d. Suc d < length lv \<longrightarrow>
            internal_level h ov (lv ! d) (lv ! Suc d) \<and> chain h None None (lv ! d)"
    and "leaf_level h (last lv)"
    and "chain h (Some m_header) (Some m_header) (last lv)"
    and "\<exists>hn. h m_header = Some hn \<and> nxt hn = Some (hd (last lv)) \<and> pre hn = Some (last (last lv))"
    and "\<forall>L\<in>set lv. sorted_wrt (<) (level_keys h L)"
    and "\<forall>a\<in>set (concat lv). (case ov of None \<Rightarrow> True | Some (b, k) \<Rightarrow> a \<noteq> b) \<longrightarrow> recs h a \<noteq> []"
  using assms unfolding shape_def by blast+

lemma shape_internal:
  "shape h lv ov \<Longrightarrow> Suc d < length lv \<Longrightarrow> internal_level h ov (lv ! d) (lv ! Suc d)"
  using shapeD(6) by blast

lemma shape_nonempty:
  assumes "shape h lv None" and "d < length lv" and "a \<in> set (lv ! d)"
  shows "recs h a \<noteq> []"
proof -
  have "a \<in> set (concat lv)" using assms(2,3) by auto
  with shapeD(11) [OF assms(1)] show ?thesis by auto
qed

lemma shape_sorted:
  "shape h lv ov \<Longrightarrow> d < length lv \<Longrightarrow> sorted_wrt (<) (level_keys h (lv ! d))"
  using shapeD(10) by fastforce

lemma shape_leaf:
  "shape h lv ov \<Longrightarrow> a \<in> set (last lv) \<Longrightarrow>
     \<exists>n. h a = Some n \<and> is_leaf n \<and> (\<forall>r\<in>set (records n). snd r = None)"
  using shapeD(7) [of h lv ov] by (auto simp: leaf_level_def)

lemma shape_level_nonempty:
  "shape h lv ov \<Longrightarrow> d < length lv \<Longrightarrow> lv ! d \<noteq> []"
  using shapeD(2) by fastforce

lemma internal_level_node:
  "internal_level h ov L L' \<Longrightarrow> a \<in> set L \<Longrightarrow> \<exists>n. h a = Some n \<and> \<not> is_leaf n"
  by (auto simp: internal_level_def)

text \<open>The last key of every level is the last key of the root.\<close>

lemma last_level_key_root:
  assumes s: "shape h lv None" and r: "hd lv = [r]"
  shows "d < length lv \<Longrightarrow> last (level_keys h (lv ! d)) = last_key h r"
proof (induction d)
  case 0
  have l0: "lv ! 0 = [r]" using r shapeD(1) [OF s] by (simp add: hd_conv_nth)
  have "recs h r \<noteq> []" using shape_nonempty [OF s 0] l0 by simp
  then show ?case using l0 by (simp add: last_key_def keys_of_def last_map)
next
  case (Suc d)
  then have d: "d < length lv" by simp
  let ?L = "lv ! d" and ?L' = "lv ! Suc d"
  from shape_internal [OF s Suc.prems] have il: "internal_level h None ?L ?L'" .
  then have keys: "level_keys h ?L = map (last_key h) ?L'"
    using internal_level_keys [of h None ?L ?L'] by (simp add: rep_key_def)
  have ne': "?L' \<noteq> []" using shape_level_nonempty [OF s Suc.prems] .
  have "recs h (last ?L') \<noteq> []" using shape_nonempty [OF s Suc.prems] ne' by simp
  from last_level_keys [OF ne' this]
  have "last (level_keys h ?L') = last_key h (last ?L')" .
  also have "\<dots> = last (map (last_key h) ?L')" using ne' by (simp add: last_map)
  also have "\<dots> = last (level_keys h ?L)" using keys by simp
  finally show ?case using Suc.IH [OF d] by simp
qed

lemma find_loop_descend:
  assumes s: "shape h lv None"
  shows "d < length lv \<Longrightarrow> lv ! d = xs @ a # ys
      \<Longrightarrow> (xs \<noteq> [] \<longrightarrow> last_key h (last xs) < k) \<Longrightarrow> k \<le> last_key h a
      \<Longrightarrow> (if k \<in> set (level_keys h (last lv))
           then \<exists>b i. find_loop h k (Some a) = Some (make_iterator_uncheck b i) \<and> b \<in> set (last lv)
                      \<and> i < length (recs h b) \<and> fst (recs h b ! i) = k
           else find_loop h k (Some a) = Some end_iterator)"
proof (induction "length lv - d" arbitrary: d xs a ys)
  case 0
  then show ?case by simp
next
  case (Suc z)
  have ain: "a \<in> set (lv ! d)" using Suc.prems(2) by simp
  have ne: "\<forall>c\<in>set (lv ! d). recs h c \<noteq> []" using shape_nonempty [OF s Suc.prems(1)] by blast
  show ?case
  proof (cases "Suc d = length lv")
    case True
    then have L: "lv ! d = last lv" using Suc.prems(1) by (metis diff_Suc_1 last_conv_nth length_0_conv not_less_zero)
    from shape_leaf [OF s, of a] ain L obtain n where n: "h a = Some n" "is_leaf n" by auto
    have sorted: "sorted_wrt (<) (level_keys h (lv ! d))" using shape_sorted [OF s Suc.prems(1)] .
    from sorted_level_member [OF sorted Suc.prems(2) ne Suc.prems(3) Suc.prems(4)]
    have mem: "k \<in> set (level_keys h (last lv)) \<longleftrightarrow> k \<in> set (keys_of h a)" using L by simp
    have sa: "sorted_wrt (<) (map fst (records n))"
      using sorted Suc.prems(2) n by (simp add: sorted_wrt_append keys_of_def)
    show ?thesis
    proof (cases "k \<in> set (keys_of h a)")
      case True
      then have "k \<in> fst ` set (records n)" using n by (simp add: keys_of_def)
      from set_find_present [OF sa this] have f: "set_find (records n) k < length (records n)" .
      from set_find_found [OF f] have fk: "fst (records n ! set_find (records n) k) = k" .
      have "find_loop h k (Some a) = Some (make_iterator_uncheck a (set_find (records n) k))"
        using f n by (subst find_loop.simps) (simp add: Let_def)
      moreover have "a \<in> set (last lv)" using ain L by simp
      moreover have "set_find (records n) k < length (recs h a)" using f n by simp
      moreover have "fst (recs h a ! set_find (records n) k) = k" using fk n by simp
      ultimately show ?thesis using True mem by auto
    next
      case False
      then have "k \<notin> fst ` set (records n)" using n by (simp add: keys_of_def)
      from set_find_absent [OF this] n False mem show ?thesis
        by (subst find_loop.simps) (auto simp: Let_def)
    qed
  next
    case False
    then have Sd: "Suc d < length lv" using Suc.prems(1) by simp
    from shape_internal [OF s Sd] have il: "internal_level h None (lv ! d) (lv ! Suc d)" .
    from internal_level_node [OF il ain] obtain n where n: "h a = Some n" "\<not> is_leaf n" by auto
    from descend_step [OF il ne Suc.prems(2) Suc.prems(3) Suc.prems(4)]
    obtain c xs' ys' where i: "set_lower_bound (recs h a) k < length (recs h a)"
      and c: "snd (recs h a ! set_lower_bound (recs h a) k) = Some c" "lv ! Suc d = xs' @ c # ys'"
        "xs' \<noteq> [] \<longrightarrow> last_key h (last xs') < k" "k \<le> last_key h c"
      by blast
    have "z = length lv - Suc d" using Suc.hyps(2) by simp
    from Suc.hyps(1) [OF this Sd c(2) c(3) c(4)]
    have IH: "if k \<in> set (level_keys h (last lv))
           then \<exists>b i. find_loop h k (Some c) = Some (make_iterator_uncheck b i) \<and> b \<in> set (last lv)
                      \<and> i < length (recs h b) \<and> fst (recs h b ! i) = k
           else find_loop h k (Some c) = Some end_iterator" .
    have step: "find_loop h k (Some a) = find_loop h k (Some c)"
      using n i c(1) by (subst find_loop.simps) (simp add: Let_def)
    show ?thesis using IH unfolding step .
  qed
qed

lemma find_loop_shape:
  assumes s: "shape h lv None" and r: "hd lv = [r]"
  shows "if k \<in> set (level_keys h (last lv))
         then \<exists>b i. find_loop h k (Some r) = Some (make_iterator_uncheck b i) \<and> b \<in> set (last lv)
                    \<and> i < length (recs h b) \<and> fst (recs h b ! i) = k
         else find_loop h k (Some r) = Some end_iterator"
proof (cases "k \<le> last_key h r")
  case True
  have lv: "lv \<noteq> []" using shapeD(1) [OF s] .
  then have "lv ! 0 = [] @ r # []" using r by (simp add: hd_conv_nth)
  from find_loop_descend [OF s _ this _ True] lv show ?thesis by simp
next
  case False
  have lv: "lv \<noteq> []" using shapeD(1) [OF s] .
  have l0: "lv ! 0 = [r]" using r lv by (simp add: hd_conv_nth)
  have d: "length lv - 1 < length lv" using lv by simp
  have notin: "k \<notin> set (level_keys h (last lv))"
  proof
    assume "k \<in> set (level_keys h (last lv))"
    then have "k \<in> set (level_keys h (lv ! (length lv - 1)))" using lv by (simp add: last_conv_nth)
    from sorted_le_last [OF shape_sorted [OF s d] this] last_level_key_root [OF s r d]
    show False using False by simp
  qed
  have ner: "recs h r \<noteq> []" using shape_nonempty [OF s, of 0 r] lv l0 by simp
  have sr: "sorted_wrt (<) (map fst (recs h r))"
    using shape_sorted [OF s, of 0] lv l0 by (simp add: keys_of_def)
  have all: "\<forall>x\<in>set (recs h r). fst x < k"
  proof
    fix x assume "x \<in> set (recs h r)"
    then have "fst x \<in> set (map fst (recs h r))" by simp
    from sorted_le_last [OF sr this] have "fst x \<le> last_key h r"
      using ner by (simp add: last_key_def last_map)
    with False show "fst x < k" by simp
  qed
  then have lb: "set_lower_bound (recs h r) k = length (recs h r)"
    by (rule set_lower_bound_all_less)
  have "k \<notin> fst ` set (recs h r)" using all by auto
  from set_find_absent [OF this] have sf: "set_find (recs h r) k = length (recs h r)" .
  from shapeD(5) [OF s] r obtain n where n: "h r = Some n" by auto
  have "find_loop h k (Some r) = Some end_iterator"
    using n lb sf by (subst find_loop.simps) (simp add: Let_def)
  with notin show ?thesis by simp
qed

section \<open>Insertion keeps the shape\<close>

subsection \<open>Frame rules\<close>

lemma level_recs_cong:
  "\<forall>a\<in>set L. recs h' a = recs h a \<Longrightarrow> level_recs h' L = level_recs h L"
  by (induction L) auto

lemma level_keys_cong:
  "\<forall>a\<in>set L. recs h' a = recs h a \<Longrightarrow> level_keys h' L = level_keys h L"
  by (induction L) (auto simp: keys_of_def)

lemma last_key_cong: "recs h' a = recs h a \<Longrightarrow> last_key h' a = last_key h a"
  by (simp add: last_key_def)

lemma view_cong:
  "map_option f (h' a) = map_option f (h a)
   \<Longrightarrow> (\<exists>n. h' a = Some n \<and> P (f n)) = (\<exists>n. h a = Some n \<and> P (f n))"
  by (cases "h a"; cases "h' a") auto

lemma chain_cong:
  "\<forall>a\<in>set L. map_option (\<lambda>n. (pre n, nxt n)) (h' a) = map_option (\<lambda>n. (pre n, nxt n)) (h a)
   \<Longrightarrow> chain h' l r L = chain h l r L"
proof (induction L arbitrary: l)
  case Nil
  then show ?case by simp
next
  case (Cons a L)
  then have "map_option (\<lambda>n. (pre n, nxt n)) (h' a) = map_option (\<lambda>n. (pre n, nxt n)) (h a)"
    and IH: "\<And>l. chain h' l r L = chain h l r L" by auto
  then show ?case by (cases "h a"; cases "h' a") auto
qed

lemma leaf_level_cong:
  assumes "\<forall>a\<in>set L. map_option (\<lambda>n. (is_leaf n, records n)) (h' a)
                      = map_option (\<lambda>n. (is_leaf n, records n)) (h a)"
  shows "leaf_level h' L = leaf_level h L"
proof -
  have "(\<exists>n. h' a = Some n \<and> is_leaf n \<and> (\<forall>r\<in>set (records n). snd r = None))
      = (\<exists>n. h a = Some n \<and> is_leaf n \<and> (\<forall>r\<in>set (records n). snd r = None))"
    if "a \<in> set L" for a
    using view_cong [of "\<lambda>n. (is_leaf n, records n)" h' a h "\<lambda>p. fst p \<and> (\<forall>r\<in>set (snd p). snd r = None)"]
      assms that by simp
  then show ?thesis unfolding leaf_level_def by simp
qed

lemma recs_cong:
  "map_option (\<lambda>n. (is_leaf n, records n)) (h' a) = map_option (\<lambda>n. (is_leaf n, records n)) (h a)
   \<Longrightarrow> recs h' a = recs h a"
  by (cases "h a"; cases "h' a") (auto simp: recs_def)

lemma internal_level_cong:
  assumes L: "\<forall>a\<in>set L. map_option (\<lambda>n. (is_leaf n, records n)) (h' a)
                         = map_option (\<lambda>n. (is_leaf n, records n)) (h a)"
    and L': "\<forall>c\<in>set L'. rep_key h' ov' c = rep_key h ov c
                         \<and> map_option parent (h' c) = map_option parent (h c)"
  shows "internal_level h' ov' L L' = internal_level h ov L L'"
proof -
  have r: "\<forall>a\<in>set L. recs h' a = recs h a" using L recs_cong by blast
  then have lr: "level_recs h' L = level_recs h L" by (rule level_recs_cong)
  have m: "map (\<lambda>c. (rep_key h' ov' c, Some c)) L' = map (\<lambda>c. (rep_key h ov c, Some c)) L'"
    using L' by simp
  have i: "(\<exists>n. h' a = Some n \<and> \<not> is_leaf n) = (\<exists>n. h a = Some n \<and> \<not> is_leaf n)"
    if "a \<in> set L" for a
    using view_cong [of "\<lambda>n. (is_leaf n, records n)" h' a h "\<lambda>p. \<not> fst p"] L that by simp
  have p: "(\<forall>a\<in>set L. \<forall>c. Some c \<in> set (kids_of h' a) \<longrightarrow> (\<exists>n. h' c = Some n \<and> parent n = Some a))
         = (\<forall>a\<in>set L. \<forall>c. Some c \<in> set (kids_of h a) \<longrightarrow> (\<exists>n. h c = Some n \<and> parent n = Some a))"
    if al: "level_recs h L = map (\<lambda>c. (rep_key h ov c, Some c)) L'"
  proof -
    have in': "c \<in> set L'" if "a \<in> set L" "Some c \<in> set (kids_of h a)" for a c
    proof -
      from that have "Some c \<in> snd ` set (level_recs h L)"
        by (auto simp: level_recs_def kids_of_def)
      then show ?thesis unfolding al by auto
    qed
    have k: "kids_of h' a = kids_of h a" if "a \<in> set L" for a
      using r that by (simp add: kids_of_def)
    have q: "(\<exists>n. h' c = Some n \<and> parent n = Some a) = (\<exists>n. h c = Some n \<and> parent n = Some a)"
      if "c \<in> set L'" for c a
      using view_cong [of parent h' c h "\<lambda>p. p = Some a"] L' that by simp
    show ?thesis
    proof (intro ball_cong refl all_cong1 imp_cong)
      fix a c assume "a \<in> set L"
      then show "(Some c \<in> set (kids_of h' a)) = (Some c \<in> set (kids_of h a))" using k by simp
    next
      fix a c assume "a \<in> set L" "Some c \<in> set (kids_of h a)"
      then show "(\<exists>n. h' c = Some n \<and> parent n = Some a) = (\<exists>n. h c = Some n \<and> parent n = Some a)"
        using in' q by blast
    qed
  qed
  show ?thesis unfolding internal_level_def lr m using i p by auto
qed

subsection \<open>Levels are disjoint\<close>

lemma levels_disjoint:
  assumes "distinct (concat lv)" and "d < length lv" and "e < length lv" and "d \<noteq> e"
    and "a \<in> set (lv ! d)"
  shows "a \<notin> set (lv ! e)"
proof -
  have *: "set (lv ! i) \<inter> set (lv ! j) = {}" if "i < j" "j < length lv" for i j
  proof -
    have "lv = take j lv @ lv ! j # drop (Suc j) lv" using that by (simp add: id_take_nth_drop)
    then have "distinct (concat (take j lv @ lv ! j # drop (Suc j) lv))" using assms(1) by simp
    then have "set (concat (take j lv)) \<inter> set (lv ! j) = {}" by auto
    moreover have "lv ! i \<in> set (take j lv)" using that by (metis in_set_conv_nth length_take min_less_iff_conj nth_take order_less_trans)
    ultimately show ?thesis by auto
  qed
  from assms(4) consider "d < e" | "e < d" by linarith
  then show ?thesis using * [of d e] * [of e d] assms(2,3,5) by cases auto
qed

lemma level_distinct:
  "distinct (concat lv) \<Longrightarrow> d < length lv \<Longrightarrow> distinct (lv ! d)"
  by (metis distinct_concat_iff nth_mem)

lemma in_concat_level: "d < length lv \<Longrightarrow> a \<in> set (lv ! d) \<Longrightarrow> a \<in> set (concat lv)"
  by auto

lemma nth_last: "Suc d = length lv \<Longrightarrow> lv ! d = last lv"
proof -
  assume a: "Suc d = length lv"
  then have "lv \<noteq> []" by auto
  moreover have "d = length lv - 1" using a by simp
  ultimately show ?thesis by (simp add: last_conv_nth)
qed

lemma shape_node:
  assumes "shape h lv ov" and "d < length lv" and "a \<in> set (lv ! d)"
  shows "\<exists>n. h a = Some n \<and> is_leaf n = (Suc d = length lv)"
proof (cases "Suc d = length lv")
  case True
  then have "lv ! d = last lv" by (rule nth_last)
  with shape_leaf [OF assms(1), of a] assms(3) True show ?thesis by auto
next
  case False
  then have "Suc d < length lv" using assms(2) by simp
  from internal_level_node [OF shape_internal [OF assms(1) this] assms(3)] False show ?thesis by auto
qed

lemma shape_header_notin:
  "shape h lv ov \<Longrightarrow> d < length lv \<Longrightarrow> a \<in> set (lv ! d) \<Longrightarrow> a \<noteq> m_header"
  using shapeD(4) in_concat_level by metis

subsection \<open>The descent of insert\<close>

lemma insert_descend_in_range:
  assumes s: "shape h lv None"
  shows "d < length lv \<Longrightarrow> lv ! d = xs @ a # ys
      \<Longrightarrow> (xs \<noteq> [] \<longrightarrow> last_key h (last xs) < k) \<Longrightarrow> k \<le> last_key h a
      \<Longrightarrow> \<exists>cur xs' ys'. insert_descend k (Some a) h = Some (cur, h) \<and> last lv = xs' @ cur # ys'
            \<and> (xs' \<noteq> [] \<longrightarrow> last_key h (last xs') < k) \<and> k \<le> last_key h cur"
proof (induction "length lv - d" arbitrary: d xs a ys)
  case 0
  then show ?case by simp
next
  case (Suc z)
  have ain: "a \<in> set (lv ! d)" using Suc.prems(2) by simp
  from shape_node [OF s Suc.prems(1) ain] obtain n where n: "h a = Some n" "is_leaf n = (Suc d = length lv)"
    by auto
  show ?case
  proof (cases "Suc d = length lv")
    case True
    then have L: "lv ! d = last lv" by (rule nth_last)
    have "insert_descend k (Some a) h = Some (a, h)"
      using n True by (subst insert_descend.simps) simp
    moreover have "last lv = xs @ a # ys" using L Suc.prems(2) by simp
    ultimately show ?thesis using Suc.prems(3,4) by blast
  next
    case False
    then have Sd: "Suc d < length lv" using Suc.prems(1) by simp
    have ne: "\<forall>c\<in>set (lv ! d). recs h c \<noteq> []" using shape_nonempty [OF s Suc.prems(1)] by blast
    from shape_internal [OF s Sd] have il: "internal_level h None (lv ! d) (lv ! Suc d)" .
    from descend_step [OF il ne Suc.prems(2) Suc.prems(3) Suc.prems(4)]
    obtain c xs' ys' where i: "set_lower_bound (recs h a) k < length (recs h a)"
      and c: "snd (recs h a ! set_lower_bound (recs h a) k) = Some c" "lv ! Suc d = xs' @ c # ys'"
        "xs' \<noteq> [] \<longrightarrow> last_key h (last xs') < k" "k \<le> last_key h c"
      by blast
    have "z = length lv - Suc d" using Suc.hyps(2) by simp
    note IH = Suc.hyps(1) [OF this Sd c(2) c(3) c(4)]
    have step: "insert_descend k (Some a) h = insert_descend k (Some c) h"
      using n False i c(1) by (subst insert_descend.simps) (simp add: Let_def)
    show ?thesis using IH unfolding step .
  qed
qed

lemma shapeI:
  assumes "lv \<noteq> []" and "\<forall>L\<in>set lv. L \<noteq> []" and "distinct (concat lv)"
    and "m_header \<notin> set (concat lv)"
    and "\<exists>r n. hd lv = [r] \<and> h r = Some n \<and> parent n = None"
    and "\<And>d. Suc d < length lv \<Longrightarrow> internal_level h ov (lv ! d) (lv ! Suc d)"
    and "\<And>d. Suc d < length lv \<Longrightarrow> chain h None None (lv ! d)"
    and "leaf_level h (last lv)"
    and "chain h (Some m_header) (Some m_header) (last lv)"
    and "\<exists>hn. h m_header = Some hn \<and> nxt hn = Some (hd (last lv)) \<and> pre hn = Some (last (last lv))"
    and "\<And>d. d < length lv \<Longrightarrow> sorted_wrt (<) (level_keys h (lv ! d))"
    and "\<And>d a. d < length lv \<Longrightarrow> a \<in> set (lv ! d) \<Longrightarrow>
           (case ov of None \<Rightarrow> True | Some (b, k) \<Rightarrow> a \<noteq> b) \<Longrightarrow> recs h a \<noteq> []"
  shows "shape h lv ov"
proof -
  have s: "\<forall>L\<in>set lv. sorted_wrt (<) (level_keys h L)"
    using assms(11) by (metis in_set_conv_nth)
  have n: "\<forall>a\<in>set (concat lv). (case ov of None \<Rightarrow> True | Some (b, k) \<Rightarrow> a \<noteq> b) \<longrightarrow> recs h a \<noteq> []"
  proof
    fix a assume "a \<in> set (concat lv)"
    then obtain L where "L \<in> set lv" "a \<in> set L" by auto
    then obtain d where "d < length lv" "a \<in> set (lv ! d)" by (metis in_set_conv_nth)
    then show "(case ov of None \<Rightarrow> True | Some (b, k) \<Rightarrow> a \<noteq> b) \<longrightarrow> recs h a \<noteq> []"
      using assms(12) by blast
  qed
  show ?thesis unfolding shape_def using assms(1-10) s n by blast
qed

lemma shape_chain:
  "shape h lv ov \<Longrightarrow> Suc d < length lv \<Longrightarrow> chain h None None (lv ! d)"
  using shapeD(6) by blast

lemma shape_nonempty_ov:
  assumes "shape h lv (Some (b, k))" and "d < length lv" and "a \<in> set (lv ! d)" and "a \<noteq> b"
  shows "recs h a \<noteq> []"
proof -
  have "a \<in> set (concat lv)" using assms(2,3) by auto
  with shapeD(11) [OF assms(1)] assms(4) show ?thesis by auto
qed

lemma level_recs_snoc: "level_recs h (xs @ [a]) = level_recs h xs @ recs h a"
  by simp

lemma level_keys_snoc: "level_keys h (xs @ [a]) = level_keys h xs @ keys_of h a"
  by simp

lemma set_key_last:
  "rs \<noteq> [] \<Longrightarrow> set_key rs (length rs - 1) k = butlast rs @ [(k, snd (last rs))]"
proof (induction rs rule: rev_induct)
  case Nil
  then show ?case by simp
next
  case (snoc x xs)
  then show ?case by (simp add: set_key_def)
qed

lemma butlast_snoc_id: "L \<noteq> [] \<Longrightarrow> L = butlast L @ [last L]"
  by simp

lemma distinct_last_notin_butlast: "distinct L \<Longrightarrow> L \<noteq> [] \<Longrightarrow> last L \<notin> set (butlast L)"
proof -
  assume d: "distinct L" and ne: "L \<noteq> []"
  then have "distinct (butlast L @ [last L])" by simp
  then show ?thesis by simp
qed

lemma concat_snoc_eq_map:
  assumes "xs @ [y] = map g L"
  shows "L \<noteq> [] \<and> g (last L) = y \<and> map g (butlast L) = xs"
proof -
  from assms have ne: "L \<noteq> []" by auto
  then have "map g L = map g (butlast L @ [last L])" by simp
  then have "map g L = map g (butlast L) @ [g (last L)]" by simp
  with assms show ?thesis using ne by simp
qed

lemma sorted_wrt_snoc_replace:
  fixes xs :: "'a::linorder list"
  assumes "sorted_wrt (<) (xs @ [x])" and "x < y"
  shows "sorted_wrt (<) (xs @ [y])"
  using assms by (auto simp: sorted_wrt_append)

text \<open>
  One round of the descent of a key above every key of the tree: the last router of
  the last node of a level is overwritten.
\<close>

lemma overwrite_last_shape:
  fixes h :: "'k::linorder heap"
  assumes s: "shape h lv (Some (a, k))" and d: "Suc d < length lv" and a: "a = last (lv ! d)"
    and n: "h a = Some n" and ne: "records n \<noteq> []" and lt: "last_key h a < k"
  defines "c \<equiv> last (lv ! Suc d)"
  defines "h1 \<equiv> h(a \<mapsto> n\<lparr>records := set_key (records n) (length (records n) - 1) k\<rparr>)"
  shows "snd (records n ! (length (records n) - 1)) = Some c"
    and "shape h1 lv (Some (c, k))"
    and "recs h1 c \<noteq> []" and "last_key h1 c < k"
proof -
  let ?L = "lv ! d" and ?L' = "lv ! Suc d"
  let ?rs = "records n"
  have dl: "d < length lv" using d by simp
  have dist: "distinct (concat lv)" using shapeD(3) [OF s] .
  have Lne: "?L \<noteq> []" using shape_level_nonempty [OF s dl] .
  have ain: "a \<in> set ?L" using a Lne by simp
  have L: "?L = butlast ?L @ [a]" using a Lne by simp
  have anb: "a \<notin> set (butlast ?L)"
    using distinct_last_notin_butlast [OF level_distinct [OF dist dl] Lne] a by simp
  have il: "internal_level h (Some (a, k)) ?L ?L'" using shape_internal [OF s d] .
  have anL': "a \<notin> set ?L'" using levels_disjoint [OF dist dl d _ ain] by simp
  have rsplit: "?rs = butlast ?rs @ [last ?rs]" using ne by simp
  have al: "level_recs h ?L = map (\<lambda>x. (rep_key h (Some (a, k)) x, Some x)) ?L'"
    using il by (simp add: internal_level_def)
  have "level_recs h ?L = level_recs h (butlast ?L @ [a])" using L by simp
  then have "level_recs h ?L = level_recs h (butlast ?L) @ ?rs"
    using n by (simp only: level_recs_snoc recs_Some)
  then have "level_recs h ?L = level_recs h (butlast ?L) @ butlast ?rs @ [last ?rs]"
    using ne by simp
  then have "(level_recs h (butlast ?L) @ butlast ?rs) @ [last ?rs]
      = map (\<lambda>x. (rep_key h (Some (a, k)) x, Some x)) ?L'"
    using al by simp
  from concat_snoc_eq_map [OF this]
  have L'ne: "?L' \<noteq> []" and lastr: "last ?rs = (rep_key h (Some (a, k)) c, Some c)"
    and front: "map (\<lambda>x. (rep_key h (Some (a, k)) x, Some x)) (butlast ?L')
                 = level_recs h (butlast ?L) @ butlast ?rs"
    by (simp_all add: c_def)
  have cin: "c \<in> set ?L'" using L'ne by (simp add: c_def)
  have cna: "c \<noteq> a" using cin anL' by auto
  have lastr': "last ?rs = (last_key h c, Some c)" using lastr cna by (simp add: rep_key_def)
  show kid: "snd (?rs ! (length ?rs - 1)) = Some c"
    using lastr' ne by (simp add: last_conv_nth)
  have rs1: "recs h1 a = butlast ?rs @ [(k, Some c)]"
    using set_key_last [OF ne, of k] lastr' by (simp add: h1_def)
  have same: "h1 x = h x" if "x \<noteq> a" for x using that by (simp add: h1_def)
  have recs_same: "recs h1 x = recs h x" if "x \<noteq> a" for x using that by (simp add: recs_def h1_def)
  have same': "\<forall>x. x \<noteq> a \<longrightarrow> h1 x = h x" using same by blast
  have recs_same': "\<forall>x. x \<noteq> a \<longrightarrow> recs h1 x = recs h x" using recs_same by blast
  have lk_c: "last_key h c = last_key h a"
    using lastr' n ne by (simp add: last_key_def)
  show "recs h1 c \<noteq> []"
    using recs_same [OF cna] shape_nonempty_ov [OF s d cin cna] by simp
  show "last_key h1 c < k"
    using recs_same [OF cna] lk_c lt by (simp add: last_key_def)
  have cnb: "c \<notin> set (butlast ?L')"
    using distinct_last_notin_butlast [OF level_distinct [OF dist d] L'ne] by (simp add: c_def)
  show "shape h1 lv (Some (c, k))"
  proof (rule shapeI)
    show "lv \<noteq> []" "\<forall>L\<in>set lv. L \<noteq> []" "distinct (concat lv)" "m_header \<notin> set (concat lv)"
      using shapeD(1-4) [OF s] by auto
    from shapeD(5) [OF s] obtain r rn where r: "hd lv = [r]" "h r = Some rn" "parent rn = None" by auto
    show "\<exists>r n. hd lv = [r] \<and> h1 r = Some n \<and> parent n = None"
    proof (cases "r = a")
      case True
      then show ?thesis using r n by (auto simp: h1_def)
    next
      case False
      then show ?thesis using r same by auto
    qed
    show "leaf_level h1 (last lv)"
    proof -
      have "a \<notin> set (last lv)"
        using levels_disjoint [OF dist dl _ _ ain, of "length lv - 1"] d
        by (simp add: last_conv_nth shapeD(1) [OF s])
      then have "\<forall>x\<in>set (last lv). h1 x = h x" using same' by metis
      then show ?thesis using leaf_level_cong [of "last lv" h1 h] shapeD(7) [OF s] by simp
    qed
    have links: "map_option (\<lambda>n. (pre n, nxt n)) (h1 x) = map_option (\<lambda>n. (pre n, nxt n)) (h x)" for x
      using n by (simp add: h1_def)
    show "chain h1 (Some m_header) (Some m_header) (last lv)"
      using chain_cong [of "last lv" h1 h] links shapeD(8) [OF s] by simp
    show "\<And>e. Suc e < length lv \<Longrightarrow> chain h1 None None (lv ! e)"
      using chain_cong [of _ h1 h] links shape_chain [OF s] by simp
    have "a \<noteq> m_header" using shape_header_notin [OF s dl ain] .
    then show "\<exists>hn. h1 m_header = Some hn \<and> nxt hn = Some (hd (last lv)) \<and> pre hn = Some (last (last lv))"
      using shapeD(9) [OF s] by (simp add: h1_def)
    show "recs h1 x \<noteq> []" if "e < length lv" "x \<in> set (lv ! e)"
      "case Some (c, k) of None \<Rightarrow> True | Some (b, k) \<Rightarrow> x \<noteq> b" for e x
    proof (cases "x = a")
      case True
      then show ?thesis using rs1 by simp
    next
      case False
      then show ?thesis using recs_same shape_nonempty_ov [OF s that(1,2)] by simp
    qed
    show "sorted_wrt (<) (level_keys h1 (lv ! e))" if e: "e < length lv" for e
    proof (cases "e = d")
      case False
      then have "a \<notin> set (lv ! e)" using levels_disjoint [OF dist dl e _ ain] by simp
      then have "\<forall>x\<in>set (lv ! e). recs h1 x = recs h x" using recs_same' by metis
      from level_keys_cong [OF this] shape_sorted [OF s e] show ?thesis by simp
    next
      case True
      have "level_keys h ?L = level_keys h (butlast ?L @ [a])" using L by simp
      then have "level_keys h ?L = level_keys h (butlast ?L) @ map fst ?rs"
        using n by (simp only: level_keys_snoc keys_of_def recs_Some)
      then have "level_keys h ?L = level_keys h (butlast ?L) @ map fst (butlast ?rs @ [last ?rs])"
        using ne by simp
      then have k0: "level_keys h ?L = (level_keys h (butlast ?L) @ map fst (butlast ?rs)) @ [last_key h a]"
        using n by (simp add: last_key_def)
      have "level_keys h1 ?L = level_keys h1 (butlast ?L @ [a])" using L by simp
      then have "level_keys h1 ?L = level_keys h1 (butlast ?L) @ map fst (butlast ?rs @ [(k, Some c)])"
        using rs1 by (simp only: level_keys_snoc keys_of_def)
      moreover have "level_keys h1 (butlast ?L) = level_keys h (butlast ?L)"
        using anb recs_same' by (intro level_keys_cong) metis
      ultimately have k1: "level_keys h1 ?L = (level_keys h (butlast ?L) @ map fst (butlast ?rs)) @ [k]"
        by simp
      have "sorted_wrt (<) ((level_keys h (butlast ?L) @ map fst (butlast ?rs)) @ [last_key h a])"
        using shape_sorted [OF s dl] k0 by simp
      from sorted_wrt_snoc_replace [OF this lt] show ?thesis using k1 True by simp
    qed
    show "internal_level h1 (Some (c, k)) (lv ! e) (lv ! Suc e)" if e: "Suc e < length lv" for e
    proof (cases "e = d")
      case False
      have el: "e < length lv" using e by simp
      have "a \<notin> set (lv ! e)" using levels_disjoint [OF dist dl el _ ain] False by simp
      then have 1: "\<forall>x\<in>set (lv ! e). map_option (\<lambda>n. (is_leaf n, records n)) (h1 x)
                         = map_option (\<lambda>n. (is_leaf n, records n)) (h x)"
        using same' by metis
      have 2: "rep_key h1 (Some (c, k)) x = rep_key h (Some (a, k)) x
               \<and> map_option parent (h1 x) = map_option parent (h x)" if x: "x \<in> set (lv ! Suc e)" for x
      proof -
        have xc: "x \<noteq> c" using levels_disjoint [OF dist d e _ cin] False x by auto
        have p: "map_option parent (h1 x) = map_option parent (h x)" using n by (simp add: h1_def)
        show ?thesis
        proof (cases "x = a")
          case True
          then show ?thesis using p rs1 cna by (simp add: rep_key_def last_key_def)
        next
          case False
          then show ?thesis using p xc recs_same by (simp add: rep_key_def last_key_def)
        qed
      qed
      from internal_level_cong [of "lv ! e" h1 h "lv ! Suc e" "Some (c, k)" "Some (a, k)"] 1 2
        shape_internal [OF s e] show ?thesis by blast
    next
      case True
      have i1: "\<forall>x\<in>set ?L. \<exists>m. h1 x = Some m \<and> \<not> is_leaf m"
      proof
        fix x assume x: "x \<in> set ?L"
        from internal_level_node [OF il x] obtain m where m: "h x = Some m" "\<not> is_leaf m" by auto
        show "\<exists>m. h1 x = Some m \<and> \<not> is_leaf m"
          using m n by (cases "x = a") (auto simp: h1_def)
      qed
      have "level_recs h1 ?L = level_recs h1 (butlast ?L @ [a])" using L by simp
      then have "level_recs h1 ?L = level_recs h1 (butlast ?L) @ recs h1 a"
        by (simp only: level_recs_snoc)
      also have "level_recs h1 (butlast ?L) = level_recs h (butlast ?L)"
        using anb recs_same' by (intro level_recs_cong) metis
      finally have lhs: "level_recs h1 ?L = (level_recs h (butlast ?L) @ butlast ?rs) @ [(k, Some c)]"
        using rs1 by simp
      let ?g1 = "\<lambda>x. (rep_key h1 (Some (c, k)) x, Some x)"
      let ?g = "\<lambda>x. (rep_key h (Some (a, k)) x, Some x)"
      have m1: "map ?g1 (butlast ?L') = map ?g (butlast ?L')"
      proof (rule map_cong [OF refl])
        fix x assume x: "x \<in> set (butlast ?L')"
        then have "x \<in> set ?L'" by (rule in_set_butlastD)
        then have "x \<noteq> a" using anL' by auto
        moreover have "x \<noteq> c" using x cnb by auto
        ultimately show "?g1 x = ?g x"
          using recs_same by (simp add: rep_key_def last_key_def)
      qed
      have "map ?g1 (butlast ?L' @ [last ?L']) = map ?g1 (butlast ?L') @ [?g1 c]"
        by (simp add: c_def)
      moreover have "butlast ?L' @ [last ?L'] = ?L'" using L'ne by simp
      ultimately have m2: "map ?g1 ?L' = map ?g1 (butlast ?L') @ [?g1 c]" by simp
      have m3: "?g1 c = (k, Some c)" by (simp add: rep_key_def)
      have "map ?g1 ?L' = (level_recs h (butlast ?L) @ butlast ?rs) @ [(k, Some c)]"
        unfolding m2 m1 m3 front by simp
      with lhs have i2: "level_recs h1 ?L = map (\<lambda>x. (rep_key h1 (Some (c, k)) x, Some x)) ?L'" by simp
      have i3: "\<forall>x\<in>set ?L. \<forall>y. Some y \<in> set (kids_of h1 x) \<longrightarrow> (\<exists>m. h1 y = Some m \<and> parent m = Some x)"
      proof (intro ballI allI impI)
        fix x y assume x: "x \<in> set ?L" and y: "Some y \<in> set (kids_of h1 x)"
        have "kids_of h1 x = kids_of h x"
        proof (cases "x = a")
          case True
          have "map snd (butlast ?rs @ [(k, Some c)]) = map snd (butlast ?rs @ [last ?rs])"
            using lastr' by simp
          then show ?thesis using True rs1 n rsplit by (simp add: kids_of_def)
        next
          case False
          then show ?thesis using recs_same by (simp add: kids_of_def)
        qed
        with y have "Some y \<in> set (kids_of h x)" by simp
        with il x obtain m where m: "h y = Some m" "parent m = Some x"
          unfolding internal_level_def by blast
        show "\<exists>m. h1 y = Some m \<and> parent m = Some x"
          using m n by (cases "y = a") (auto simp: h1_def)
      qed
      show ?thesis unfolding True internal_level_def using i1 i2 i3 by blast
    qed
  qed
qed

lemma node_keys_sorted:
  assumes "shape h lv ov" and "d < length lv" and "a \<in> set (lv ! d)"
  shows "sorted_wrt (<) (map fst (recs h a))"
proof -
  from assms(3) obtain xs ys where "lv ! d = xs @ a # ys" by (meson split_list)
  then have "level_keys h (lv ! d) = level_keys h xs @ keys_of h a @ level_keys h ys" by simp
  with shape_sorted [OF assms(1,2)] show ?thesis by (simp add: sorted_wrt_append keys_of_def)
qed

lemma all_keys_less:
  fixes rs :: "('k::linorder \<times> 'c) list"
  assumes "sorted_wrt (<) (map fst rs)" and "rs \<noteq> []" and "fst (last rs) < k"
  shows "\<forall>r\<in>set rs. fst r < k"
proof
  fix r assume "r \<in> set rs"
  then have "fst r \<in> set (map fst rs)" by simp
  from sorted_le_last [OF assms(1) this] have "fst r \<le> fst (last rs)"
    using assms(2) by (simp add: last_map)
  with assms(3) show "fst r < k" by simp
qed

lemma insert_descend_max:
  fixes h :: "'k::linorder heap"
  shows "shape h lv (Some (a, k)) \<Longrightarrow> d < length lv \<Longrightarrow> a = last (lv ! d) \<Longrightarrow> recs h a \<noteq> []
      \<Longrightarrow> last_key h a < k
      \<Longrightarrow> \<exists>h'. insert_descend k (Some a) h = Some (last (last lv), h')
            \<and> shape h' lv (Some (last (last lv), k))
            \<and> recs h' (last (last lv)) \<noteq> [] \<and> last_key h' (last (last lv)) < k
            \<and> (\<forall>x. length (recs h' x) = length (recs h x))
            \<and> (\<forall>x. (\<forall>e. Suc e < length lv \<longrightarrow> x \<notin> set (lv ! e)) \<longrightarrow> h' x = h x)"
proof (induction "length lv - d" arbitrary: d a h)
  case 0
  then show ?case by simp
next
  case (Suc z)
  note s = Suc.prems(1) and dl = Suc.prems(2)
  have Lne: "lv ! d \<noteq> []" using shape_level_nonempty [OF s dl] .
  then have ain: "a \<in> set (lv ! d)" using Suc.prems(3) by simp
  from shape_node [OF s dl ain] obtain n where n: "h a = Some n" "is_leaf n = (Suc d = length lv)"
    by auto
  show ?case
  proof (cases "Suc d = length lv")
    case True
    then have "lv ! d = last lv" by (rule nth_last)
    then have "a = last (last lv)" using Suc.prems(3) by simp
    moreover have "insert_descend k (Some a) h = Some (a, h)"
      using n True by (subst insert_descend.simps) simp
    ultimately show ?thesis using Suc.prems by auto
  next
    case False
    then have Sd: "Suc d < length lv" using dl by simp
    let ?rs = "records n"
    let ?j = "length ?rs - 1"
    let ?h1 = "h(a \<mapsto> n\<lparr>records := set_key ?rs ?j k\<rparr>)"
    let ?c = "last (lv ! Suc d)"
    have ne: "?rs \<noteq> []" using Suc.prems(4) n by simp
    have lt: "fst (last ?rs) < k" using Suc.prems(5) n by (simp add: last_key_def)
    have "sorted_wrt (<) (map fst ?rs)" using node_keys_sorted [OF s dl ain] n by simp
    from all_keys_less [OF this ne lt] have lb: "set_lower_bound ?rs k = length ?rs"
      by (rule set_lower_bound_all_less)
    note ow = overwrite_last_shape [OF s Sd Suc.prems(3) n(1) ne Suc.prems(5)]
    have step: "insert_descend k (Some a) h = insert_descend k (Some ?c) ?h1"
      using n False lb ne ow(1) by (subst insert_descend.simps) (simp add: Let_def set_last_def)
    have "z = length lv - Suc d" using Suc.hyps(2) by simp
    from Suc.hyps(1) [OF this ow(2) Sd refl ow(3) ow(4)]
    obtain h' where h': "insert_descend k (Some ?c) ?h1 = Some (last (last lv), h')"
      "shape h' lv (Some (last (last lv), k))"
      "recs h' (last (last lv)) \<noteq> []" "last_key h' (last (last lv)) < k"
      "\<forall>x. length (recs h' x) = length (recs ?h1 x)"
      "\<forall>x. (\<forall>e. Suc e < length lv \<longrightarrow> x \<notin> set (lv ! e)) \<longrightarrow> h' x = ?h1 x"
      by blast
    have len: "length (recs ?h1 x) = length (recs h x)" for x
      using n by (simp add: recs_def set_key_def)
    have fr: "?h1 x = h x" if "\<forall>e. Suc e < length lv \<longrightarrow> x \<notin> set (lv ! e)" for x
    proof -
      from that Sd ain have "x \<noteq> a" by auto
      then show ?thesis by simp
    qed
    have "\<forall>x. length (recs h' x) = length (recs h x)" using h'(5) len by simp
    moreover have "\<forall>x. (\<forall>e. Suc e < length lv \<longrightarrow> x \<notin> set (lv ! e)) \<longrightarrow> h' x = h x"
      using h'(6) fr by simp
    ultimately show ?thesis using h'(1-4) unfolding step by blast
  qed
qed

subsection \<open>Inserting into a sorted record container\<close>

lemma set_lower_bound_take:
  "\<forall>x\<in>set (take (set_lower_bound rs k) rs). fst x < k"
  unfolding set_lower_bound_def by (metis set_takeWhileD takeWhile_eq_take)

lemma set_lower_bound_drop:
  fixes rs :: "('k::linorder \<times> 'c) list"
  assumes "sorted_wrt (<) (map fst rs)"
  shows "\<forall>x\<in>set (drop (set_lower_bound rs k) rs). k \<le> fst x"
proof
  let ?i = "set_lower_bound rs k"
  fix x assume "x \<in> set (drop ?i rs)"
  then obtain j where j: "j < length rs - ?i" "x = rs ! (?i + j)"
    by (metis in_set_conv_nth length_drop nth_drop set_lower_bound_le)
  then have il: "?i < length rs" by simp
  have "fst (rs ! ?i) \<le> fst (rs ! (?i + j))"
  proof (cases "j = 0")
    case True then show ?thesis by simp
  next
    case False
    then have "map fst rs ! ?i < map fst rs ! (?i + j)"
      using sorted_wrt_nth_less [OF assms, of ?i "?i + j"] j by simp
    then show ?thesis using j il by simp
  qed
  moreover have "k \<le> fst (rs ! ?i)" using set_lower_bound_at [OF il] by simp
  ultimately show "k \<le> fst x" using j by simp
qed

lemma set_insert_new:
  fixes rs :: "('k::linorder \<times> 'c) list"
  assumes "k \<notin> fst ` set rs"
  shows "set_insert rs (k, c) = take (set_lower_bound rs k) rs @ (k, c) # drop (set_lower_bound rs k) rs"
proof -
  let ?i = "set_lower_bound rs k"
  have "\<not> (?i < length rs \<and> \<not> k < fst (rs ! ?i))"
  proof
    assume a: "?i < length rs \<and> \<not> k < fst (rs ! ?i)"
    then have "fst (rs ! ?i) = k" using set_lower_bound_at [of rs k] by simp
    with a assms show False by (metis image_eqI nth_mem)
  qed
  then show ?thesis unfolding set_insert_def Let_def fst_conv by (simp only: if_False)
qed

lemma set_insert_sorted:
  fixes rs :: "('k::linorder \<times> 'c) list"
  assumes s: "sorted_wrt (<) (map fst rs)" and nk: "k \<notin> fst ` set rs"
  shows "sorted_wrt (<) (map fst (set_insert rs (k, c)))"
    and "set (map fst (set_insert rs (k, c))) = Set.insert k (set (map fst rs))"
    and "length (set_insert rs (k, c)) = Suc (length rs)"
    and "snd ` set (set_insert rs (k, c)) = Set.insert c (snd ` set rs)"
proof -
  let ?i = "set_lower_bound rs k"
  have eq: "set_insert rs (k, c) = take ?i rs @ (k, c) # drop ?i rs" using set_insert_new [OF nk] .
  have t: "\<forall>x\<in>set (take ?i rs). fst x < k" by (rule set_lower_bound_take)
  have "\<forall>x\<in>set (drop ?i rs). k \<le> fst x" using set_lower_bound_drop [OF s] .
  moreover have "\<forall>x\<in>set (drop ?i rs). fst x \<noteq> k" using nk by (metis image_eqI in_set_dropD)
  ultimately have d: "\<forall>x\<in>set (drop ?i rs). k < fst x" by force
  have "sorted_wrt (<) (map fst (take ?i rs @ drop ?i rs))" using s by simp
  then have "sorted_wrt (<) (map fst (take ?i rs) @ map fst (drop ?i rs))"
    by (simp only: map_append)
  then show "sorted_wrt (<) (map fst (set_insert rs (k, c)))"
    unfolding eq using t d by (auto simp: sorted_wrt_append)
  have "set rs = set (take ?i rs) \<union> set (drop ?i rs)" by (metis append_take_drop_id set_append)
  then show "set (map fst (set_insert rs (k, c))) = Set.insert k (set (map fst rs))"
    and "snd ` set (set_insert rs (k, c)) = Set.insert c (snd ` set rs)"
    unfolding eq by auto
  show "length (set_insert rs (k, c)) = Suc (length rs)" unfolding eq
    using set_lower_bound_le [of rs k] by simp
qed

lemma shape_ov_change:
  assumes s: "shape h lv ov"
    and r: "\<And>d c. Suc d < length lv \<Longrightarrow> c \<in> set (lv ! Suc d) \<Longrightarrow> rep_key h ov' c = rep_key h ov c"
    and ne: "\<And>d a. d < length lv \<Longrightarrow> a \<in> set (lv ! d) \<Longrightarrow>
               (case ov' of None \<Rightarrow> True | Some (b, k) \<Rightarrow> a \<noteq> b) \<Longrightarrow> recs h a \<noteq> []"
  shows "shape h lv ov'"
proof (rule shapeI)
  show "internal_level h ov' (lv ! d) (lv ! Suc d)" if d: "Suc d < length lv" for d
    using internal_level_cong [of "lv ! d" h h "lv ! Suc d" ov' ov] r [OF d] shape_internal [OF s d]
    by simp
qed (use shapeD [OF s] shape_chain [OF s] shape_sorted [OF s] ne in auto)

lemma root_not_below:
  assumes "shape h lv ov" and "hd lv = [r]" and "Suc d < length lv"
  shows "r \<notin> set (lv ! Suc d)"
proof -
  have "lv ! 0 = [r]" using assms(2) shapeD(1) [OF assms(1)] by (simp add: hd_conv_nth)
  then have rin: "r \<in> set (lv ! 0)" by simp
  have l0: "0 < length lv" using assms(3) by linarith
  have neq: "0 \<noteq> Suc d" by simp
  show ?thesis by (rule levels_disjoint [OF shapeD(3) [OF assms(1)] l0 assms(3) neq rin])
qed

lemma shape_override_root:
  assumes s: "shape h lv None" and r: "hd lv = [r]"
  shows "shape h lv (Some (r, k))"
proof (rule shape_ov_change [OF s])
  show "rep_key h (Some (r, k)) c = rep_key h None c" if "Suc d < length lv" "c \<in> set (lv ! Suc d)" for d c
    using root_not_below [OF s r that(1)] that(2) by (auto simp: rep_key_def)
  show "recs h a \<noteq> []" if "d < length lv" "a \<in> set (lv ! d)" for d a
    using shape_nonempty [OF s that] .
qed

lemma shape_override_self:
  assumes s: "shape h lv None"
  shows "shape h lv (Some (a, last_key h a))"
proof (rule shape_ov_change [OF s])
  show "rep_key h (Some (a, last_key h a)) c = rep_key h None c" for c
    by (simp add: rep_key_def)
  show "recs h x \<noteq> []" if "d < length lv" "x \<in> set (lv ! d)" for d x
    using shape_nonempty [OF s that] .
qed

lemma last_level_index:
  "lv \<noteq> [] \<Longrightarrow> last lv = lv ! (length lv - 1) \<and> length lv - 1 < length lv"
  by (simp add: last_conv_nth)

lemma leaf_not_internal:
  assumes "shape h lv ov" and "a \<in> set (last lv)" and "Suc e < length lv"
  shows "a \<notin> set (lv ! e)"
proof -
  have ne: "lv \<noteq> []" using shapeD(1) [OF assms(1)] .
  have a: "a \<in> set (lv ! (length lv - 1))" using assms(2) ne by (simp add: last_conv_nth)
  have l: "length lv - 1 < length lv" using ne by simp
  have e: "e < length lv" using assms(3) by simp
  have neq: "length lv - 1 \<noteq> e" using assms(3) by simp
  show ?thesis by (rule levels_disjoint [OF shapeD(3) [OF assms(1)] l e neq a])
qed

text \<open>The new key goes into the leaf that the descent has reached.\<close>

lemma leaf_insert_shape:
  fixes h :: "'k::linorder heap"
  assumes s: "shape h lv (Some (cur, kr))" and L: "last lv = xs @ cur # ys" and n: "h cur = Some n"
    and lo: "\<forall>x\<in>set (level_keys h xs). x < k" and hi: "\<forall>y\<in>set (level_keys h ys). k < y"
    and nk: "k \<notin> fst ` set (records n)"
    and kr: "fst (last (set_insert (records n) (k, None))) = kr"
  defines "h2 \<equiv> h(cur \<mapsto> n\<lparr>records := set_insert (records n) (k, None)\<rparr>)"
  shows "shape h2 lv None"
    and "set (level_keys h2 (last lv)) = Set.insert k (set (level_keys h (last lv)))"
    and "length (level_keys h2 (last lv)) = Suc (length (level_keys h (last lv)))"
proof -
  let ?rs = "records n" and ?rs' = "set_insert (records n) (k, None)"
  have lvne: "lv \<noteq> []" using shapeD(1) [OF s] .
  have dist: "distinct (concat lv)" using shapeD(3) [OF s] .
  have cin: "cur \<in> set (last lv)" using L by simp
  have ll: "length lv - 1 < length lv" using lvne by simp
  have lastlv: "last lv = lv ! (length lv - 1)" using lvne by (simp add: last_conv_nth)
  have dl: "distinct (last lv)" using level_distinct [OF dist ll] lastlv by simp
  then have cx: "cur \<notin> set xs" and cy: "cur \<notin> set ys" using L by auto
  have same': "\<forall>x. x \<noteq> cur \<longrightarrow> h2 x = h x" by (simp add: h2_def)
  have recs_same': "\<forall>x. x \<noteq> cur \<longrightarrow> recs h2 x = recs h x" by (simp add: h2_def recs_def)
  have rs2: "recs h2 cur = ?rs'" by (simp add: h2_def)
  have "cur \<in> set (lv ! (length lv - 1))" using cin lastlv by simp
  from node_keys_sorted [OF s ll this] have sn: "sorted_wrt (<) (map fst ?rs)"
    using n by simp
  note ins = set_insert_sorted [OF sn nk, of None]
  have ne': "?rs' \<noteq> []" using ins(3) by auto
  have kx: "level_keys h2 xs = level_keys h xs" using cx recs_same' by (intro level_keys_cong) metis
  have ky: "level_keys h2 ys = level_keys h ys" using cy recs_same' by (intro level_keys_cong) metis
  have keys2: "level_keys h2 (last lv) = level_keys h xs @ map fst ?rs' @ level_keys h ys"
    unfolding L using kx ky rs2 by (simp add: keys_of_def)
  have keys1: "level_keys h (last lv) = level_keys h xs @ map fst ?rs @ level_keys h ys"
    unfolding L using n by (simp add: keys_of_def)
  show "set (level_keys h2 (last lv)) = Set.insert k (set (level_keys h (last lv)))"
    unfolding keys1 keys2 using ins(2) by auto
  show "length (level_keys h2 (last lv)) = Suc (length (level_keys h (last lv)))"
    unfolding keys1 keys2 using ins(3) by simp
  have cni: "cur \<notin> set (lv ! e)" if "Suc e < length lv" for e
    using leaf_not_internal [OF s cin that] .
  show "shape h2 lv None"
  proof (rule shapeI)
    show "lv \<noteq> []" "\<forall>L\<in>set lv. L \<noteq> []" "distinct (concat lv)" "m_header \<notin> set (concat lv)"
      using shapeD(1-4) [OF s] by auto
    from shapeD(5) [OF s] obtain r rn where r: "hd lv = [r]" "h r = Some rn" "parent rn = None" by auto
    show "\<exists>r n. hd lv = [r] \<and> h2 r = Some n \<and> parent n = None"
    proof (cases "r = cur")
      case True
      then show ?thesis using r n by (auto simp: h2_def)
    next
      case False
      then show ?thesis using r by (auto simp: h2_def)
    qed
    have links: "map_option (\<lambda>n. (pre n, nxt n)) (h2 x) = map_option (\<lambda>n. (pre n, nxt n)) (h x)" for x
      using n by (simp add: h2_def)
    show "chain h2 (Some m_header) (Some m_header) (last lv)"
      using chain_cong [of "last lv" h2 h] links shapeD(8) [OF s] by simp
    show "\<And>e. Suc e < length lv \<Longrightarrow> chain h2 None None (lv ! e)"
      using chain_cong [of _ h2 h] links shape_chain [OF s] by simp
    have "cur \<noteq> m_header" using shape_header_notin [OF s ll] cin lastlv by simp
    then show "\<exists>hn. h2 m_header = Some hn \<and> nxt hn = Some (hd (last lv)) \<and> pre hn = Some (last (last lv))"
      using shapeD(9) [OF s] by (simp add: h2_def)
    show "leaf_level h2 (last lv)"
      unfolding leaf_level_def
    proof
      fix x assume x: "x \<in> set (last lv)"
      from shape_leaf [OF s x] obtain m where m: "h x = Some m" "is_leaf m" "\<forall>r\<in>set (records m). snd r = None"
        by auto
      show "\<exists>n. h2 x = Some n \<and> is_leaf n \<and> (\<forall>r\<in>set (records n). snd r = None)"
      proof (cases "x = cur")
        case True
        have "snd ` set ?rs' = Set.insert None (snd ` set ?rs)" using ins(4) .
        moreover have "snd ` set ?rs \<subseteq> {None}" using m n True by auto
        ultimately have "\<forall>r\<in>set ?rs'. snd r = None" by auto
        then show ?thesis using True m n by (simp add: h2_def)
      next
        case False
        then show ?thesis using m by (simp add: h2_def)
      qed
    qed
    show "recs h2 x \<noteq> []" if "e < length lv" "x \<in> set (lv ! e)" for e x
    proof (cases "x = cur")
      case True
      then show ?thesis using rs2 ne' by simp
    next
      case False
      then show ?thesis using recs_same' shape_nonempty_ov [OF s that] by simp
    qed
    show "sorted_wrt (<) (level_keys h2 (lv ! e))" if e: "e < length lv" for e
    proof (cases "Suc e = length lv")
      case False
      then have "Suc e < length lv" using e by simp
      then have "cur \<notin> set (lv ! e)" by (rule cni)
      then have "\<forall>x\<in>set (lv ! e). recs h2 x = recs h x" using recs_same' by metis
      from level_keys_cong [OF this] shape_sorted [OF s e] show ?thesis by simp
    next
      case True
      then have le: "lv ! e = last lv" by (rule nth_last)
      have old: "sorted_wrt (<) (level_keys h xs @ map fst ?rs @ level_keys h ys)"
        using shape_sorted [OF s e] le keys1 by simp
      have "sorted_wrt (<) (level_keys h xs @ map fst ?rs' @ level_keys h ys)"
        using old ins(1) ins(2) lo hi by (auto simp: sorted_wrt_append)
      then show ?thesis using le keys2 by simp
    qed
    show "internal_level h2 None (lv ! e) (lv ! Suc e)" if e: "Suc e < length lv" for e
    proof -
      have "cur \<notin> set (lv ! e)" using cni [OF e] .
      then have 1: "\<forall>x\<in>set (lv ! e). map_option (\<lambda>n. (is_leaf n, records n)) (h2 x)
                         = map_option (\<lambda>n. (is_leaf n, records n)) (h x)"
        using same' by metis
      have 2: "\<forall>x\<in>set (lv ! Suc e). rep_key h2 None x = rep_key h (Some (cur, kr)) x
               \<and> map_option parent (h2 x) = map_option parent (h x)"
      proof
        fix x assume "x \<in> set (lv ! Suc e)"
        have p: "map_option parent (h2 x) = map_option parent (h x)" using n by (simp add: h2_def)
        show "rep_key h2 None x = rep_key h (Some (cur, kr)) x
               \<and> map_option parent (h2 x) = map_option parent (h x)"
        proof (cases "x = cur")
          case True
          then show ?thesis using p rs2 kr by (simp add: rep_key_def last_key_def)
        next
          case False
          then show ?thesis using p recs_same' by (simp add: rep_key_def last_key_def)
        qed
      qed
      from internal_level_cong [OF 1 2] shape_internal [OF s e] show ?thesis by simp
    qed
  qed
qed

lemma set_insert_append:
  "\<forall>x\<in>set rs. fst x < fst r \<Longrightarrow> set_insert rs r = rs @ [r]"
  by (simp add: set_insert_def set_lower_bound_all_less)

lemma split_move_spec:
  fixes h :: "'k::linorder heap"
  assumes "h a = Some n" and "h left = Some l" and "a \<noteq> left" and "i \<le> length (records n)"
    and "sorted_wrt (<) (map fst (records n))"
    and "\<forall>x\<in>set (records l). \<forall>y\<in>set (records n). fst x < fst y"
    and "\<forall>c. Some c \<in> snd ` set (take i (records n)) \<longrightarrow> c \<noteq> a \<and> c \<noteq> left \<and> h c \<noteq> None"
  shows "split_move i a left h =
     Some (\<lambda>x. if x = a then Some (n\<lparr>records := drop i (records n)\<rparr>)
               else if x = left then Some (l\<lparr>records := records l @ take i (records n)\<rparr>)
               else if Some x \<in> snd ` set (take i (records n))
                    then map_option (\<lambda>y. y\<lparr>parent := Some left\<rparr>) (h x)
               else h x)"
  using assms
proof (induction i arbitrary: h n l)
  case 0
  then show ?case by auto
next
  case (Suc i)
  from Suc.prems(4) obtain r rs where rs: "records n = r # rs" by (cases "records n") auto
  let ?h1 = "case snd r of None \<Rightarrow> h | Some c \<Rightarrow> h(c \<mapsto> (the (h c))\<lparr>parent := Some left\<rparr>)"
  have c1: "(case snd r of None \<Rightarrow> Some h | Some c \<Rightarrow> update_node c (\<lambda>x. x\<lparr>parent := Some left\<rparr>) h) = Some ?h1"
    using Suc.prems(7) rs by (auto simp: update_node_def split: option.splits)
  have h1a: "?h1 a = Some n" and h1l: "?h1 left = Some l"
    using Suc.prems(1,2,7) rs by (auto split: option.splits)
  have ins: "set_insert (records l) r = records l @ [r]"
    using Suc.prems(6) rs by (intro set_insert_append) simp
  let ?l' = "l\<lparr>records := records l @ [r]\<rparr>"
  let ?n' = "n\<lparr>records := rs\<rparr>"
  let ?h3 = "?h1(left \<mapsto> ?l', a \<mapsto> ?n')"
  have step: "split_move (Suc i) a left h = split_move i a left ?h3"
    using Suc.prems(1,3) rs c1 h1a h1l ins
    by (simp add: set_at_def update_node_def)
  have p1: "?h3 a = Some ?n'" by simp
  have p2: "?h3 left = Some ?l'" using Suc.prems(3) by simp
  have p4: "i \<le> length (records ?n')" using Suc.prems(4) rs by simp
  have p5: "sorted_wrt (<) (map fst (records ?n'))" using Suc.prems(5) rs by simp
  have p6: "\<forall>x\<in>set (records ?l'). \<forall>y\<in>set (records ?n'). fst x < fst y"
    using Suc.prems(5,6) rs by auto
  have p7: "\<forall>c. Some c \<in> snd ` set (take i (records ?n')) \<longrightarrow> c \<noteq> a \<and> c \<noteq> left \<and> ?h3 c \<noteq> None"
    using Suc.prems(7) rs by (auto split: option.splits)
  note IH = Suc.IH [OF p1 p2 Suc.prems(3) p4 p5 p6 p7]
  show ?case unfolding step IH
    using rs Suc.prems(3,7) by (fastforce split: option.splits)
qed

subsection \<open>What split computes\<close>

lemma split_nonroot:
  fixes t :: "'k::linorder bplustree"
  assumes n: "heap t a = Some n" and af: "a \<noteq> fresh t"
    and sorted: "sorted_wrt (<) (map fst (records n))"
    and hh: "half_order m < length (records n)" "0 < half_order m"
    and kids: "\<forall>c. Some c \<in> snd ` set (take (half_order m) (records n)) \<longrightarrow>
                 c \<noteq> a \<and> c \<noteq> fresh t \<and> heap t c \<noteq> None \<and> c \<noteq> p \<and> Some c \<noteq> pre n"
    and p: "parent n = Some p" "heap t p = Some hp" "p \<noteq> a" "p \<noteq> fresh t"
    and q: "\<forall>q. pre n = Some q \<longrightarrow> heap t q \<noteq> None \<and> q \<noteq> a \<and> q \<noteq> fresh t \<and> q \<noteq> p"
  defines "H \<equiv> (\<lambda>x.
      if x = a then Some (n\<lparr>records := drop (half_order m) (records n), pre := Some (fresh t),
                            parent := Some p\<rparr>)
      else if x = fresh t then Some \<lparr>records = take (half_order m) (records n), is_leaf = is_leaf n,
                                     nxt = Some a, pre = pre n, parent = Some p\<rparr>
      else if x = p then Some (hp\<lparr>records := set_insert (records hp)
                                 (fst (last (take (half_order m) (records n))), Some (fresh t))\<rparr>)
      else if Some x = pre n then map_option (\<lambda>y. y\<lparr>nxt := Some (fresh t)\<rparr>) (heap t x)
      else if Some x \<in> snd ` set (take (half_order m) (records n))
           then map_option (\<lambda>y. y\<lparr>parent := Some (fresh t)\<rparr>) (heap t x)
      else heap t x)"
  shows "split m a t = Some ((p, fresh t), t\<lparr>heap := H, fresh := Suc (fresh t)\<rparr>)"
proof -
  let ?f = "fresh t"
  let ?hh = "half_order m"
  let ?ls = "take ?hh (records n)"
  let ?h1 = "(heap t)(?f \<mapsto> make_node)"
  let ?h2 = "\<lambda>x. if x = a then Some (n\<lparr>records := drop ?hh (records n)\<rparr>)
               else if x = ?f then Some ((make_node :: 'k node)\<lparr>records := records (make_node :: 'k node) @ take ?hh (records n)\<rparr>)
               else if Some x \<in> snd ` set (take ?hh (records n))
                    then map_option (\<lambda>y. y\<lparr>parent := Some ?f\<rparr>) (?h1 x)
               else ?h1 x"
  have m1: "split_move ?hh a ?f ?h1 = Some ?h2"
  proof (rule split_move_spec)
    show "?h1 a = Some n" using n af by simp
    show "?h1 ?f = Some make_node" by simp
    show "a \<noteq> ?f" using af by simp
    show "?hh \<le> length (records n)" using hh by simp
    show "sorted_wrt (<) (map fst (records n))" by (rule sorted)
    show "\<forall>x\<in>set (records (make_node :: 'k node)). \<forall>y\<in>set (records n). fst x < fst y"
      by (simp add: make_node_def)
    show "\<forall>c. Some c \<in> snd ` set (take ?hh (records n)) \<longrightarrow> c \<noteq> a \<and> c \<noteq> ?f \<and> ?h1 c \<noteq> None"
      using kids by simp
  qed
  have lsne: "?ls \<noteq> []" using hh by auto
  have dne: "\<not> length (records n) \<le> ?hh" using hh by simp
  let ?l3 = "\<lparr>records = ?ls, is_leaf = is_leaf n, nxt = Some a, pre = None, parent = None\<rparr> :: 'k node"
  let ?h3 = "?h2(?f \<mapsto> ?l3)"
  have u3: "update_node ?f (\<lambda>x. x\<lparr>is_leaf := is_leaf n, nxt := Some a\<rparr>) ?h2 = Some ?h3"
    using af by (simp add: update_node_def make_node_def)
  let ?l4 = "?l3\<lparr>pre := pre n\<rparr>"
  let ?h4 = "case pre n of None \<Rightarrow> ?h3
             | Some q \<Rightarrow> ?h3(?f \<mapsto> ?l4, q \<mapsto> (the (heap t q))\<lparr>nxt := Some ?f\<rparr>)"
  have u4: "(case pre n of None \<Rightarrow> Some ?h3
             | Some q \<Rightarrow> update_node ?f (\<lambda>x. x\<lparr>pre := Some q\<rparr>) ?h3
                          \<bind> update_node q (\<lambda>x. x\<lparr>nxt := Some ?f\<rparr>)) = Some ?h4"
  proof (cases "pre n")
    case None
    then show ?thesis by simp
  next
    case (Some q')
    with q kids have "heap t q' \<noteq> None" "q' \<noteq> a" "q' \<noteq> ?f" "Some q' \<notin> snd ` set (take ?hh (records n))"
      by auto
    then show ?thesis using Some by (auto simp: update_node_def)
  qed
  have h4a: "?h4 a = Some (n\<lparr>records := drop ?hh (records n)\<rparr>)"
    using q af by (auto split: option.splits)
  let ?h5 = "?h4(a \<mapsto> n\<lparr>records := drop ?hh (records n), pre := Some ?f\<rparr>)"
  have u5: "update_node a (\<lambda>x. x\<lparr>pre := Some ?f\<rparr>) ?h4 = Some ?h5"
    using h4a by (simp add: update_node_def)
  have h5f: "?h5 ?f = Some ?l4"
    using af q by (auto split: option.splits)
  have h5p: "?h5 p = Some hp"
    using p q kids by (auto split: option.splits)
  let ?h6 = "?h5(p \<mapsto> hp\<lparr>records := set_insert (records hp) (fst (last ?ls), Some ?f)\<rparr>)"
  have u6: "update_node p (\<lambda>x. x\<lparr>records := set_insert (records x) (fst (?ls ! (min (length (records n)) ?hh - Suc 0)), Some ?f)\<rparr>) ?h5
            = Some ?h6"
    using h5p lsne by (simp add: update_node_def last_conv_nth)
  let ?l7 = "\<lparr>records = ?ls, is_leaf = is_leaf n, nxt = Some a, pre = pre n, parent = Some p\<rparr> :: 'k node"
  let ?h7 = "?h6(?f \<mapsto> ?l7)"
  have u7: "update_node ?f (\<lambda>x. x\<lparr>parent := Some p\<rparr>) ?h6 = Some ?h7"
    using h5f p(4) by (simp add: update_node_def)
  let ?h8 = "?h7(a \<mapsto> n\<lparr>records := drop ?hh (records n), pre := Some ?f, parent := Some p\<rparr>)"
  have u8: "update_node a (\<lambda>x. x\<lparr>parent := Some p\<rparr>) ?h7 = Some ?h8"
    using af p(3) by (simp add: update_node_def)
  have HH: "?h8 = H"
  proof
    fix x
    show "?h8 x = H x"
      unfolding H_def using af p q kids
      by (cases "pre n") (auto simp: make_node_def split: option.splits)
  qed
  have sl: "set_last ?ls = Some (length ?ls - 1)" using lsne by (simp add: set_last_def)
  have bind_Some: "\<And>x g. Option.bind (Some x) g = g x" by simp
  show ?thesis
    unfolding split_def Let_def
    apply (simp add: m1 dne set_at_def u3 del: fun_upd_apply)
    apply (subst u4)
    apply (subst bind_Some)
    apply (subst u5)
    apply (simp add: p(1) h5f del: fun_upd_apply)
    apply (simp add: sl u6 u7 u8 HH del: fun_upd_apply)
    done
qed

lemma split_root:
  fixes t :: "'k::linorder bplustree"
  assumes n: "heap t a = Some n" and af: "a \<noteq> fresh t"
    and sorted: "sorted_wrt (<) (map fst (records n))"
    and hh: "half_order m < length (records n)" "0 < half_order m"
    and kids: "\<forall>c. Some c \<in> snd ` set (take (half_order m) (records n)) \<longrightarrow>
                 c \<noteq> a \<and> c \<noteq> fresh t \<and> heap t c \<noteq> None \<and> c \<noteq> p \<and> Some c \<noteq> pre n"
    and p: "parent n = None" "p = Suc (fresh t)" "p \<noteq> a"
    and q: "\<forall>q. pre n = Some q \<longrightarrow> heap t q \<noteq> None \<and> q \<noteq> a \<and> q \<noteq> fresh t \<and> q \<noteq> p"
  defines "H \<equiv> (\<lambda>x.
      if x = a then Some (n\<lparr>records := drop (half_order m) (records n), pre := Some (fresh t),
                            parent := Some p\<rparr>)
      else if x = fresh t then Some \<lparr>records = take (half_order m) (records n), is_leaf = is_leaf n,
                                     nxt = Some a, pre = pre n, parent = Some p\<rparr>
      else if x = p then Some \<lparr>records = set_insert
                                   (set_insert [] (fst (last (drop (half_order m) (records n))), Some a))
                                   (fst (last (take (half_order m) (records n))), Some (fresh t)),
                                 is_leaf = False, nxt = None, pre = None, parent = None\<rparr>
      else if Some x = pre n then map_option (\<lambda>y. y\<lparr>nxt := Some (fresh t)\<rparr>) (heap t x)
      else if Some x \<in> snd ` set (take (half_order m) (records n))
           then map_option (\<lambda>y. y\<lparr>parent := Some (fresh t)\<rparr>) (heap t x)
      else heap t x)"
  shows "split m a t = Some ((p, fresh t), t\<lparr>heap := H, fresh := Suc p, m_root := Some p\<rparr>)"
proof -
  let ?f = "fresh t"
  let ?hh = "half_order m"
  let ?ls = "take ?hh (records n)"
  let ?h1 = "(heap t)(?f \<mapsto> make_node)"
  let ?h2 = "\<lambda>x. if x = a then Some (n\<lparr>records := drop ?hh (records n)\<rparr>)
               else if x = ?f then Some ((make_node :: 'k node)\<lparr>records := records (make_node :: 'k node) @ take ?hh (records n)\<rparr>)
               else if Some x \<in> snd ` set (take ?hh (records n))
                    then map_option (\<lambda>y. y\<lparr>parent := Some ?f\<rparr>) (?h1 x)
               else ?h1 x"
  have m1: "split_move ?hh a ?f ?h1 = Some ?h2"
  proof (rule split_move_spec)
    show "?h1 a = Some n" using n af by simp
    show "?h1 ?f = Some make_node" by simp
    show "a \<noteq> ?f" using af by simp
    show "?hh \<le> length (records n)" using hh by simp
    show "sorted_wrt (<) (map fst (records n))" by (rule sorted)
    show "\<forall>x\<in>set (records (make_node :: 'k node)). \<forall>y\<in>set (records n). fst x < fst y"
      by (simp add: make_node_def)
    show "\<forall>c. Some c \<in> snd ` set (take ?hh (records n)) \<longrightarrow> c \<noteq> a \<and> c \<noteq> ?f \<and> ?h1 c \<noteq> None"
      using kids by simp
  qed
  have lsne: "?ls \<noteq> []" using hh by auto
  have dne: "\<not> length (records n) \<le> ?hh" using hh by simp
  let ?l3 = "\<lparr>records = ?ls, is_leaf = is_leaf n, nxt = Some a, pre = None, parent = None\<rparr> :: 'k node"
  let ?h3 = "?h2(?f \<mapsto> ?l3)"
  have u3: "update_node ?f (\<lambda>x. x\<lparr>is_leaf := is_leaf n, nxt := Some a\<rparr>) ?h2 = Some ?h3"
    using af by (simp add: update_node_def make_node_def)
  let ?l4 = "?l3\<lparr>pre := pre n\<rparr>"
  let ?h4 = "case pre n of None \<Rightarrow> ?h3
             | Some q \<Rightarrow> ?h3(?f \<mapsto> ?l4, q \<mapsto> (the (heap t q))\<lparr>nxt := Some ?f\<rparr>)"
  have u4: "(case pre n of None \<Rightarrow> Some ?h3
             | Some q \<Rightarrow> update_node ?f (\<lambda>x. x\<lparr>pre := Some q\<rparr>) ?h3
                          \<bind> update_node q (\<lambda>x. x\<lparr>nxt := Some ?f\<rparr>)) = Some ?h4"
  proof (cases "pre n")
    case None
    then show ?thesis by simp
  next
    case (Some q')
    with q kids have "heap t q' \<noteq> None" "q' \<noteq> a" "q' \<noteq> ?f" "Some q' \<notin> snd ` set (take ?hh (records n))"
      by auto
    then show ?thesis using Some by (auto simp: update_node_def)
  qed
  have h4a: "?h4 a = Some (n\<lparr>records := drop ?hh (records n)\<rparr>)"
    using q af by (auto split: option.splits)
  let ?h5 = "?h4(a \<mapsto> n\<lparr>records := drop ?hh (records n), pre := Some ?f\<rparr>)"
  have u5: "update_node a (\<lambda>x. x\<lparr>pre := Some ?f\<rparr>) ?h4 = Some ?h5"
    using h4a by (simp add: update_node_def)
  have h5f: "?h5 ?f = Some ?l4"
    using af q by (auto split: option.splits)
  let ?ds = "drop ?hh (records n)"
  let ?r0 = "\<lparr>records = set_insert [] (fst (records n ! (length (records n) - Suc 0)), Some a),
              is_leaf = False, nxt = None, pre = None, parent = None\<rparr> :: 'k node"
  have lastds: "last ?ds = records n ! (length (records n) - Suc 0)"
    using hh by (simp add: last_conv_nth)
  let ?h5r = "?h5(p \<mapsto> ?r0)"
  have h5p: "?h5r p = Some ?r0" by simp
  have h5rf: "?h5r ?f = Some ?l4" using h5f p(2) by simp
  let ?r6 = "\<lparr>records = set_insert (set_insert [] (fst (records n ! (length (records n) - Suc 0)), Some a))
                 (fst (last ?ls), Some ?f),
              is_leaf = False, nxt = None, pre = None, parent = None\<rparr> :: 'k node"
  let ?h6 = "?h5(p \<mapsto> ?r6)"
  have rne: "records n \<noteq> []" using hh by auto
  have u6: "update_node p (\<lambda>x. x\<lparr>records := set_insert (records x) (fst (?ls ! (min (length (records n)) ?hh - Suc 0)), Some ?f)\<rparr>) ?h5r
            = Some ?h6"
    using h5p lsne by (simp add: update_node_def last_conv_nth)
  let ?l7 = "\<lparr>records = ?ls, is_leaf = is_leaf n, nxt = Some a, pre = pre n, parent = Some p\<rparr> :: 'k node"
  let ?h7 = "?h6(?f \<mapsto> ?l7)"
  have u7: "update_node ?f (\<lambda>x. x\<lparr>parent := Some p\<rparr>) ?h6 = Some ?h7"
    using h5f p(2) by (simp add: update_node_def)
  let ?h8 = "?h7(a \<mapsto> n\<lparr>records := drop ?hh (records n), pre := Some ?f, parent := Some p\<rparr>)"
  have u8: "update_node a (\<lambda>x. x\<lparr>parent := Some p\<rparr>) ?h7 = Some ?h8"
    using af p(3) by (simp add: update_node_def)
  have HH: "?h8 = H"
  proof
    fix x
    show "?h8 x = H x"
      unfolding H_def using af p q kids lastds
      by (cases "pre n") (auto simp: make_node_def split: option.splits)
  qed
  have dsne: "?ds \<noteq> []" using hh by simp
  have sl: "set_last ?ls = Some (length ?ls - 1)" using lsne by (simp add: set_last_def)
  have bind_Some: "\<And>x g. Option.bind (Some x) g = g x" by simp
  show ?thesis
    unfolding split_def Let_def
    apply (simp add: m1 dne set_at_def u3 del: fun_upd_apply)
    apply (subst u4)
    apply (subst bind_Some)
    apply (subst u5)
    apply (simp add: p(1) set_last_def make_node_def last_conv_nth p(2) [symmetric] del: fun_upd_apply)
    apply (simp add: dne h5rf sl u6 u7 u8 HH hh(2) rne del: fun_upd_apply)
    done
qed

subsection \<open>Lists\<close>

lemma unique_split:
  assumes eq: "A @ B @ C = X @ y # Z" and yB: "y \<in> set B" and yX: "y \<notin> set X" and yZ: "y \<notin> set Z"
  shows "\<exists>B1 B2. B = B1 @ y # B2 \<and> A @ B1 = X \<and> B2 @ C = Z"
proof -
  from yB obtain B1 B2 where B: "B = B1 @ y # B2" by (meson split_list)
  then have "(A @ B1) @ y # (B2 @ C) = X @ y # Z" using eq by simp
  then have "X @ y # Z = (A @ B1) @ y # (B2 @ C)" by simp
  then have "X = A @ B1 \<and> Z = B2 @ C"
    using append_Cons_eq_iff [OF yX yZ, of "A @ B1" "B2 @ C"] by blast
  with B show ?thesis by blast
qed

lemma set_insert_between:
  fixes R1 :: "('k::linorder \<times> 'c) list"
  assumes "\<forall>x\<in>set R1. fst x < k" and "k < fst y"
  shows "set_insert (R1 @ y # R2) (k, c) = R1 @ (k, c) # y # R2"
proof -
  have lb: "set_lower_bound (R1 @ y # R2) k = length R1"
    using assms by (simp add: set_lower_bound_def takeWhile_append2)
  show ?thesis using assms(2) by (simp add: set_insert_def lb Let_def)
qed

lemma set_insert_Nil: "set_insert [] r = [r]"
  by (simp add: set_insert_def set_lower_bound_def)

lemma set_insert_front:
  fixes y :: "'k::linorder \<times> 'c"
  assumes "k < fst y"
  shows "set_insert [y] (k, c) = [(k, c), y]"
  using set_insert_between [of "[]" k y "[]" c] assms by simp

subsection \<open>Chains\<close>

lemma chain_Cons:
  "chain h l r (a # as) \<longleftrightarrow>
     (\<exists>n. h a = Some n \<and> pre n = l \<and> nxt n = (if as = [] then r else Some (hd as))
          \<and> chain h (Some a) r as)"
  by (cases as) (auto split: option.splits)

lemma chain_mid:
  "chain h l r (xs @ a # ys) \<longleftrightarrow>
     chain h l (Some a) xs \<and> chain h (if xs = [] then l else Some (last xs)) r (a # ys)"
proof (induction xs arbitrary: l)
  case Nil
  then show ?case by simp
next
  case (Cons x xs)
  show ?case
    unfolding append_Cons chain_Cons [of h l r x] chain_Cons [of h l "Some a" x] Cons.IH
    by (cases xs) auto
qed

lemma chain_node:
  assumes "chain h l r (xs @ a # ys)"
  shows "\<exists>n. h a = Some n \<and> pre n = (if xs = [] then l else Some (last xs))
            \<and> nxt n = (if ys = [] then r else Some (hd ys))"
  using assms unfolding chain_mid chain_Cons by auto

lemma chain_change_end:
  assumes c: "chain h l r xs"
    and same: "\<forall>x\<in>set (butlast xs). map_option (\<lambda>n. (pre n, nxt n)) (h' x) = map_option (\<lambda>n. (pre n, nxt n)) (h x)"
    and lastn: "xs \<noteq> [] \<longrightarrow> (\<exists>n n'. h (last xs) = Some n \<and> h' (last xs) = Some n' \<and> pre n' = pre n \<and> nxt n' = r')"
  shows "chain h' l r' xs"
  using assms
proof (induction xs arbitrary: l)
  case Nil
  then show ?case by simp
next
  case (Cons x xs)
  show ?case
  proof (cases "xs = []")
    case True
    with Cons.prems show ?thesis by (auto split: option.splits)
  next
    case False
    from Cons.prems(1) obtain n where n: "h x = Some n" "pre n = l" "nxt n = Some (hd xs)"
      "chain h (Some x) r xs" unfolding chain_Cons using False by auto
    from Cons.prems(2) False have "map_option (\<lambda>n. (pre n, nxt n)) (h' x) = map_option (\<lambda>n. (pre n, nxt n)) (h x)"
      by simp
    with n obtain n' where n': "h' x = Some n'" "pre n' = l" "nxt n' = Some (hd xs)" by auto
    have "chain h' (Some x) r' xs"
    proof (rule Cons.IH [OF n(4)])
      show "\<forall>x\<in>set (butlast xs). map_option (\<lambda>n. (pre n, nxt n)) (h' x) = map_option (\<lambda>n. (pre n, nxt n)) (h x)"
        using Cons.prems(2) False by simp
      show "xs \<noteq> [] \<longrightarrow> (\<exists>n n'. h (last xs) = Some n \<and> h' (last xs) = Some n' \<and> pre n' = pre n \<and> nxt n' = r')"
        using Cons.prems(3) False by simp
    qed
    with n' False show ?thesis unfolding chain_Cons by simp
  qed
qed

lemma chain_allocated:
  "chain h l r xs \<Longrightarrow> x \<in> set xs \<Longrightarrow> h x \<noteq> None"
  by (induction xs arbitrary: l) (auto split: option.splits)

lemma internal_level_recs:
  "internal_level h ov L L' \<Longrightarrow> level_recs h L = map (\<lambda>c. (rep_key h ov c, Some c)) L'"
  by (simp add: internal_level_def)

lemma internal_level_parent:
  "internal_level h ov L L' \<Longrightarrow> a \<in> set L \<Longrightarrow> Some c \<in> snd ` set (recs h a)
     \<Longrightarrow> \<exists>n. h c = Some n \<and> parent n = Some a"
  unfolding internal_level_def kids_of_def by auto

lemma in_level_recs: "r \<in> set (level_recs h L) \<longleftrightarrow> (\<exists>a\<in>set L. r \<in> set (recs h a))"
  by (auto simp: level_recs_def)

lemma shape_parent:
  assumes s: "shape h lv ov" and d: "Suc e < length lv" and a: "lv ! Suc e = xs @ a # ys"
    and n: "h a = Some n"
  shows "\<exists>p hp ps qs R1 R2. lv ! e = ps @ p # qs \<and> h p = Some hp \<and> \<not> is_leaf hp
          \<and> parent n = Some p
          \<and> records hp = R1 @ (rep_key h ov a, Some a) # R2
          \<and> level_recs h ps @ R1 = map (\<lambda>c. (rep_key h ov c, Some c)) xs
          \<and> R2 @ level_recs h qs = map (\<lambda>c. (rep_key h ov c, Some c)) ys"
proof -
  let ?g = "\<lambda>c. (rep_key h ov c, Some c)"
  have il: "internal_level h ov (lv ! e) (lv ! Suc e)" using shape_internal [OF s d] .
  have al: "level_recs h (lv ! e) = map ?g xs @ ?g a # map ?g ys"
    using internal_level_recs [OF il] a by simp
  have dist: "distinct (xs @ a # ys)"
    using level_distinct [OF shapeD(3) [OF s] d] a by simp
  then have ax: "?g a \<notin> set (map ?g xs)" and ay: "?g a \<notin> set (map ?g ys)" by auto
  have "?g a \<in> set (level_recs h (lv ! e))" unfolding al by simp
  then obtain p where p: "p \<in> set (lv ! e)" "?g a \<in> set (recs h p)"
    unfolding in_level_recs by blast
  from p(1) obtain ps qs where L: "lv ! e = ps @ p # qs" by (meson split_list)
  from internal_level_node [OF il p(1)] obtain hp where hp: "h p = Some hp" "\<not> is_leaf hp" by auto
  have "level_recs h ps @ recs h p @ level_recs h qs = map ?g xs @ ?g a # map ?g ys"
    using al L by simp
  from unique_split [OF this p(2) ax ay] obtain R1 R2 where
    R: "recs h p = R1 @ ?g a # R2" "level_recs h ps @ R1 = map ?g xs" "R2 @ level_recs h qs = map ?g ys"
    by blast
  have "Some a \<in> snd ` set (recs h p)" using p(2) by force
  from internal_level_parent [OF il p(1) this] n have "parent n = Some p" by simp
  with L hp R show ?thesis by auto
qed

lemma shape_children:
  assumes s: "shape h lv ov" and d: "d < length lv" and a: "a \<in> set (lv ! d)"
    and c: "Some c \<in> snd ` set (recs h a)"
  shows "Suc d < length lv \<and> c \<in> set (lv ! Suc d)"
proof (cases "Suc d = length lv")
  case True
  then have "lv ! d = last lv" by (rule nth_last)
  with shape_leaf [OF s, of a] a obtain n where "h a = Some n" "\<forall>r\<in>set (records n). snd r = None"
    by auto
  with c show ?thesis by auto
next
  case False
  then have Sd: "Suc d < length lv" using d by simp
  from c obtain r where r: "r \<in> set (recs h a)" "snd r = Some c" by force
  then have "r \<in> set (level_recs h (lv ! d))" using a unfolding in_level_recs by blast
  then have "Some c \<in> snd ` set (level_recs h (lv ! d))" using r(2) by force
  then have "c \<in> set (lv ! Suc d)"
    unfolding internal_level_recs [OF shape_internal [OF s Sd]] by auto
  with Sd show ?thesis by simp
qed

lemma shape_allocated:
  assumes "shape h lv ov" and "d < length lv" and "a \<in> set (lv ! d)"
  shows "h a \<noteq> None"
  using shape_node [OF assms] by auto

text \<open>The left and right neighbour of a node of a level.\<close>

lemma shape_links:
  assumes s: "shape h lv ov" and d: "d < length lv" and a: "lv ! d = xs @ a # ys"
  shows "\<exists>n. h a = Some n
          \<and> pre n = (if xs = [] then (if Suc d = length lv then Some m_header else None) else Some (last xs))
          \<and> nxt n = (if ys = [] then (if Suc d = length lv then Some m_header else None) else Some (hd ys))"
proof (cases "Suc d = length lv")
  case True
  then have "lv ! d = last lv" by (rule nth_last)
  then have "chain h (Some m_header) (Some m_header) (xs @ a # ys)" using shapeD(8) [OF s] a by simp
  from chain_node [OF this] True show ?thesis by auto
next
  case False
  then have "Suc d < length lv" using d by simp
  from shape_chain [OF s this] have "chain h None None (xs @ a # ys)" using a by simp
  from chain_node [OF this] False show ?thesis by auto
qed

lemma map_option_views:
  "h' x = h x \<Longrightarrow> map_option f (h' x) = map_option f (h x)"
  by simp

text \<open>
  The levels from the level of the split node downwards, after a split.
\<close>

lemma split_lower:
  fixes h :: "'k::linorder heap"
  assumes s: "shape h lv None" and d: "d < length lv" and L: "lv ! d = xs @ a # ys"
    and n: "h a = Some n" and v: "split_view h H a n f p hh"
    and hh: "0 < hh" "hh < length (records n)"
    and f: "f \<notin> set (concat lv)" "f \<noteq> m_header"
    and p: "\<forall>i. d \<le> i \<and> i < length lv \<longrightarrow> p \<notin> set (lv ! i)" "p \<noteq> m_header" "p \<noteq> f"
  defines "L' \<equiv> xs @ f # a # ys"
  shows "Suc d < length lv \<Longrightarrow> internal_level H None L' (lv ! Suc d)"
    and "Suc d < length lv \<Longrightarrow> chain H None None L'"
    and "\<And>i. d < i \<Longrightarrow> Suc i < length lv \<Longrightarrow> internal_level H None (lv ! i) (lv ! Suc i)"
    and "\<And>i. d < i \<Longrightarrow> Suc i < length lv \<Longrightarrow> chain H None None (lv ! i)"
    and "leaf_level H (if Suc d = length lv then L' else last lv)"
    and "chain H (Some m_header) (Some m_header) (if Suc d = length lv then L' else last lv)"
    and "\<exists>hn. H m_header = Some hn
              \<and> nxt hn = Some (hd (if Suc d = length lv then L' else last lv))
              \<and> pre hn = Some (last (if Suc d = length lv then L' else last lv))"
    and "level_keys H L' = level_keys h (lv ! d)"
    and "\<And>i. d < i \<Longrightarrow> i < length lv \<Longrightarrow> level_keys H (lv ! i) = level_keys h (lv ! i)"
    and "\<And>x. x \<in> set L' \<Longrightarrow> recs H x \<noteq> []"
    and "\<And>i x. d < i \<Longrightarrow> i < length lv \<Longrightarrow> x \<in> set (lv ! i) \<Longrightarrow> recs H x = recs h x"
    and "\<And>x. x \<in> set xs \<union> set ys \<Longrightarrow> recs H x = recs h x \<and> map_option parent (H x) = map_option parent (h x)"
    and "last_key H a = last_key h a" and "last_key H f = fst (last (take hh (records n)))"
proof -
  let ?rs = "records n"
  let ?ls = "take hh ?rs" and ?ds = "drop hh ?rs"
  have dist: "distinct (concat lv)" using shapeD(3) [OF s] .
  have ain: "a \<in> set (lv ! d)" using L by simp
  have dL: "distinct (xs @ a # ys)" using level_distinct [OF dist d] L by simp
  then have axs: "a \<notin> set xs" and ays: "a \<notin> set ys" by auto
  have Ha: "H a = Some (n\<lparr>records := ?ds, pre := Some f, parent := Some p\<rparr>)"
    and Hf: "H f = Some \<lparr>records = ?ls, is_leaf = is_leaf n, nxt = Some a, pre = pre n, parent = Some p\<rparr>"
    and Hx: "\<And>x. x \<noteq> a \<Longrightarrow> x \<noteq> f \<Longrightarrow> x \<noteq> p \<Longrightarrow>
           H x = (if Some x = pre n then map_option (\<lambda>y. y\<lparr>nxt := Some f\<rparr>) (h x)
                  else if Some x \<in> snd ` set ?ls then map_option (\<lambda>y. y\<lparr>parent := Some f\<rparr>) (h x)
                  else h x)"
    using v unfolding split_view_def by auto
  have nf: "\<And>i x. i < length lv \<Longrightarrow> x \<in> set (lv ! i) \<Longrightarrow> x \<noteq> f"
    using f(1) in_concat_level by metis
  have af: "a \<noteq> f" using nf [OF d ain] .
  have ap: "a \<noteq> p" using p(1) d ain by auto
  from shape_links [OF s d L] n
  have pre_n: "pre n = (if xs = [] then (if Suc d = length lv then Some m_header else None) else Some (last xs))"
    and nxt_n: "nxt n = (if ys = [] then (if Suc d = length lv then Some m_header else None) else Some (hd ys))"
    by auto
  have kid_level: "Suc d < length lv \<and> c \<in> set (lv ! Suc d)" if "Some c \<in> snd ` set ?rs" for c
    using shape_children [OF s d ain, of c] that n by simp
  have ls_sub: "snd ` set ?ls \<subseteq> snd ` set ?rs" by (meson image_mono set_take_subset)
  have ds_sub: "snd ` set ?ds \<subseteq> snd ` set ?rs" by (meson image_mono set_drop_subset)
  \<comment> \<open>nodes below the level of the split node\<close>
  have below: "map_option (\<lambda>n. (is_leaf n, records n)) (H x) = map_option (\<lambda>n. (is_leaf n, records n)) (h x)
      \<and> map_option (\<lambda>n. (pre n, nxt n)) (H x) = map_option (\<lambda>n. (pre n, nxt n)) (h x)
      \<and> (Some x \<notin> snd ` set ?ls \<longrightarrow> H x = h x)
      \<and> (Some x \<in> snd ` set ?ls \<longrightarrow> H x = map_option (\<lambda>y. y\<lparr>parent := Some f\<rparr>) (h x))"
    if i: "d < i" "i < length lv" and x: "x \<in> set (lv ! i)" for i x
  proof -
    have xa: "x \<noteq> a" using levels_disjoint [OF dist d i(2) _ ain] i(1) x by auto
    have xf: "x \<noteq> f" using nf [OF i(2) x] .
    have xp: "x \<noteq> p" using p(1) i x by auto
    have xh: "x \<noteq> m_header" using shape_header_notin [OF s i(2) x] .
    have "Some x \<noteq> pre n"
    proof
      assume e: "Some x = pre n"
      with pre_n xh have "xs \<noteq> []" "x = last xs" by (auto split: if_splits)
      then have "x \<in> set (lv ! d)" using L by simp
      with levels_disjoint [OF dist d i(2) _ this] i(1) x show False by auto
    qed
    with Hx [OF xa xf xp] show ?thesis by (cases "h x") auto
  qed
  \<comment> \<open>the other nodes of the level of the split node\<close>
  have beside: "recs H x = recs h x \<and> map_option parent (H x) = map_option parent (h x)
      \<and> map_option (\<lambda>n. (is_leaf n, records n)) (H x) = map_option (\<lambda>n. (is_leaf n, records n)) (h x)
      \<and> map_option pre (H x) = map_option pre (h x)
      \<and> (Some x \<noteq> pre n \<longrightarrow> H x = h x)
      \<and> (Some x = pre n \<longrightarrow> H x = map_option (\<lambda>y. y\<lparr>nxt := Some f\<rparr>) (h x))"
    if x: "x \<in> set xs \<union> set ys" for x
  proof -
    have xin: "x \<in> set (lv ! d)" using x L by auto
    have xa: "x \<noteq> a" using x axs ays by auto
    have xf: "x \<noteq> f" using nf [OF d xin] .
    have xp: "x \<noteq> p" using p(1) d xin by auto
    have "Some x \<notin> snd ` set ?ls"
    proof
      assume "Some x \<in> snd ` set ?ls"
      then have "Some x \<in> snd ` set ?rs" using ls_sub by auto
      from kid_level [OF this] levels_disjoint [OF dist d _ _ xin, of "Suc d"] show False by auto
    qed
    with Hx [OF xa xf xp] show ?thesis by (cases "h x") (auto simp: recs_def)
  qed
  show r_beside: "\<And>x. x \<in> set xs \<union> set ys \<Longrightarrow> recs H x = recs h x \<and> map_option parent (H x) = map_option parent (h x)"
    using beside by blast
  show r_below: "\<And>i x. d < i \<Longrightarrow> i < length lv \<Longrightarrow> x \<in> set (lv ! i) \<Longrightarrow> recs H x = recs h x"
    using below recs_cong by blast
  have ra: "recs H a = ?ds" using Ha by simp
  have rf: "recs H f = ?ls" using Hf by simp
  have lsne: "?ls \<noteq> []" and dsne: "?ds \<noteq> []" using hh by auto
  show "last_key H a = last_key h a" using ra n hh by (simp add: last_key_def)
  show "last_key H f = fst (last ?ls)" using rf by (simp add: last_key_def)
  have kx: "level_recs H xs = level_recs h xs" using beside by (intro level_recs_cong) blast
  have ky: "level_recs H ys = level_recs h ys" using beside by (intro level_recs_cong) blast
  have recsL': "level_recs H L' = level_recs h (lv ! d)"
    unfolding L L'_def using kx ky ra rf n by simp
  show "level_keys H L' = level_keys h (lv ! d)"
    using recsL' by (metis map_fst_level_recs)
  show "level_keys H (lv ! i) = level_keys h (lv ! i)" if "d < i" "i < length lv" for i
    using r_below [OF that] by (intro level_keys_cong) blast
  show "recs H x \<noteq> []" if "x \<in> set L'" for x
  proof -
    from that consider "x = a" | "x = f" | "x \<in> set xs \<union> set ys" unfolding L'_def by auto
    then show ?thesis
    proof cases
      case 3
      then have "x \<in> set (lv ! d)" using L by auto
      from shape_nonempty [OF s d this] beside [OF 3] show ?thesis by simp
    qed (use ra rf lsne dsne in auto)
  qed
  \<comment> \<open>the chain of the level\<close>
  have chainL': "chain H l r L'" if c: "chain h l r (lv ! d)" for l r
  proof -
    from c have c1: "chain h l (Some a) xs" and c2: "chain h (if xs = [] then l else Some (last xs)) r (a # ys)"
      unfolding L chain_mid by auto
    from chain_node [of h l r xs a ys] c L n
    have pn: "pre n = (if xs = [] then l else Some (last xs))" and nn: "nxt n = (if ys = [] then r else Some (hd ys))"
      by auto
    have lastxs: "Some (last xs) = pre n" if "xs \<noteq> []" using pn that by simp
    have p1: "chain H l (Some f) xs"
    proof (rule chain_change_end [OF c1])
      show "\<forall>x\<in>set (butlast xs). map_option (\<lambda>n. (pre n, nxt n)) (H x) = map_option (\<lambda>n. (pre n, nxt n)) (h x)"
      proof
        fix x assume x: "x \<in> set (butlast xs)"
        then have xin: "x \<in> set xs \<union> set ys" by (auto dest: in_set_butlastD)
        have "xs \<noteq> []" using x by auto
        have "x \<noteq> last xs"
          using dL x by (metis \<open>xs \<noteq> []\<close> append_butlast_last_id distinct_append distinct_last_notin_butlast)
        then have "Some x \<noteq> pre n" using lastxs [OF \<open>xs \<noteq> []\<close>, symmetric] by simp
        with beside [OF xin] show "map_option (\<lambda>n. (pre n, nxt n)) (H x) = map_option (\<lambda>n. (pre n, nxt n)) (h x)"
          by simp
      qed
      show "xs \<noteq> [] \<longrightarrow> (\<exists>n n'. h (last xs) = Some n \<and> H (last xs) = Some n' \<and> pre n' = pre n \<and> nxt n' = Some f)"
      proof
        assume ne: "xs \<noteq> []"
        then have xin: "last xs \<in> set xs \<union> set ys" by simp
        from chain_allocated [OF c1, of "last xs"] ne obtain m where m: "h (last xs) = Some m" by auto
        with beside [OF xin] lastxs [OF ne] show "\<exists>n n'. h (last xs) = Some n \<and> H (last xs) = Some n' \<and> pre n' = pre n \<and> nxt n' = Some f"
          by simp
      qed
    qed
    from c2 have c3: "chain h (Some a) r ys" unfolding chain_Cons by auto
    have p3: "chain H (Some a) r ys"
    proof -
      have "\<forall>x\<in>set ys. map_option (\<lambda>n. (pre n, nxt n)) (H x) = map_option (\<lambda>n. (pre n, nxt n)) (h x)"
      proof
        fix x assume x: "x \<in> set ys"
        have "Some x \<noteq> pre n"
        proof (cases "xs = []")
          case False
          then have "last xs \<in> set xs" by simp
          with dL x have "x \<noteq> last xs" by auto
          with pn False show ?thesis by simp
        next
          case True
          have "x \<in> set (lv ! d)" using x L by simp
          then have "x \<noteq> m_header" using shape_header_notin [OF s d] by blast
          with pre_n True show ?thesis by (auto split: if_splits)
        qed
        with beside [of x] x show "map_option (\<lambda>n. (pre n, nxt n)) (H x) = map_option (\<lambda>n. (pre n, nxt n)) (h x)"
          by simp
      qed
      from chain_cong [OF this] c3 show ?thesis by simp
    qed
    have "chain H (if xs = [] then l else Some (last xs)) r (f # a # ys)"
      unfolding chain_Cons [of H _ r f] chain_Cons [of H _ r a]
      using Hf Ha pn nn p3 by simp
    with p1 show ?thesis unfolding L'_def chain_mid by simp
  qed
  show "chain H None None L'" if "Suc d < length lv"
    using chainL' [OF shape_chain [OF s that]] .
  show "chain H None None (lv ! i)" if i: "d < i" "Suc i < length lv" for i
  proof -
    have "i < length lv" using i by simp
    then have "\<forall>x\<in>set (lv ! i). map_option (\<lambda>n. (pre n, nxt n)) (H x) = map_option (\<lambda>n. (pre n, nxt n)) (h x)"
      using below i(1) by blast
    from chain_cong [OF this] shape_chain [OF s i(2)] show ?thesis by simp
  qed
  show "chain H (Some m_header) (Some m_header) (if Suc d = length lv then L' else last lv)"
  proof (cases "Suc d = length lv")
    case True
    then have "lv ! d = last lv" by (rule nth_last)
    with chainL' [of "Some m_header" "Some m_header"] shapeD(8) [OF s] True show ?thesis by simp
  next
    case False
    let ?i = "length lv - 1"
    have i: "d < ?i" "?i < length lv" using False d by auto
    have ll: "last lv = lv ! ?i" using d by (metis last_conv_nth list.size(3) not_less_zero)
    have "\<forall>x\<in>set (lv ! ?i). map_option (\<lambda>n. (pre n, nxt n)) (H x) = map_option (\<lambda>n. (pre n, nxt n)) (h x)"
      using below [OF i] by blast
    from chain_cong [OF this] shapeD(8) [OF s] False ll show ?thesis by simp
  qed
  show "leaf_level H (if Suc d = length lv then L' else last lv)"
  proof (cases "Suc d = length lv")
    case True
    then have ll: "lv ! d = last lv" by (rule nth_last)
    have "\<exists>m. H x = Some m \<and> is_leaf m \<and> (\<forall>r\<in>set (records m). snd r = None)" if x: "x \<in> set L'" for x
    proof -
      from shape_leaf [OF s, of a] ain ll n have la: "is_leaf n" "\<forall>r\<in>set ?rs. snd r = None" by auto
      from x consider "x = a" | "x = f" | "x \<in> set xs \<union> set ys" unfolding L'_def by auto
      then show ?thesis
      proof cases
        case 1
        then show ?thesis using Ha la by (auto dest: in_set_dropD)
      next
        case 2
        then show ?thesis using Hf la by (auto dest: in_set_takeD)
      next
        case 3
        then have "x \<in> set (last lv)" using L ll by auto
        from shape_leaf [OF s this] obtain m where m: "h x = Some m" "is_leaf m" "\<forall>r\<in>set (records m). snd r = None"
          by auto
        from beside [OF 3] m obtain m' where "H x = Some m'" "is_leaf m' = is_leaf m" "records m' = records m"
          by (cases "H x") auto
        with m show ?thesis by simp
      qed
    qed
    then show ?thesis using True unfolding leaf_level_def by simp
  next
    case False
    let ?i = "length lv - 1"
    have i: "d < ?i" "?i < length lv" using False d by auto
    have ll: "last lv = lv ! ?i" using d by (metis last_conv_nth list.size(3) not_less_zero)
    have "\<forall>x\<in>set (last lv). map_option (\<lambda>n. (is_leaf n, records n)) (H x) = map_option (\<lambda>n. (is_leaf n, records n)) (h x)"
      using below [OF i] ll by simp
    from leaf_level_cong [OF this] shapeD(7) [OF s] False show ?thesis by simp
  qed
  show "\<exists>hn. H m_header = Some hn
              \<and> nxt hn = Some (hd (if Suc d = length lv then L' else last lv))
              \<and> pre hn = Some (last (if Suc d = length lv then L' else last lv))"
  proof -
    from shapeD(9) [OF s] obtain hn where hn: "h m_header = Some hn" "nxt hn = Some (hd (last lv))"
      "pre hn = Some (last (last lv))" by auto
    have ha: "m_header \<noteq> a" using shape_header_notin [OF s d ain] by simp
    have Hh: "H m_header = (if Some m_header = pre n then Some (hn\<lparr>nxt := Some f\<rparr>) else Some hn)"
    proof -
      have "Some m_header \<notin> snd ` set ?ls"
      proof
        assume "Some m_header \<in> snd ` set ?ls"
        then have "Some m_header \<in> snd ` set ?rs" using ls_sub by auto
        from kid_level [OF this] shape_header_notin [OF s, of "Suc d" m_header] show False by auto
      qed
      with Hx [of m_header] ha f(2) p(2) hn show ?thesis by auto
    qed
    show ?thesis
    proof (cases "Suc d = length lv")
      case True
      then have ll: "lv ! d = last lv" by (rule nth_last)
      show ?thesis
      proof (cases "xs = []")
        case True
        then have "Some m_header = pre n" using pre_n \<open>Suc d = length lv\<close> by simp
        then have "H m_header = Some (hn\<lparr>nxt := Some f\<rparr>)" using Hh by simp
        moreover have "last L' = last (last lv)" using L ll by (simp add: L'_def)
        moreover have "hd L' = f" using True by (simp add: L'_def)
        ultimately show ?thesis using hn \<open>Suc d = length lv\<close> by simp
      next
        case False
        then have "last xs \<in> set (lv ! d)" using L by simp
        then have "last xs \<noteq> m_header" using shape_header_notin [OF s d] by blast
        then have "Some m_header \<noteq> pre n" using pre_n False by auto
        then have "H m_header = Some hn" using Hh by simp
        moreover have "last L' = last (last lv)" using L ll by (simp add: L'_def)
        moreover have "hd L' = hd (last lv)" using False L ll by (simp add: L'_def)
        ultimately show ?thesis using hn \<open>Suc d = length lv\<close> by simp
      qed
    next
      case False
      have "Some m_header \<noteq> pre n"
      proof (cases "xs = []")
        case True
        then show ?thesis using pre_n False by simp
      next
        case False
        then have "last xs \<in> set (lv ! d)" using L by simp
        then have "last xs \<noteq> m_header" using shape_header_notin [OF s d] by blast
        then show ?thesis using pre_n False by auto
      qed
      then show ?thesis using Hh hn False by simp
    qed
  qed
  show "internal_level H None (lv ! i) (lv ! Suc i)" if i: "d < i" "Suc i < length lv" for i
  proof -
    have il: "i < length lv" using i by simp
    have 1: "\<forall>x\<in>set (lv ! i). map_option (\<lambda>n. (is_leaf n, records n)) (H x)
                         = map_option (\<lambda>n. (is_leaf n, records n)) (h x)"
      using below [OF i(1) il] by blast
    have 2: "\<forall>x\<in>set (lv ! Suc i). rep_key H None x = rep_key h None x
               \<and> map_option parent (H x) = map_option parent (h x)"
    proof
      fix x assume x: "x \<in> set (lv ! Suc i)"
      have di: "d < Suc i" using i by simp
      have "Some x \<notin> snd ` set ?ls"
      proof
        assume "Some x \<in> snd ` set ?ls"
        then have "Some x \<in> snd ` set ?rs" using ls_sub by auto
        from kid_level [OF this] have "x \<in> set (lv ! Suc d)" "Suc d < length lv" by auto
        from levels_disjoint [OF dist this(2) i(2) _ this(1)] i(1) x show False by auto
      qed
      with below [OF di i(2) x] have "H x = h x" by simp
      then show "rep_key H None x = rep_key h None x \<and> map_option parent (H x) = map_option parent (h x)"
        by (simp add: rep_key_def last_key_def recs_def)
    qed
    from internal_level_cong [OF 1 2] shape_internal [OF s i(2)] show ?thesis by simp
  qed
  show "internal_level H None L' (lv ! Suc d)" if Sd: "Suc d < length lv"
  proof -
    have il: "internal_level h None (lv ! d) (lv ! Suc d)" using shape_internal [OF s Sd] .
    from internal_level_node [OF il ain] n have nl: "\<not> is_leaf n" by simp
    have i1: "\<forall>x\<in>set L'. \<exists>m. H x = Some m \<and> \<not> is_leaf m"
    proof
      fix x assume "x \<in> set L'"
      then consider "x = a" | "x = f" | "x \<in> set xs \<union> set ys" unfolding L'_def by auto
      then show "\<exists>m. H x = Some m \<and> \<not> is_leaf m"
      proof cases
        case 3
        then have "x \<in> set (lv ! d)" using L by auto
        from internal_level_node [OF il this] obtain m where m: "h x = Some m" "\<not> is_leaf m" by auto
        from beside [OF 3] m obtain m' where "H x = Some m'" "is_leaf m' = is_leaf m"
          by (cases "H x") auto
        with m show ?thesis by simp
      qed (use Ha Hf nl in auto)
    qed
    have same_below: "recs H x = recs h x" if "x \<in> set (lv ! Suc d)" for x
      using r_below [OF _ Sd that] by simp
    have "map (\<lambda>c. (rep_key H None c, Some c)) (lv ! Suc d) = map (\<lambda>c. (rep_key h None c, Some c)) (lv ! Suc d)"
      using same_below by (intro map_cong refl) (simp add: rep_key_def last_key_def)
    then have i2: "level_recs H L' = map (\<lambda>c. (rep_key H None c, Some c)) (lv ! Suc d)"
      using recsL' internal_level_recs [OF il] by simp
    have kids_dist: "distinct (map snd ?rs)"
    proof -
      have "distinct (map snd (level_recs h (lv ! d)))"
        unfolding internal_level_recs [OF il]
        using level_distinct [OF dist Sd] by (simp add: o_def distinct_map inj_on_def)
      then show ?thesis unfolding L using n by simp
    qed
    have disj: "snd ` set ?ls \<inter> snd ` set ?ds = {}"
    proof -
      have "distinct (map snd ?ls @ map snd ?ds)"
        using kids_dist by (metis append_take_drop_id map_append)
      then show ?thesis by simp
    qed
    have i3: "\<forall>x\<in>set L'. \<forall>c. Some c \<in> set (kids_of H x) \<longrightarrow> (\<exists>m. H c = Some m \<and> parent m = Some x)"
    proof (intro ballI allI impI)
      fix x c assume x: "x \<in> set L'" and c: "Some c \<in> set (kids_of H x)"
      from x consider "x = a" | "x = f" | "x \<in> set xs \<union> set ys" unfolding L'_def by auto
      then show "\<exists>m. H c = Some m \<and> parent m = Some x"
      proof cases
        case 1
        then have cd: "Some c \<in> snd ` set ?ds" using c ra by (simp add: kids_of_def)
        then have "Some c \<in> snd ` set (recs h a)" using ds_sub n by auto
        from internal_level_parent [OF il ain this] obtain m where m: "h c = Some m" "parent m = Some a"
          by auto
        have "c \<in> set (lv ! Suc d)" using kid_level cd ds_sub by blast
        moreover have "Some c \<notin> snd ` set ?ls" using cd disj by auto
        ultimately have "H c = h c" using below [of "Suc d" c] Sd by simp
        with m 1 show ?thesis by simp
      next
        case 2
        then have cl: "Some c \<in> snd ` set ?ls" using c rf by (simp add: kids_of_def)
        then have cin: "c \<in> set (lv ! Suc d)" using kid_level ls_sub by blast
        from shape_allocated [OF s Sd cin] obtain m where "h c = Some m" by auto
        with below [of "Suc d" c] Sd cin cl 2 show ?thesis by simp
      next
        case 3
        then have xin: "x \<in> set (lv ! d)" using L by auto
        have ck: "Some c \<in> snd ` set (recs h x)" using c beside [OF 3] by (simp add: kids_of_def)
        from internal_level_parent [OF il xin this] obtain m where m: "h c = Some m" "parent m = Some x"
          by auto
        have cin: "c \<in> set (lv ! Suc d)" using shape_children [OF s d xin ck] by simp
        have "Some c \<notin> snd ` set ?ls"
        proof
          assume "Some c \<in> snd ` set ?ls"
          then have "Some c \<in> snd ` set (recs h a)" using ls_sub n by auto
          from internal_level_parent [OF il ain this] m have "x = a" by simp
          with 3 axs ays show False by auto
        qed
        with below [of "Suc d" c] Sd cin have "H c = h c" by simp
        with m show ?thesis by simp
      qed
    qed
    show ?thesis unfolding internal_level_def using i1 i2 i3 by blast
  qed
qed

lemma sorted_wrt_insert_mid:
  fixes A :: "'a::linorder list"
  assumes "sorted_wrt (<) (A @ b # B)" and "\<forall>x\<in>set A. x < k" and "k < b"
  shows "sorted_wrt (<) (A @ k # b # B)"
  using assms by (auto simp: sorted_wrt_append)

lemma concat_update:
  assumes "d < length lv"
  shows "concat (lv[d := L]) = concat (take d lv) @ L @ concat (drop (Suc d) lv)"
    and "concat lv = concat (take d lv) @ lv ! d @ concat (drop (Suc d) lv)"
proof -
  show "concat (lv[d := L]) = concat (take d lv) @ L @ concat (drop (Suc d) lv)"
    using assms by (simp add: upd_conv_take_nth_drop)
  have "concat lv = concat (take d lv @ lv ! d # drop (Suc d) lv)"
    using id_take_nth_drop [OF assms] by simp
  then show "concat lv = concat (take d lv) @ lv ! d @ concat (drop (Suc d) lv)" by simp
qed

lemma last_update:
  "d < length lv \<Longrightarrow> last (lv[d := L]) = (if Suc d = length lv then L else last lv)"
proof -
  assume d: "d < length lv"
  then have ne: "lv[d := L] \<noteq> []" "lv \<noteq> []" by auto
  have "last (lv[d := L]) = lv[d := L] ! (length lv - 1)" using last_conv_nth [OF ne(1)] by simp
  also have "\<dots> = (if Suc d = length lv then L else lv ! (length lv - 1))"
    using d by (auto simp: nth_list_update)
  also have "\<dots> = (if Suc d = length lv then L else last lv)" using last_conv_nth [OF ne(2)] by simp
  finally show ?thesis .
qed

lemma last_key_level_mem:
  "x \<in> set L \<Longrightarrow> recs h x \<noteq> [] \<Longrightarrow> last_key h x \<in> set (level_keys h L)"
proof -
  assume x: "x \<in> set L" and ne: "recs h x \<noteq> []"
  have "last (recs h x) \<in> set (recs h x)" using ne by simp
  then have "last_key h x \<in> set (keys_of h x)" by (simp add: last_key_def keys_of_def)
  moreover have "set (keys_of h x) \<subseteq> set (level_keys h L)" using x by (induction L) auto
  ultimately show ?thesis by blast
qed

lemma in_concat_levelD: "x \<in> set (concat lv) \<Longrightarrow> \<exists>i<length lv. x \<in> set (lv ! i)"
proof -
  assume "x \<in> set (concat lv)"
  then obtain M where "M \<in> set lv" "x \<in> set M" by auto
  then show ?thesis by (metis in_set_conv_nth)
qed

text \<open>A split below the root.\<close>

lemma split_shape_nonroot:
  fixes h :: "'k::linorder heap"
  assumes s: "shape h lv None" and d: "Suc e < length lv" and L: "lv ! Suc e = xs @ a # ys"
    and n: "h a = Some n" and v: "split_view h H a n f p hh"
    and hh: "0 < hh" "hh < length (records n)"
    and f: "f \<notin> set (concat lv)" "f \<noteq> m_header"
    and pn: "parent n = Some p" and hp: "h p = Some hp"
    and Hp: "H p = Some (hp\<lparr>records := set_insert (records hp) (fst (last (take hh (records n))), Some f)\<rparr>)"
  defines "lv' \<equiv> lv[Suc e := xs @ f # a # ys]"
  shows "shape H lv' None"
    and "level_keys H (last lv') = level_keys h (last lv)"
    and "p \<in> set (lv ! e)"
    and "length (recs H p) = Suc (length (recs h p))"
    and "recs H a = drop hh (records n)" and "recs H f = take hh (records n)"
    and "\<And>x. x \<in> set (concat lv) \<Longrightarrow> x \<noteq> a \<Longrightarrow> x \<noteq> p \<Longrightarrow> recs H x = recs h x"
proof -
  let ?L' = "xs @ f # a # ys"
  let ?ls = "take hh (records n)"
  let ?kl = "fst (last ?ls)"
  let ?g = "\<lambda>c. (rep_key h None c, Some c)"
  have len: "length lv' = length lv" by (simp add: lv'_def)
  have nth: "\<And>i. i < length lv \<Longrightarrow> lv' ! i = (if i = Suc e then ?L' else lv ! i)"
    by (simp add: lv'_def nth_list_update)
  have dist: "distinct (concat lv)" using shapeD(3) [OF s] .
  have ain: "a \<in> set (lv ! Suc e)" using L by simp
  have el: "e < length lv" using d by simp
  from shape_parent [OF s d L n] pn hp obtain ps qs R1 R2 where
    P: "lv ! e = ps @ p # qs" "\<not> is_leaf hp" "records hp = R1 @ ?g a # R2"
       "level_recs h ps @ R1 = map ?g xs" "R2 @ level_recs h qs = map ?g ys"
    by auto
  show pin: "p \<in> set (lv ! e)" using P(1) by simp
  have p_above: "\<forall>i. Suc e \<le> i \<and> i < length lv \<longrightarrow> p \<notin> set (lv ! i)"
    using levels_disjoint [OF dist el _ _ pin] by auto
  have ph: "p \<noteq> m_header" using shape_header_notin [OF s el pin] .
  have pf: "p \<noteq> f" using f(1) in_concat_level [OF el pin] by auto
  have pa: "p \<noteq> a" using p_above d ain by auto
  note low = split_lower [OF s d L n v hh f p_above ph pf]
  have Hx: "\<And>x. x \<noteq> a \<Longrightarrow> x \<noteq> f \<Longrightarrow> x \<noteq> p \<Longrightarrow>
           H x = (if Some x = pre n then map_option (\<lambda>y. y\<lparr>nxt := Some f\<rparr>) (h x)
                  else if Some x \<in> snd ` set ?ls then map_option (\<lambda>y. y\<lparr>parent := Some f\<rparr>) (h x)
                  else h x)"
    using v unfolding split_view_def by auto
  have Ha: "H a = Some (n\<lparr>records := drop hh (records n), pre := Some f, parent := Some p\<rparr>)"
    and Hf: "H f = Some \<lparr>records = ?ls, is_leaf = is_leaf n, nxt = Some a, pre = pre n, parent = Some p\<rparr>"
    using v unfolding split_view_def by auto
  show ra: "recs H a = drop hh (records n)" using Ha by simp
  show rf: "recs H f = ?ls" using Hf by simp
  from shape_links [OF s d L] n
  have pre_n: "pre n = (if xs = [] then (if Suc (Suc e) = length lv then Some m_header else None) else Some (last xs))"
    by auto
  have ls_sub: "snd ` set ?ls \<subseteq> snd ` set (records n)" by (meson image_mono set_take_subset)
  \<comment> \<open>nodes above the level of the split node, the parent excepted\<close>
  have above: "H x = h x" if i: "i \<le> e" and x: "x \<in> set (lv ! i)" and xp: "x \<noteq> p" for i x
  proof -
    have il: "i < length lv" using i d by simp
    have ne: "i \<noteq> Suc e" using i by simp
    have xa: "x \<noteq> a" using levels_disjoint [OF dist d il _ ain] ne x by auto
    have xf: "x \<noteq> f" using f(1) in_concat_level [OF il x] by auto
    have xh: "x \<noteq> m_header" using shape_header_notin [OF s il x] .
    have 1: "Some x \<noteq> pre n"
    proof
      assume "Some x = pre n"
      with pre_n xh have "xs \<noteq> []" "x = last xs" by (auto split: if_splits)
      then have "x \<in> set (lv ! Suc e)" using L by simp
      with levels_disjoint [OF dist d il _ this] ne x show False by auto
    qed
    have 2: "Some x \<notin> snd ` set ?ls"
    proof
      assume "Some x \<in> snd ` set ?ls"
      then have "Some x \<in> snd ` set (recs h a)" using ls_sub n by auto
      from shape_children [OF s d ain this] levels_disjoint [OF dist _ il _, of "Suc (Suc e)" x] i
      show False using x by auto
    qed
    from Hx [OF xa xf xp] 1 2 show ?thesis by simp
  qed
  \<comment> \<open>the records of the parent\<close>
  have sorted_d: "sorted_wrt (<) (level_keys h (lv ! Suc e))" using shape_sorted [OF s d] .
  have ne_d: "\<And>x. x \<in> set (lv ! Suc e) \<Longrightarrow> recs h x \<noteq> []" using shape_nonempty [OF s d] .
  have lsne: "?ls \<noteq> []" using hh by auto
  have kl_in: "?kl \<in> set (keys_of h a)"
  proof -
    have "last ?ls \<in> set ?ls" using lsne by simp
    then have "last ?ls \<in> set (records n)" by (rule in_set_takeD)
    then show ?thesis using n by (simp add: keys_of_def)
  qed
  have sa: "sorted_wrt (<) (map fst (records n))" using node_keys_sorted [OF s d ain] n by simp
  have kl_lt: "?kl < last_key h a"
  proof -
    have "last ?ls = ?ls ! (length ?ls - 1)" using lsne by (rule last_conv_nth)
    also have "\<dots> = records n ! (hh - 1)" using hh by (simp add: min_def)
    finally have 1: "?kl = fst (records n ! (hh - 1))" by simp
    have "records n \<noteq> []" using hh by auto
    then have 2: "last_key h a = fst (records n ! (length (records n) - 1))"
      using n by (simp add: last_key_def last_conv_nth)
    have "map fst (records n) ! (hh - 1) < map fst (records n) ! (length (records n) - 1)"
      using sorted_wrt_nth_less [OF sa, of "hh - 1" "length (records n) - 1"] hh by simp
    then show ?thesis using 1 2 hh by simp
  qed
  have xs_lt: "last_key h x < ?kl" if "x \<in> set xs" for x
  proof -
    have "x \<in> set (lv ! Suc e)" using that L by simp
    from ne_d [OF this] have "last_key h x \<in> set (level_keys h xs)" using that by (intro last_key_level_mem)
    with sorted_d kl_in show ?thesis unfolding L by (auto simp: sorted_wrt_append)
  qed
  have R1_lt: "\<forall>r\<in>set R1. fst r < ?kl"
  proof
    fix r assume "r \<in> set R1"
    then have "r \<in> set (map ?g xs)" using P(4) by (metis Un_iff set_append)
    then obtain x where "x \<in> set xs" "r = ?g x" by auto
    with xs_lt show "fst r < ?kl" by (simp add: rep_key_def)
  qed
  have rp: "recs H p = R1 @ (?kl, Some f) # ?g a # R2"
    using Hp P(3) set_insert_between [OF R1_lt, of "?g a" R2 "Some f"] kl_lt by (simp add: rep_key_def)
  show "length (recs H p) = Suc (length (recs h p))" using rp hp P(3) by simp
  have lkp: "last_key H p = last_key h p" using rp hp P(3) by (simp add: last_key_def)
  have rep_a: "rep_key H None a = rep_key h None a" using low(13) by (simp add: rep_key_def)
  have rep_f: "rep_key H None f = ?kl" using low(14) by (simp add: rep_key_def)
  have rep_side: "rep_key H None x = rep_key h None x" if "x \<in> set xs \<union> set ys" for x
    using low(12) [OF that] by (simp add: rep_key_def last_key_def)
  have recs_e: "level_recs H (lv ! e) = map (\<lambda>c. (rep_key H None c, Some c)) ?L'"
  proof -
    have "level_recs H ps = level_recs h ps"
    proof (intro level_recs_cong ballI)
      fix x assume x: "x \<in> set ps"
      then have "x \<in> set (lv ! e)" using P(1) by simp
      moreover have "x \<noteq> p" using level_distinct [OF dist el] P(1) x by auto
      ultimately show "recs H x = recs h x" using above [of e x] by (simp add: recs_def)
    qed
    moreover have "level_recs H qs = level_recs h qs"
    proof (intro level_recs_cong ballI)
      fix x assume x: "x \<in> set qs"
      then have "x \<in> set (lv ! e)" using P(1) by simp
      moreover have "x \<noteq> p" using level_distinct [OF dist el] P(1) x by auto
      ultimately show "recs H x = recs h x" using above [of e x] by (simp add: recs_def)
    qed
    ultimately have "level_recs H (lv ! e) = (level_recs h ps @ R1) @ (?kl, Some f) # ?g a # (R2 @ level_recs h qs)"
      unfolding P(1) using rp by simp
    also have "\<dots> = map ?g xs @ (?kl, Some f) # ?g a # map ?g ys" unfolding P(4,5) ..
    also have "\<dots> = map (\<lambda>c. (rep_key H None c, Some c)) ?L'"
      using rep_a rep_f rep_side by simp
    finally show ?thesis .
  qed
  have il_e: "internal_level H None (lv ! e) ?L'"
  proof -
    have il: "internal_level h None (lv ! e) (lv ! Suc e)" using shape_internal [OF s d] .
    have 1: "\<forall>x\<in>set (lv ! e). \<exists>m. H x = Some m \<and> \<not> is_leaf m"
    proof
      fix x assume x: "x \<in> set (lv ! e)"
      show "\<exists>m. H x = Some m \<and> \<not> is_leaf m"
      proof (cases "x = p")
        case True
        then show ?thesis using Hp P(2) by simp
      next
        case False
        with above [of e x] x internal_level_node [OF il x] show ?thesis by simp
      qed
    qed
    have 3: "\<forall>x\<in>set (lv ! e). \<forall>c. Some c \<in> set (kids_of H x) \<longrightarrow> (\<exists>m. H c = Some m \<and> parent m = Some x)"
    proof (intro ballI allI impI)
      fix x c assume x: "x \<in> set (lv ! e)" and c: "Some c \<in> set (kids_of H x)"
      show "\<exists>m. H c = Some m \<and> parent m = Some x"
      proof (cases "x = p")
        case True
        from c True rp have "c = f \<or> c = a \<or> Some c \<in> snd ` set (recs h p)"
          using hp P(3) by (auto simp: kids_of_def)
        then consider "c = f" | "c = a" | "c \<noteq> f" "c \<noteq> a" "Some c \<in> snd ` set (recs h p)" by blast
        then show ?thesis
        proof cases
          case 3
          from internal_level_parent [OF il pin 3(3)] obtain m where m: "h c = Some m" "parent m = Some p"
            by auto
          have cin: "c \<in> set (lv ! Suc e)" using shape_children [OF s el pin 3(3)] by simp
          then have "c \<in> set xs \<union> set ys" using L 3 by auto
          from low(12) [OF this] m True show ?thesis by (cases "H c") auto
        qed (use Ha Hf True in auto)
      next
        case False
        then have Hxx: "H x = h x" using above [of e x] x by simp
        then have ck: "Some c \<in> snd ` set (recs h x)" using c by (simp add: kids_of_def recs_def)
        from internal_level_parent [OF il x ck] obtain m where m: "h c = Some m" "parent m = Some x"
          by auto
        have cin: "c \<in> set (lv ! Suc e)" using shape_children [OF s el x ck] by simp
        have "c \<noteq> a" using m n pn False by auto
        then have "c \<in> set xs \<union> set ys" using L cin by auto
        from low(12) [OF this] m show ?thesis by (cases "H c") auto
      qed
    qed
    show ?thesis unfolding internal_level_def using 1 recs_e 3 by blast
  qed
  have views_p: "map_option (\<lambda>n. (pre n, nxt n)) (H x) = map_option (\<lambda>n. (pre n, nxt n)) (h x)
      \<and> map_option parent (H x) = map_option parent (h x) \<and> last_key H x = last_key h x
      \<and> (x \<noteq> p \<longrightarrow> H x = h x)"
    if "i \<le> e" "x \<in> set (lv ! i)" for i x
  proof (cases "x = p")
    case True
    then show ?thesis using Hp hp lkp by simp
  next
    case False
    with above [OF that] show ?thesis by (simp add: last_key_def recs_def)
  qed
  show "recs H x = recs h x" if x: "x \<in> set (concat lv)" "x \<noteq> a" "x \<noteq> p" for x
  proof -
    from in_concat_levelD [OF x(1)] obtain i where i: "i < length lv" "x \<in> set (lv ! i)"
      by blast
    consider "i \<le> e" | "i = Suc e" | "Suc e < i" by linarith
    then show ?thesis
    proof cases
      case 1
      with above [OF 1 i(2) x(3)] show ?thesis by (simp add: recs_def)
    next
      case 2
      with i L x(2) have "x \<in> set xs \<union> set ys" by auto
      from low(12) [OF this] show ?thesis by simp
    next
      case 3
      from low(11) [OF 3 i] show ?thesis .
    qed
  qed
  have last': "last lv' = (if Suc (Suc e) = length lv then ?L' else last lv)"
    unfolding lv'_def using d by (rule last_update)
  show "level_keys H (last lv') = level_keys h (last lv)"
  proof (cases "Suc (Suc e) = length lv")
    case True
    then show ?thesis using last' low(8) nth_last [OF True] by simp
  next
    case False
    let ?i = "length lv - 1"
    have "Suc e < ?i" "?i < length lv" using False d by auto
    moreover have "lv \<noteq> []" using d by auto
    then have "last lv = lv ! ?i" by (rule last_conv_nth)
    ultimately show ?thesis using low(9) [of ?i] last' False by simp
  qed
  show "shape H lv' None"
  proof (rule shapeI)
    show "lv' \<noteq> []" using len d by auto
    show "\<forall>L\<in>set lv'. L \<noteq> []"
    proof
      fix M assume "M \<in> set lv'"
      then have "M = ?L' \<or> M \<in> set lv" unfolding lv'_def using set_update_subset_insert [of lv "Suc e" ?L'] by auto
      then show "M \<noteq> []" using shapeD(2) [OF s] by auto
    qed
    have c1: "concat lv' = concat (take (Suc e) lv) @ ?L' @ concat (drop (Suc (Suc e)) lv)"
      unfolding lv'_def by (rule concat_update(1) [OF d])
    have c2: "concat lv = concat (take (Suc e) lv) @ (xs @ a # ys) @ concat (drop (Suc (Suc e)) lv)"
      using concat_update(2) [OF d] L by simp
    show "distinct (concat lv')" using dist f(1) unfolding c1 c2 by auto
    show "m_header \<notin> set (concat lv')" using shapeD(4) [OF s] f(2) unfolding c1 c2 by auto
    show "\<exists>r n. hd lv' = [r] \<and> H r = Some n \<and> parent n = None"
    proof -
      from shapeD(5) [OF s] obtain r rn where r: "hd lv = [r]" "h r = Some rn" "parent rn = None" by auto
      have "lv \<noteq> []" "lv' \<noteq> []" using d len by auto
      then have h0: "hd lv = lv ! 0" "hd lv' = lv' ! 0" by (simp_all add: hd_conv_nth)
      moreover have "lv' ! 0 = lv ! 0" unfolding lv'_def by simp
      ultimately have "hd lv' = [r]" using r by simp
      moreover have "r \<in> set (lv ! 0)" using r h0 by simp
      from views_p [OF _ this] r have "\<exists>m. H r = Some m \<and> parent m = None" by (cases "H r") auto
      ultimately show ?thesis by blast
    qed
    show "internal_level H None (lv' ! i) (lv' ! Suc i)" if "Suc i < length lv'" for i
    proof -
      have i: "Suc i < length lv" using that len by simp
      consider "Suc i < e" | "Suc i = e" | "i = e" | "i = Suc e" | "Suc e < i" by linarith
      then show ?thesis
      proof cases
        case 1
        have "internal_level H None (lv ! i) (lv ! Suc i) = internal_level h None (lv ! i) (lv ! Suc i)"
        proof (rule internal_level_cong)
          show "\<forall>x\<in>set (lv ! i). map_option (\<lambda>n. (is_leaf n, records n)) (H x) = map_option (\<lambda>n. (is_leaf n, records n)) (h x)"
          proof
            fix x assume x: "x \<in> set (lv ! i)"
            have "x \<noteq> p" using levels_disjoint [OF dist el _ _ pin, of i] i 1 x by auto
            with above [of i x] x 1 show "map_option (\<lambda>n. (is_leaf n, records n)) (H x) = map_option (\<lambda>n. (is_leaf n, records n)) (h x)"
              by simp
          qed
          show "\<forall>c\<in>set (lv ! Suc i). rep_key H None c = rep_key h None c \<and> map_option parent (H c) = map_option parent (h c)"
            using views_p [of "Suc i"] 1 by (simp add: rep_key_def)
        qed
        with shape_internal [OF s i] nth [of i] nth [of "Suc i"] i 1 show ?thesis by simp
      next
        case 2
        have "internal_level H None (lv ! i) (lv ! Suc i) = internal_level h None (lv ! i) (lv ! Suc i)"
        proof (rule internal_level_cong)
          show "\<forall>x\<in>set (lv ! i). map_option (\<lambda>n. (is_leaf n, records n)) (H x) = map_option (\<lambda>n. (is_leaf n, records n)) (h x)"
          proof
            fix x assume x: "x \<in> set (lv ! i)"
            have "x \<noteq> p" using levels_disjoint [OF dist el _ _ pin, of i] i 2 x by auto
            with above [of i x] x 2 show "map_option (\<lambda>n. (is_leaf n, records n)) (H x) = map_option (\<lambda>n. (is_leaf n, records n)) (h x)"
              by simp
          qed
          show "\<forall>c\<in>set (lv ! Suc i). rep_key H None c = rep_key h None c \<and> map_option parent (H c) = map_option parent (h c)"
            using views_p [of "Suc i"] 2 by (simp add: rep_key_def)
        qed
        with shape_internal [OF s i] nth [of i] nth [of "Suc i"] i 2 show ?thesis by simp
      next
        case 3
        then show ?thesis using il_e nth [of i] nth [of "Suc i"] i by simp
      next
        case 4
        then show ?thesis using low(1) nth [of i] nth [of "Suc i"] i by simp
      next
        case 5
        then show ?thesis using low(3) [OF 5 i] nth [of i] nth [of "Suc i"] i by simp
      qed
    qed
    show "chain H None None (lv' ! i)" if "Suc i < length lv'" for i
    proof -
      have i: "Suc i < length lv" using that len by simp
      consider "i \<le> e" | "i = Suc e" | "Suc e < i" by linarith
      then show ?thesis
      proof cases
        case 1
        have "\<forall>x\<in>set (lv ! i). map_option (\<lambda>n. (pre n, nxt n)) (H x) = map_option (\<lambda>n. (pre n, nxt n)) (h x)"
          using views_p [OF 1] by blast
        from chain_cong [OF this] shape_chain [OF s i] nth [of i] i 1 show ?thesis by simp
      next
        case 2
        then show ?thesis using low(2) nth [of i] i by simp
      next
        case 3
        then show ?thesis using low(4) [OF 3 i] nth [of i] i by simp
      qed
    qed
    show "leaf_level H (last lv')" using low(5) last' by simp
    show "chain H (Some m_header) (Some m_header) (last lv')" using low(6) last' by simp
    show "\<exists>hn. H m_header = Some hn \<and> nxt hn = Some (hd (last lv')) \<and> pre hn = Some (last (last lv'))"
      using low(7) last' by simp
    show "sorted_wrt (<) (level_keys H (lv' ! i))" if "i < length lv'" for i
    proof -
      have i: "i < length lv" using that len by simp
      consider "i < e" | "i = e" | "i = Suc e" | "Suc e < i" by linarith
      then show ?thesis
      proof cases
        case 1
        have "level_keys H (lv ! i) = level_keys h (lv ! i)"
        proof (intro level_keys_cong ballI)
          fix x assume x: "x \<in> set (lv ! i)"
          have "x \<noteq> p" using levels_disjoint [OF dist el _ _ pin, of i] i 1 x by auto
          with above [of i x] x 1 show "recs H x = recs h x" by (simp add: recs_def)
        qed
        with shape_sorted [OF s i] nth [OF i] 1 show ?thesis by simp
      next
        case 2
        have "level_keys H (lv ! e) = map (rep_key H None) ?L'"
          using il_e by (rule internal_level_keys)
        also have "\<dots> = map (rep_key h None) xs @ ?kl # rep_key h None a # map (rep_key h None) ys"
          using rep_a rep_f rep_side by simp
        finally have eq: "level_keys H (lv ! e) = map (rep_key h None) xs @ ?kl # rep_key h None a # map (rep_key h None) ys" .
        have "sorted_wrt (<) (map (rep_key h None) xs @ rep_key h None a # map (rep_key h None) ys)"
          using shape_sorted [OF s el] internal_level_keys [OF shape_internal [OF s d]] L by simp
        then have "sorted_wrt (<) (map (rep_key h None) xs @ ?kl # rep_key h None a # map (rep_key h None) ys)"
          using xs_lt kl_lt by (intro sorted_wrt_insert_mid) (auto simp: rep_key_def)
        with eq nth [OF i] 2 show ?thesis by simp
      next
        case 3
        then show ?thesis using low(8) shape_sorted [OF s d] nth [OF i] by simp
      next
        case 4
        then show ?thesis using low(9) [OF 4 i] shape_sorted [OF s i] nth [OF i] by simp
      qed
    qed
    show "recs H x \<noteq> []" if "i < length lv'" "x \<in> set (lv' ! i)" for i x
    proof -
      have i: "i < length lv" using that len by simp
      consider "i \<le> e" | "i = Suc e" | "Suc e < i" by linarith
      then show ?thesis
      proof cases
        case 1
        then have x: "x \<in> set (lv ! i)" using that(2) nth [OF i] by simp
        show ?thesis
        proof (cases "x = p")
          case True
          then show ?thesis using rp by simp
        next
          case False
          with above [OF 1 x] shape_nonempty [OF s i x] show ?thesis by (simp add: recs_def)
        qed
      next
        case 2
        then show ?thesis using low(10) [of x] that(2) nth [OF i] by simp
      next
        case 3
        then have x: "x \<in> set (lv ! i)" using that(2) nth [OF i] by simp
        from low(11) [OF 3 i x] shape_nonempty [OF s i x] show ?thesis by simp
      qed
    qed
  qed
qed

text \<open>A split of the root: the tree grows by a level.\<close>

lemma split_shape_root:
  fixes h :: "'k::linorder heap"
  assumes s: "shape h lv None" and L: "hd lv = [a]"
    and n: "h a = Some n" and v: "split_view h H a n f p hh"
    and hh: "0 < hh" "hh < length (records n)"
    and f: "f \<notin> set (concat lv)" "f \<noteq> m_header"
    and p: "p \<notin> set (concat lv)" "p \<noteq> m_header" "p \<noteq> f"
    and Hp: "H p = Some \<lparr>records = set_insert (set_insert [] (fst (last (drop hh (records n))), Some a))
                                    (fst (last (take hh (records n))), Some f),
                          is_leaf = False, nxt = None, pre = None, parent = None\<rparr>"
  defines "lv' \<equiv> [p] # lv[0 := [f, a]]"
  shows "shape H lv' None"
    and "level_keys H (last lv') = level_keys h (last lv)"
    and "length (recs H p) = 2"
    and "recs H a = drop hh (records n)" and "recs H f = take hh (records n)"
    and "\<And>x. x \<in> set (concat lv) \<Longrightarrow> x \<noteq> a \<Longrightarrow> recs H x = recs h x"
proof -
  let ?L' = "[f, a]"
  let ?ls = "take hh (records n)"
  let ?kl = "fst (last ?ls)"
  have lvne: "lv \<noteq> []" using shapeD(1) [OF s] .
  then have d: "0 < length lv" by simp
  have L0: "lv ! 0 = [] @ a # []" using L lvne by (simp add: hd_conv_nth)
  have len: "length lv' = Suc (length lv)" by (simp add: lv'_def)
  have nth0: "lv' ! 0 = [p]" by (simp add: lv'_def)
  have nth1: "lv' ! Suc 0 = ?L'" using d by (simp add: lv'_def)
  have nthS: "\<And>i. lv' ! Suc (Suc i) = lv ! Suc i" by (simp add: lv'_def)
  have dist: "distinct (concat lv)" using shapeD(3) [OF s] .
  have p_above: "\<forall>i. 0 \<le> i \<and> i < length lv \<longrightarrow> p \<notin> set (lv ! i)"
    using p(1) in_concat_level by metis
  note low = split_lower [OF s d L0 n v hh f p_above p(2,3), simplified]
  have Ha: "H a = Some (n\<lparr>records := drop hh (records n), pre := Some f, parent := Some p\<rparr>)"
    and Hf: "H f = Some \<lparr>records = ?ls, is_leaf = is_leaf n, nxt = Some a, pre = pre n, parent = Some p\<rparr>"
    using v unfolding split_view_def by auto
  show ra: "recs H a = drop hh (records n)" using Ha by simp
  show rf: "recs H f = ?ls" using Hf by simp
  have ain: "a \<in> set (lv ! 0)" using L0 by simp
  have sa: "sorted_wrt (<) (map fst (records n))" using node_keys_sorted [OF s d ain] n by simp
  have lsne: "?ls \<noteq> []" using hh by auto
  have rne: "records n \<noteq> []" using hh by auto
  have ld: "last (drop hh (records n)) = last (records n)" using hh by simp
  have kl_lt: "?kl < fst (last (records n))"
  proof -
    have "last ?ls = ?ls ! (length ?ls - 1)" using lsne by (rule last_conv_nth)
    also have "\<dots> = records n ! (hh - 1)" using hh by (simp add: min_def)
    finally have 1: "?kl = fst (records n ! (hh - 1))" by simp
    have 2: "fst (last (records n)) = fst (records n ! (length (records n) - 1))"
      using rne by (simp add: last_conv_nth)
    have "map fst (records n) ! (hh - 1) < map fst (records n) ! (length (records n) - 1)"
      using sorted_wrt_nth_less [OF sa, of "hh - 1" "length (records n) - 1"] hh by simp
    then show ?thesis using 1 2 hh by simp
  qed
  have rp: "recs H p = [(?kl, Some f), (fst (last (records n)), Some a)]"
    using Hp ld kl_lt by (simp add: set_insert_Nil set_insert_front)
  show "length (recs H p) = 2" using rp by simp
  have lka: "last_key H a = fst (last (records n))" using low(13) n by (simp add: last_key_def)
  show same: "recs H x = recs h x" if x: "x \<in> set (concat lv)" "x \<noteq> a" for x
  proof -
    from in_concat_levelD [OF x(1)] obtain i where i: "i < length lv" "x \<in> set (lv ! i)"
      by blast
    have "i \<noteq> 0" using i x(2) L0 by (cases i) auto
    then show ?thesis using low(11) [of i x] i by simp
  qed
  have last': "last lv' = (if Suc 0 = length lv then ?L' else last lv)"
    unfolding lv'_def using last_update [OF d, of ?L'] lvne by simp
  show "level_keys H (last lv') = level_keys h (last lv)"
  proof (cases "Suc 0 = length lv")
    case True
    then show ?thesis using last' low(8) nth_last [of 0 lv] by simp
  next
    case False
    let ?i = "length lv - 1"
    have "0 < ?i" "?i < length lv" using False d by linarith+
    moreover have "last lv = lv ! ?i" using lvne by (rule last_conv_nth)
    ultimately show ?thesis using low(9) [of ?i] last' False by simp
  qed
  show "shape H lv' None"
  proof (rule shapeI)
    show "lv' \<noteq> []" by (simp add: lv'_def)
    show "\<forall>L\<in>set lv'. L \<noteq> []"
    proof
      fix M assume "M \<in> set lv'"
      then have "M = [p] \<or> M = ?L' \<or> M \<in> set lv"
        unfolding lv'_def using set_update_subset_insert [of lv 0 ?L'] by auto
      then show "M \<noteq> []" using shapeD(2) [OF s] by auto
    qed
    have c1: "concat lv' = p # ?L' @ concat (drop (Suc 0) lv)"
      unfolding lv'_def using concat_update(1) [OF d, of ?L'] by simp
    have c2: "concat lv = [a] @ concat (drop (Suc 0) lv)"
      using concat_update(2) [OF d] L0 by simp
    show "distinct (concat lv')" using dist f(1) p(1,3) unfolding c1 c2 by auto
    show "m_header \<notin> set (concat lv')" using shapeD(4) [OF s] f(2) p(2) unfolding c1 c2 by auto
    show "\<exists>r n. hd lv' = [r] \<and> H r = Some n \<and> parent n = None"
      using Hp by (simp add: lv'_def)
    show "internal_level H None (lv' ! i) (lv' ! Suc i)" if "Suc i < length lv'" for i
    proof (cases i)
      case 0
      have "internal_level H None [p] ?L'"
        unfolding internal_level_def using Hp Ha Hf rp low(13,14) lka
        by (simp add: rep_key_def kids_of_def)
      then show ?thesis using 0 nth0 nth1 by simp
    next
      case (Suc j)
      then have j: "Suc j < length lv" using that len by simp
      show ?thesis
      proof (cases j)
        case 0
        then show ?thesis using low(1) j Suc nth1 nthS [of 0] by simp
      next
        case (Suc j')
        then have "0 < j" by simp
        from low(3) [OF this j] show ?thesis using \<open>i = Suc j\<close> nthS [of j'] nthS [of j] Suc by simp
      qed
    qed
    show "chain H None None (lv' ! i)" if "Suc i < length lv'" for i
    proof (cases i)
      case 0
      then show ?thesis using nth0 Hp by simp
    next
      case (Suc j)
      then have j: "Suc j < length lv" using that len by simp
      show ?thesis
      proof (cases j)
        case 0
        then show ?thesis using low(2) j Suc nth1 by simp
      next
        case (Suc j')
        then have "0 < j" by simp
        from low(4) [OF this j] show ?thesis using \<open>i = Suc j\<close> nthS [of j'] Suc by simp
      qed
    qed
    show "leaf_level H (last lv')" using low(5) last' by (simp split: if_splits)
    show "chain H (Some m_header) (Some m_header) (last lv')" using low(6) last' by (simp split: if_splits)
    show "\<exists>hn. H m_header = Some hn \<and> nxt hn = Some (hd (last lv')) \<and> pre hn = Some (last (last lv'))"
      using low(7) last' by (simp split: if_splits)
    show "sorted_wrt (<) (level_keys H (lv' ! i))" if "i < length lv'" for i
    proof (cases i)
      case 0
      then show ?thesis using nth0 rp kl_lt by (simp add: keys_of_def)
    next
      case (Suc j)
      then have j: "j < length lv" using that len by simp
      show ?thesis
      proof (cases j)
        case 0
        then show ?thesis using low(8) shape_sorted [OF s d] Suc nth1 by simp
      next
        case (Suc j')
        then have "0 < j" by simp
        from low(9) [OF this j] shape_sorted [OF s j] show ?thesis using \<open>i = Suc j\<close> nthS [of j'] Suc by simp
      qed
    qed
    show "recs H x \<noteq> []" if "i < length lv'" "x \<in> set (lv' ! i)" for i x
    proof (cases i)
      case 0
      then show ?thesis using that(2) nth0 rp by simp
    next
      case (Suc j)
      then have j: "j < length lv" using that len by simp
      show ?thesis
      proof (cases j)
        case 0
        then show ?thesis using low(10) [of x] that(2) Suc nth1 by simp
      next
        case (Suc j')
        then have j0: "0 < j" by simp
        have x: "x \<in> set (lv ! j)" using that(2) \<open>i = Suc j\<close> nthS [of j'] Suc by simp
        from low(11) [OF j0 j x] shape_nonempty [OF s j x] show ?thesis by simp
      qed
    qed
  qed
qed

lemma half_order_bounds:
  assumes "1 \<le> m"
  shows "0 < half_order m" and "half_order m \<le> m" and "half_order m < Suc m"
    and "half_order m \<le> Suc m - half_order m" and "Suc m - half_order m \<le> m"
  using assms unfolding half_order_def by linarith+

text \<open>The side conditions of a split follow from the shape.\<close>

lemma split_pre:
  fixes t :: "'k::linorder bplustree"
  assumes s: "shape (heap t) lv None" and fr: "m_header < fresh t" "\<forall>a\<in>set (concat lv). a < fresh t"
    and d: "d < length lv" and a: "a \<in> set (lv ! d)" and n: "heap t a = Some n"
    and p: "\<forall>i. d \<le> i \<and> i < length lv \<longrightarrow> p \<notin> set (lv ! i)" "p \<noteq> m_header"
  shows "a \<noteq> fresh t" and "sorted_wrt (<) (map fst (records n))"
    and "\<forall>c. Some c \<in> snd ` set (take hh (records n)) \<longrightarrow>
               c \<noteq> a \<and> c \<noteq> fresh t \<and> heap t c \<noteq> None \<and> c \<noteq> p \<and> Some c \<noteq> pre n"
    and "\<forall>q. pre n = Some q \<longrightarrow> heap t q \<noteq> None \<and> q \<noteq> a \<and> q \<noteq> fresh t \<and> q \<noteq> p"
    and "fresh t \<notin> set (concat lv)" and "fresh t \<noteq> m_header"
    and "Suc (fresh t) \<notin> set (concat lv)" and "Suc (fresh t) \<noteq> m_header"
proof -
  let ?h = "heap t"
  have dist: "distinct (concat lv)" using shapeD(3) [OF s] .
  have ac: "a \<in> set (concat lv)" using in_concat_level [OF d a] .
  show af: "a \<noteq> fresh t" using fr(2) ac by auto
  show "sorted_wrt (<) (map fst (records n))" using node_keys_sorted [OF s d a] n by simp
  show "fresh t \<notin> set (concat lv)" using fr(2) by auto
  show "Suc (fresh t) \<notin> set (concat lv)"
  proof
    assume "Suc (fresh t) \<in> set (concat lv)"
    with fr(2) have "Suc (fresh t) < fresh t" by blast
    then show False by simp
  qed
  show "fresh t \<noteq> m_header" "Suc (fresh t) \<noteq> m_header" using fr(1) by auto
  from a obtain xs ys where L: "lv ! d = xs @ a # ys" by (meson split_list)
  from shape_links [OF s d L] n
  have pre_n: "pre n = (if xs = [] then (if Suc d = length lv then Some m_header else None) else Some (last xs))"
    by auto
  have pre_cases: "q = m_header \<or> (q \<in> set (lv ! d) \<and> q \<noteq> a)" if "pre n = Some q" for q
  proof (cases "xs = []")
    case True
    with pre_n that show ?thesis by (auto split: if_splits)
  next
    case False
    then have "q = last xs" "last xs \<in> set xs" using pre_n that by auto
    moreover have "distinct (xs @ a # ys)" using level_distinct [OF dist d] L by simp
    ultimately show ?thesis using L by auto
  qed
  have hdr: "?h m_header \<noteq> None" using shapeD(9) [OF s] by auto
  show "\<forall>q. pre n = Some q \<longrightarrow> ?h q \<noteq> None \<and> q \<noteq> a \<and> q \<noteq> fresh t \<and> q \<noteq> p"
  proof (intro allI impI)
    fix q assume "pre n = Some q"
    from pre_cases [OF this] show "?h q \<noteq> None \<and> q \<noteq> a \<and> q \<noteq> fresh t \<and> q \<noteq> p"
    proof
      assume "q = m_header"
      then show ?thesis using hdr fr(1) p(2) shape_header_notin [OF s d a] by auto
    next
      assume q: "q \<in> set (lv ! d) \<and> q \<noteq> a"
      then have "q \<in> set (concat lv)" using in_concat_level [OF d] by blast
      then show ?thesis using q shape_allocated [OF s d, of q] fr(2) p(1) d by auto
    qed
  qed
  show "\<forall>c. Some c \<in> snd ` set (take hh (records n)) \<longrightarrow>
               c \<noteq> a \<and> c \<noteq> fresh t \<and> ?h c \<noteq> None \<and> c \<noteq> p \<and> Some c \<noteq> pre n"
  proof (intro allI impI)
    fix c assume "Some c \<in> snd ` set (take hh (records n))"
    then have "Some c \<in> snd ` set (records n)" by (meson image_mono set_take_subset subsetD)
    then have "Some c \<in> snd ` set (recs ?h a)" using n by simp
    from shape_children [OF s d a this] have c: "Suc d < length lv" "c \<in> set (lv ! Suc d)" by auto
    have cd: "c \<notin> set (lv ! d)" using levels_disjoint [OF dist c(1) d _ c(2)] by simp
    have "c \<in> set (concat lv)" using in_concat_level [OF c] .
    moreover have "Some c \<noteq> pre n"
    proof
      assume "Some c = pre n"
      from pre_cases [OF this [symmetric]] cd shape_header_notin [OF s c] show False by auto
    qed
    ultimately show "c \<noteq> a \<and> c \<noteq> fresh t \<and> ?h c \<noteq> None \<and> c \<noteq> p \<and> Some c \<noteq> pre n"
      using cd a fr(2) shape_allocated [OF s c] p(1) c by auto
  qed
qed

lemma fits_unfold:
  "fits m h lv a \<longleftrightarrow> length (recs h a) \<le> m
     \<and> (if hd lv = [a] then 1 \<le> length (recs h a) \<and> (1 < length lv \<longrightarrow> 2 \<le> length (recs h a))
        else half_order m \<le> length (recs h a))"
  by (simp add: fits_def)

lemma pendingD:
  assumes "pending m t lv cur"
  shows "m_header < fresh t" and "\<forall>a\<in>set (concat lv). a < fresh t"
    and "\<exists>r. m_root t = Some r \<and> hd lv = [r]" and "shape (heap t) lv None"
    and "\<forall>a\<in>set (concat lv). a \<noteq> cur \<longrightarrow> fits m (heap t) lv a"
    and "length (recs (heap t) cur) \<le> Suc m"
    and "if hd lv = [cur] then 1 < length lv \<longrightarrow> 2 \<le> length (recs (heap t) cur)
         else half_order m \<le> length (recs (heap t) cur)"
  using assms unfolding pending_def by blast+

text \<open>One split of the root.\<close>

lemma split_step_root:
  fixes t :: "'k::linorder bplustree"
  assumes P: "pending m t lv a" and m: "2 \<le> m" and a: "hd lv = [a]"
    and n: "heap t a = Some n" and big: "m < length (records n)"
  shows "\<exists>p f t' lv'. split m a t = Some ((p, f), t') \<and> pending m t' lv' p \<and> hd lv' = [p]
           \<and> length (recs (heap t') p) \<le> m
           \<and> level_keys (heap t') (last lv') = level_keys (heap t) (last lv) \<and> m_size t' = m_size t
           \<and> a \<in> set (concat lv') \<and> f \<in> set (concat lv')"
proof -
  let ?h = "heap t" and ?f = "fresh t" and ?p = "Suc (fresh t)" and ?hh = "half_order m"
  note Pd = pendingD [OF P]
  have s: "shape ?h lv None" by (rule Pd(4))
  have lvne: "lv \<noteq> []" using shapeD(1) [OF s] .
  then have d: "0 < length lv" by simp
  have a0: "a \<in> set (lv ! 0)" using a lvne by (simp add: hd_conv_nth)
  have len: "length (records n) = Suc m" using Pd(6) big n by simp
  have m1: "1 \<le> m" using m by simp
  note hb = half_order_bounds [OF m1]
  have hh: "?hh < length (records n)" "0 < ?hh" using hb len by auto
  have pn: "parent n = None" using shapeD(5) [OF s] a n by auto
  have p_above: "\<forall>i. 0 \<le> i \<and> i < length lv \<longrightarrow> ?p \<notin> set (lv ! i)"
    using Pd(2) in_concat_level by fastforce
  have ph: "?p \<noteq> m_header" using Pd(1) by simp
  note pre = split_pre [OF s Pd(1,2) d a0 n p_above ph]
  define H where "H = (\<lambda>x.
      if x = a then Some (n\<lparr>records := drop ?hh (records n), pre := Some ?f, parent := Some ?p\<rparr>)
      else if x = ?f then Some \<lparr>records = take ?hh (records n), is_leaf = is_leaf n,
                                 nxt = Some a, pre = pre n, parent = Some ?p\<rparr>
      else if x = ?p then Some \<lparr>records = set_insert
                                   (set_insert [] (fst (last (drop ?hh (records n))), Some a))
                                   (fst (last (take ?hh (records n))), Some ?f),
                                 is_leaf = False, nxt = None, pre = None, parent = None\<rparr>
      else if Some x = pre n then map_option (\<lambda>y. y\<lparr>nxt := Some ?f\<rparr>) (?h x)
      else if Some x \<in> snd ` set (take ?hh (records n))
           then map_option (\<lambda>y. y\<lparr>parent := Some ?f\<rparr>) (?h x)
      else ?h x)"
  define t' where "t' = t\<lparr>heap := H, fresh := Suc ?p, m_root := Some ?p\<rparr>"
  define lv' where "lv' = [?p] # lv[0 := [?f, a]]"
  have pa: "?p \<noteq> a" using pre(7) in_concat_level [OF d a0] by auto
  have sp: "split m a t = Some ((?p, ?f), t')"
    unfolding t'_def H_def by (rule split_root [OF n pre(1,2) hh pre(3) pn refl pa pre(4)])
  have v: "split_view ?h H a n ?f ?p ?hh"
    unfolding split_view_def H_def using pre(1) pa by simp
  have Hp: "H ?p = Some \<lparr>records = set_insert (set_insert [] (fst (last (drop ?hh (records n))), Some a))
                                    (fst (last (take ?hh (records n))), Some ?f),
                          is_leaf = False, nxt = None, pre = None, parent = None\<rparr>"
    unfolding H_def using pa by simp
  have pf: "?p \<noteq> ?f" by simp
  note sh = split_shape_root [OF s a n v hh(2,1) pre(5,6,7,8) pf Hp, folded lv'_def]
  have cc: "set (concat lv') = Set.insert ?p (Set.insert ?f (set (concat lv)))"
  proof -
    have "concat lv' = ?p # [?f, a] @ concat (drop (Suc 0) lv)"
      unfolding lv'_def using concat_update(1) [OF d, of "[?f, a]"] by simp
    moreover have "concat lv = [a] @ concat (drop (Suc 0) lv)"
      using concat_update(2) [OF d] a lvne by (simp add: hd_conv_nth)
    ultimately show ?thesis by auto
  qed
  have hd': "hd lv' = [?p]" by (simp add: lv'_def)
  have len': "1 < length lv'" using d by (simp add: lv'_def)
  have "pending m t' lv' ?p"
    unfolding pending_def
  proof (intro conjI)
    show "m_header < fresh t'" using Pd(1) by (simp add: t'_def)
    have "\<forall>x\<in>set (concat lv). x < Suc (Suc ?f)" using Pd(2) by (meson less_SucI)
    then show "\<forall>x\<in>set (concat lv'). x < fresh t'" unfolding cc by (simp add: t'_def)
    show "\<exists>r. m_root t' = Some r \<and> hd lv' = [r]" using hd' by (simp add: t'_def)
    show "shape (heap t') lv' None" using sh(1) by (simp add: t'_def)
    show "length (recs (heap t') ?p) \<le> Suc m" using sh(3) m by (simp add: t'_def)
    show "if hd lv' = [?p] then 1 < length lv' \<longrightarrow> 2 \<le> length (recs (heap t') ?p)
          else half_order m \<le> length (recs (heap t') ?p)"
      using hd' sh(3) by (simp add: t'_def)
    show "\<forall>x\<in>set (concat lv'). x \<noteq> ?p \<longrightarrow> fits m (heap t') lv' x"
    proof (intro ballI impI)
      fix x assume x: "x \<in> set (concat lv')" "x \<noteq> ?p"
      have nr: "hd lv' \<noteq> [x]" using hd' x(2) by simp
      from x cc consider "x = a" | "x = ?f" | "x \<in> set (concat lv)" "x \<noteq> a" by auto
      then show "fits m (heap t') lv' x"
      proof cases
        case 1
        then show ?thesis unfolding fits_unfold using nr sh(4) hb len by (simp add: t'_def)
      next
        case 2
        then show ?thesis unfolding fits_unfold using nr sh(5) hb len by (simp add: t'_def min_def)
      next
        case 3
        have "hd lv \<noteq> [x]" using a 3(2) by simp
        with Pd(5) 3 pa have "length (recs ?h x) \<le> m \<and> half_order m \<le> length (recs ?h x)"
          unfolding fits_unfold by auto
        then show ?thesis unfolding fits_unfold using nr sh(6) [OF 3] by (simp add: t'_def)
      qed
    qed
  qed
  moreover have "length (recs (heap t') ?p) \<le> m" using sh(3) m by (simp add: t'_def)
  moreover have "level_keys (heap t') (last lv') = level_keys ?h (last lv)" using sh(2) by (simp add: t'_def)
  moreover have "m_size t' = m_size t" by (simp add: t'_def)
  moreover have "a \<in> set (concat lv')" "?f \<in> set (concat lv')"
    unfolding cc using in_concat_level [OF d a0] by auto
  ultimately show ?thesis using sp hd' by blast
qed

text \<open>One split below the root.\<close>

lemma split_step_nonroot:
  fixes t :: "'k::linorder bplustree"
  assumes P: "pending m t lv a" and m: "2 \<le> m" and d: "Suc e < length lv" and a: "a \<in> set (lv ! Suc e)"
    and n: "heap t a = Some n" and big: "m < length (records n)"
  shows "\<exists>p f t' lv'. split m a t = Some ((p, f), t') \<and> pending m t' lv' p \<and> e < length lv'
           \<and> p \<in> set (lv' ! e)
           \<and> level_keys (heap t') (last lv') = level_keys (heap t) (last lv) \<and> m_size t' = m_size t
           \<and> a \<in> set (concat lv') \<and> f \<in> set (concat lv')"
proof -
  let ?h = "heap t" and ?f = "fresh t" and ?hh = "half_order m"
  note Pd = pendingD [OF P]
  have s: "shape ?h lv None" by (rule Pd(4))
  have dist: "distinct (concat lv)" using shapeD(3) [OF s] .
  have el: "e < length lv" using d by simp
  have len: "length (records n) = Suc m" using Pd(6) big n by simp
  have m1: "1 \<le> m" using m by simp
  note hb = half_order_bounds [OF m1]
  have hh: "?hh < length (records n)" "0 < ?hh" using hb len by auto
  from a obtain xs ys where L: "lv ! Suc e = xs @ a # ys" by (meson split_list)
  from shape_parent [OF s d L n] obtain p hp where
    p: "p \<in> set (lv ! e)" "?h p = Some hp" "parent n = Some p" by auto
  have p_above: "\<forall>i. Suc e \<le> i \<and> i < length lv \<longrightarrow> p \<notin> set (lv ! i)"
    using levels_disjoint [OF dist el _ _ p(1)] by auto
  have ph: "p \<noteq> m_header" using shape_header_notin [OF s el p(1)] .
  note pre = split_pre [OF s Pd(1,2) d a n p_above ph]
  have pa: "p \<noteq> a" using p_above d a by auto
  have pf: "p \<noteq> ?f" using pre(5) in_concat_level [OF el p(1)] by auto
  define H where "H = (\<lambda>x.
      if x = a then Some (n\<lparr>records := drop ?hh (records n), pre := Some ?f, parent := Some p\<rparr>)
      else if x = ?f then Some \<lparr>records = take ?hh (records n), is_leaf = is_leaf n,
                                 nxt = Some a, pre = pre n, parent = Some p\<rparr>
      else if x = p then Some (hp\<lparr>records := set_insert (records hp)
                                 (fst (last (take ?hh (records n))), Some ?f)\<rparr>)
      else if Some x = pre n then map_option (\<lambda>y. y\<lparr>nxt := Some ?f\<rparr>) (?h x)
      else if Some x \<in> snd ` set (take ?hh (records n))
           then map_option (\<lambda>y. y\<lparr>parent := Some ?f\<rparr>) (?h x)
      else ?h x)"
  define t' where "t' = t\<lparr>heap := H, fresh := Suc ?f\<rparr>"
  define lv' where "lv' = lv[Suc e := xs @ ?f # a # ys]"
  have sp: "split m a t = Some ((p, ?f), t')"
    unfolding t'_def H_def by (rule split_nonroot [OF n pre(1,2) hh pre(3) p(3,2) pa pf pre(4)])
  have v: "split_view ?h H a n ?f p ?hh"
    unfolding split_view_def H_def using pre(1) pa by simp
  have Hp: "H p = Some (hp\<lparr>records := set_insert (records hp) (fst (last (take ?hh (records n))), Some ?f)\<rparr>)"
    unfolding H_def using pa pf by simp
  note sh = split_shape_nonroot [OF s d L n v hh(2,1) pre(5,6) p(3,2) Hp, folded lv'_def]
  have cc: "set (concat lv') = Set.insert ?f (set (concat lv))"
  proof -
    have "concat lv' = concat (take (Suc e) lv) @ (xs @ ?f # a # ys) @ concat (drop (Suc (Suc e)) lv)"
      unfolding lv'_def by (rule concat_update(1) [OF d])
    moreover have "concat lv = concat (take (Suc e) lv) @ (xs @ a # ys) @ concat (drop (Suc (Suc e)) lv)"
      using concat_update(2) [OF d] L by simp
    ultimately show ?thesis by auto
  qed
  have lvne: "lv \<noteq> []" using d by auto
  have hd': "hd lv' = hd lv"
  proof -
    have "lv' \<noteq> []" using lvne by (simp add: lv'_def)
    then have "hd lv' = lv' ! 0" by (simp add: hd_conv_nth)
    also have "\<dots> = lv ! 0" by (simp add: lv'_def)
    also have "\<dots> = hd lv" using lvne by (simp add: hd_conv_nth)
    finally show ?thesis .
  qed
  have len': "length lv' = length lv" by (simp add: lv'_def)
  have pe': "lv' ! e = lv ! e" by (simp add: lv'_def)
  have pc: "p \<in> set (concat lv)" using in_concat_level [OF el p(1)] .
  have ac: "a \<in> set (concat lv)" using in_concat_level [OF d a] .
  have a_nr: "hd lv \<noteq> [a]"
  proof
    assume "hd lv = [a]"
    then have "a \<in> set (lv ! 0)" using lvne by (simp add: hd_conv_nth)
    from levels_disjoint [OF dist _ d _ this] lvne a show False by auto
  qed
  have f_nr: "hd lv \<noteq> [?f]"
  proof
    assume "hd lv = [?f]"
    then have "?f \<in> set (lv ! 0)" using lvne by (simp add: hd_conv_nth)
    with in_concat_level [of 0 lv ?f] lvne pre(5) show False by simp
  qed
  have fp: "fits m ?h lv p" using Pd(5) pc pa by metis
  have "pending m t' lv' p"
    unfolding pending_def
  proof (intro conjI)
    show "m_header < fresh t'" using Pd(1) by (simp add: t'_def)
    have "\<forall>x\<in>set (concat lv). x < Suc ?f" using Pd(2) by (meson less_SucI)
    then show "\<forall>x\<in>set (concat lv'). x < fresh t'" unfolding cc by (simp add: t'_def)
    show "\<exists>r. m_root t' = Some r \<and> hd lv' = [r]" using hd' Pd(3) by (simp add: t'_def)
    show "shape (heap t') lv' None" using sh(1) by (simp add: t'_def)
    show "length (recs (heap t') p) \<le> Suc m" using sh(4) fp unfolding fits_unfold by (simp add: t'_def)
    show "if hd lv' = [p] then 1 < length lv' \<longrightarrow> 2 \<le> length (recs (heap t') p)
          else half_order m \<le> length (recs (heap t') p)"
      using sh(4) fp unfolding fits_unfold hd' len' by (auto simp: t'_def)
    show "\<forall>x\<in>set (concat lv'). x \<noteq> p \<longrightarrow> fits m (heap t') lv' x"
    proof (intro ballI impI)
      fix x assume x: "x \<in> set (concat lv')" "x \<noteq> p"
      from x cc consider "x = a" | "x = ?f" | "x \<in> set (concat lv)" "x \<noteq> a" by auto
      then show "fits m (heap t') lv' x"
      proof cases
        case 1
        then show ?thesis unfolding fits_unfold hd' using a_nr sh(5) hb len by (simp add: t'_def)
      next
        case 2
        then show ?thesis unfolding fits_unfold hd' using f_nr sh(6) hb len by (simp add: t'_def min_def)
      next
        case 3
        with Pd(5) have "fits m ?h lv x" by metis
        then show ?thesis unfolding fits_unfold hd' len' using sh(7) [OF 3(1,2) x(2)]
          by (simp add: t'_def split: if_splits)
      qed
    qed
  qed
  moreover have "level_keys (heap t') (last lv') = level_keys ?h (last lv)" using sh(2) by (simp add: t'_def)
  moreover have "m_size t' = m_size t" by (simp add: t'_def)
  moreover have "e < length lv'" "p \<in> set (lv' ! e)" using el len' pe' p(1) by auto
  moreover have "a \<in> set (concat lv')" "?f \<in> set (concat lv')" unfolding cc using ac by auto
  ultimately show ?thesis using sp by blast
qed

text \<open>The loop of splits ends in a well-formed tree with the same keys.\<close>

lemma split_loop_inv:
  fixes t :: "'k::linorder bplustree"
  assumes m: "2 \<le> m"
  shows "pending m t lv cur \<Longrightarrow> d < length lv \<Longrightarrow> cur \<in> set (lv ! d)
     \<Longrightarrow> \<exists>t' lv'. split_loop m (Some cur) t = Some t'
           \<and> m_header < fresh t' \<and> (\<forall>a\<in>set (concat lv'). a < fresh t')
           \<and> (\<exists>r. m_root t' = Some r \<and> hd lv' = [r])
           \<and> shape (heap t') lv' None
           \<and> (\<forall>a\<in>set (concat lv'). fits m (heap t') lv' a)
           \<and> level_keys (heap t') (last lv') = level_keys (heap t) (last lv) \<and> m_size t' = m_size t"
proof (induction d arbitrary: t lv cur rule: less_induct)
  case (less d)
  note P = less.prems(1)
  note Pd = pendingD [OF P]
  have s: "shape (heap t) lv None" by (rule Pd(4))
  from shape_allocated [OF s less.prems(2,3)] obtain n where n: "heap t cur = Some n" by auto
  have cc: "cur \<in> set (concat lv)" using in_concat_level [OF less.prems(2,3)] .
  have lvne: "lv \<noteq> []" using less.prems(2) by auto
  show ?case
  proof (cases "m < length (records n)")
    case False
    have "fits m (heap t) lv cur"
    proof -
      have "recs (heap t) cur \<noteq> []" using shape_nonempty [OF s less.prems(2,3)] .
      then have "1 \<le> length (recs (heap t) cur)" by (cases "recs (heap t) cur") auto
      then show ?thesis unfolding fits_unfold using False Pd(7) n by (auto split: if_splits)
    qed
    then have "\<forall>a\<in>set (concat lv). fits m (heap t) lv a" using Pd(5) by metis
    moreover have "split_loop m (Some cur) t = Some t"
      using n False by (subst split_loop.simps) simp
    ultimately show ?thesis using Pd(1,2,3) s by blast
  next
    case True
    show ?thesis
    proof (cases d)
      case 0
      then have "cur \<in> set (hd lv)" using less.prems(3) lvne by (simp add: hd_conv_nth)
      then have hd: "hd lv = [cur]" using Pd(3) by auto
      from split_step_root [OF P m hd n True] obtain p f t' lv' where
        st: "split m cur t = Some ((p, f), t')" "pending m t' lv' p" "hd lv' = [p]"
            "length (recs (heap t') p) \<le> m"
            "level_keys (heap t') (last lv') = level_keys (heap t) (last lv)" "m_size t' = m_size t"
        by blast
      note Pd' = pendingD [OF st(2)]
      have s': "shape (heap t') lv' None" by (rule Pd'(4))
      have lvne': "lv' \<noteq> []" using shapeD(1) [OF s'] .
      have p0: "0 < length lv'" "p \<in> set (lv' ! 0)" using st(3) lvne' by (auto simp: hd_conv_nth)
      from shape_allocated [OF s' p0] obtain pn where pn: "heap t' p = Some pn" by auto
      have "fits m (heap t') lv' p"
      proof -
        have "recs (heap t') p \<noteq> []" using shape_nonempty [OF s' p0] .
        then have "1 \<le> length (recs (heap t') p)" by (cases "recs (heap t') p") auto
        then show ?thesis unfolding fits_unfold using st(4) Pd'(7) by (auto split: if_splits)
      qed
      then have "\<forall>a\<in>set (concat lv'). fits m (heap t') lv' a" using Pd'(5) by metis
      moreover have "split_loop m (Some p) t' = Some t'"
        using pn st(4) by (subst split_loop.simps) simp
      then have "split_loop m (Some cur) t = Some t'"
        using n True st(1) by (subst split_loop.simps) simp
      ultimately show ?thesis using Pd'(1,2,3) s' st(5,6) by blast
    next
      case (Suc e)
      from split_step_nonroot [OF P m less.prems(2) [unfolded Suc] less.prems(3) [unfolded Suc] n True]
      obtain p f t' lv' where
        st: "split m cur t = Some ((p, f), t')" "pending m t' lv' p" "e < length lv'" "p \<in> set (lv' ! e)"
            "level_keys (heap t') (last lv') = level_keys (heap t) (last lv)" "m_size t' = m_size t"
        by blast
      have "e < d" using Suc by simp
      from less.IH [OF this st(2,3,4)] obtain t'' lv'' where
        r: "split_loop m (Some p) t' = Some t''"
           "m_header < fresh t''" "\<forall>a\<in>set (concat lv''). a < fresh t''"
           "\<exists>r. m_root t'' = Some r \<and> hd lv'' = [r]"
           "shape (heap t'') lv'' None"
           "\<forall>a\<in>set (concat lv''). fits m (heap t'') lv'' a"
           "level_keys (heap t'') (last lv'') = level_keys (heap t') (last lv')" "m_size t'' = m_size t'"
        by blast
      have "split_loop m (Some cur) t = Some t''"
        using n True st(1) r(1) by (subst split_loop.simps) simp
      then show ?thesis using r st(5,6) by (metis (no_types, lifting))
    qed
  qed
qed

text \<open>The end of \<^verbatim>\<open>insert\<close> when the leaf has become too large.\<close>

lemma insert_tail:
  fixes t :: "'k::linorder bplustree"
  assumes P: "pending m t lv cur" and m: "2 \<le> m" and c: "cur \<in> set (last lv)"
    and n: "heap t cur = Some n" and big: "m < length (records n)"
  shows "\<exists>it t' lv'.
     do {
       ((p, left), t) \<leftarrow> split m cur t;
       n \<leftarrow> heap t cur;
       first \<leftarrow> set_at (records n) 0;
       let insert_node = (if k < fst first then left else cur);
       l \<leftarrow> heap t insert_node;
       let find_result = set_find (records l) k;
       t \<leftarrow> split_loop m (Some p) t;
       Some ((make_iterator_uncheck insert_node find_result, True), t)
     } = Some ((it, True), t')
     \<and> m_header < fresh t' \<and> (\<forall>a\<in>set (concat lv'). a < fresh t')
     \<and> (\<exists>r. m_root t' = Some r \<and> hd lv' = [r])
     \<and> shape (heap t') lv' None
     \<and> (\<forall>a\<in>set (concat lv'). fits m (heap t') lv' a)
     \<and> level_keys (heap t') (last lv') = level_keys (heap t) (last lv) \<and> m_size t' = m_size t"
proof -
  note Pd = pendingD [OF P]
  have s: "shape (heap t) lv None" by (rule Pd(4))
  have lvne: "lv \<noteq> []" using shapeD(1) [OF s] .
  let ?d = "length lv - 1"
  have d: "?d < length lv" "cur \<in> set (lv ! ?d)" using c lvne by (simp_all add: last_conv_nth)
  have "\<exists>p f t1 lv1 e. split m cur t = Some ((p, f), t1) \<and> pending m t1 lv1 p \<and> e < length lv1
           \<and> p \<in> set (lv1 ! e)
           \<and> level_keys (heap t1) (last lv1) = level_keys (heap t) (last lv) \<and> m_size t1 = m_size t
           \<and> cur \<in> set (concat lv1) \<and> f \<in> set (concat lv1)"
  proof (cases ?d)
    case 0
    then have "cur \<in> set (hd lv)" using d(2) lvne by (simp add: hd_conv_nth)
    then have hd: "hd lv = [cur]" using Pd(3) by auto
    from split_step_root [OF P m hd n big] obtain p f t1 lv1 where
      st: "split m cur t = Some ((p, f), t1)" "pending m t1 lv1 p" "hd lv1 = [p]"
          "level_keys (heap t1) (last lv1) = level_keys (heap t) (last lv)" "m_size t1 = m_size t"
          "cur \<in> set (concat lv1)" "f \<in> set (concat lv1)"
      by blast
    have "lv1 \<noteq> []" using shapeD(1) [OF pendingD(4) [OF st(2)]] .
    then have "0 < length lv1" "p \<in> set (lv1 ! 0)" using st(3) by (simp_all add: hd_conv_nth)
    with st show ?thesis by blast
  next
    case (Suc e)
    from split_step_nonroot [OF P m d(1) [unfolded Suc] d(2) [unfolded Suc] n big]
    show ?thesis by blast
  qed
  then obtain p f t1 lv1 e where
    st: "split m cur t = Some ((p, f), t1)" "pending m t1 lv1 p" "e < length lv1" "p \<in> set (lv1 ! e)"
        "level_keys (heap t1) (last lv1) = level_keys (heap t) (last lv)" "m_size t1 = m_size t"
        "cur \<in> set (concat lv1)" "f \<in> set (concat lv1)"
    by blast
  have s1: "shape (heap t1) lv1 None" by (rule pendingD(4) [OF st(2)])
  from in_concat_levelD [OF st(7)] obtain i where i: "i < length lv1" "cur \<in> set (lv1 ! i)" by blast
  from in_concat_levelD [OF st(8)] obtain j where j: "j < length lv1" "f \<in> set (lv1 ! j)" by blast
  from shape_allocated [OF s1 i] obtain n1 where n1: "heap t1 cur = Some n1" by auto
  from shape_allocated [OF s1 j] obtain l1 where l1: "heap t1 f = Some l1" by auto
  have "recs (heap t1) cur \<noteq> []" using shape_nonempty [OF s1 i] .
  then have ne1: "0 < length (records n1)" using n1 by simp
  from split_loop_inv [OF m st(2,3,4)] obtain t' lv' where
    r: "split_loop m (Some p) t1 = Some t'"
       "m_header < fresh t'" "\<forall>a\<in>set (concat lv'). a < fresh t'"
       "\<exists>r. m_root t' = Some r \<and> hd lv' = [r]"
       "shape (heap t') lv' None"
       "\<forall>a\<in>set (concat lv'). fits m (heap t') lv' a"
       "level_keys (heap t') (last lv') = level_keys (heap t1) (last lv1)" "m_size t' = m_size t1"
    by blast
  let ?node = "if k < fst (records n1 ! 0) then f else cur"
  have "\<exists>l. heap t1 ?node = Some l" using n1 l1 by simp
  then obtain l where l: "heap t1 ?node = Some l" by blast
  have "do {
       ((p, left), t) \<leftarrow> split m cur t;
       n \<leftarrow> heap t cur;
       first \<leftarrow> set_at (records n) 0;
       let insert_node = (if k < fst first then left else cur);
       l \<leftarrow> heap t insert_node;
       let find_result = set_find (records l) k;
       t \<leftarrow> split_loop m (Some p) t;
       Some ((make_iterator_uncheck insert_node find_result, True), t)
     } = Some ((make_iterator_uncheck ?node (set_find (records l) k), True), t')"
    using st(1) n1 ne1 l r(1) by (simp add: set_at_def Let_def)
  then show ?thesis using r(2-6) r(7) [unfolded st(5)] r(8) [unfolded st(6)] by blast
qed

lemma invI_root:
  assumes "m_header < fresh t" and "\<forall>a\<in>set (concat lv). a < fresh t"
    and "m_root t = Some r" and "hd lv = [r]" and "shape (heap t) lv None"
    and "\<forall>a\<in>set (concat lv). fits m (heap t) lv a"
    and "m_size t = length (level_keys (heap t) (last lv))"
  shows "inv m t lv"
  using assms unfolding inv_def by simp

lemma invD_root:
  assumes "inv m t lv" and "m_root t = Some r"
  shows "m_header < fresh t" and "\<forall>a\<in>set (concat lv). a < fresh t"
    and "hd lv = [r]" and "shape (heap t) lv None"
    and "\<forall>a\<in>set (concat lv). fits m (heap t) lv a"
    and "m_size t = length (level_keys (heap t) (last lv))"
  using assms unfolding inv_def by simp_all

lemma invD_empty:
  assumes "inv m t lv" and "m_root t = None"
  shows "m_header < fresh t" and "lv = []" and "m_size t = 0"
    and "\<exists>hn. heap t m_header = Some hn \<and> nxt hn = Some m_header \<and> pre hn = Some m_header"
  using assms unfolding inv_def by simp_all

lemma set_insert_keeps_last:
  fixes rs :: "('k::linorder \<times> 'c) list"
  assumes "rs \<noteq> []" and "k \<le> fst (last rs)" and "k \<notin> fst ` set rs"
  shows "last (set_insert rs (k, c)) = last rs"
proof -
  have lb: "set_lower_bound rs k < length rs" using set_lower_bound_lt [OF assms(1,2)] .
  then have "drop (set_lower_bound rs k) rs \<noteq> []" by simp
  then have "last (take (set_lower_bound rs k) rs @ (k, c) # drop (set_lower_bound rs k) rs)
             = last (drop (set_lower_bound rs k) rs)" by simp
  also have "\<dots> = last rs" using lb by simp
  finally show ?thesis unfolding set_insert_new [OF assms(3)] .
qed

text \<open>The end of \<^verbatim>\<open>insert\<close>, from the leaf that has received the key.\<close>

lemma insert_finish:
  fixes t :: "'k::linorder bplustree"
  assumes fr: "m_header < fresh t" "\<forall>a\<in>set (concat lv). a < fresh t"
    and root: "m_root t = Some r" "hd lv = [r]"
    and s2: "shape h2 lv None" and c: "cur \<in> set (last lv)" and n2: "h2 cur = Some n2"
    and others: "\<forall>a\<in>set (concat lv). a \<noteq> cur \<longrightarrow> fits m h2 lv a"
    and sz: "length (records n2) \<le> Suc m"
    and low: "if hd lv = [cur] then 1 < length lv \<longrightarrow> 2 \<le> length (records n2)
              else half_order m \<le> length (records n2)"
    and size: "sz = length (level_keys h2 (last lv))"
    and m: "2 \<le> m"
  defines "t2 \<equiv> t\<lparr>heap := h2, m_size := sz\<rparr>"
  shows "\<exists>it t' lv'.
     (if length (records n2) \<le> m
      then Some ((make_iterator_uncheck cur (set_find (records n2) k), True), t2)
      else do {
       ((p, left), t) \<leftarrow> split m cur t2;
       n \<leftarrow> heap t cur;
       first \<leftarrow> set_at (records n) 0;
       let insert_node = (if k < fst first then left else cur);
       l \<leftarrow> heap t insert_node;
       let find_result = set_find (records l) k;
       t \<leftarrow> split_loop m (Some p) t;
       Some ((make_iterator_uncheck insert_node find_result, True), t)
     }) = Some ((it, True), t')
     \<and> inv m t' lv' \<and> m_root t' \<noteq> None \<and> level_keys (heap t') (last lv') = level_keys h2 (last lv)"
proof -
  have lvne: "lv \<noteq> []" using shapeD(1) [OF s2] .
  have P: "pending m t2 lv cur"
    unfolding pending_def using fr root s2 others sz low n2 by (simp add: t2_def)
  show ?thesis
  proof (cases "length (records n2) \<le> m")
    case True
    let ?d = "length lv - 1"
    have d: "?d < length lv" "cur \<in> set (lv ! ?d)" using c lvne by (simp_all add: last_conv_nth)
    have "recs h2 cur \<noteq> []" using shape_nonempty [OF s2 d] .
    then have "1 \<le> length (records n2)" using n2 by (cases "records n2") auto
    then have "fits m h2 lv cur" unfolding fits_unfold using True low n2 by (auto split: if_splits)
    then have "\<forall>a\<in>set (concat lv). fits m h2 lv a" using others by metis
    then have "inv m t2 lv"
      using fr root s2 size by (intro invI_root [where r = r]) (simp_all add: t2_def)
    moreover have "m_root t2 \<noteq> None" "heap t2 = h2" using root by (simp_all add: t2_def)
    ultimately show ?thesis using True by auto
  next
    case False
    then have big: "m < length (records n2)" by simp
    have n: "heap t2 cur = Some n2" using n2 by (simp add: t2_def)
    from insert_tail [OF P m c n big, of k] obtain it t' lv' where
      r: "do {
       ((p, left), t) \<leftarrow> split m cur t2;
       n \<leftarrow> heap t cur;
       first \<leftarrow> set_at (records n) 0;
       let insert_node = (if k < fst first then left else cur);
       l \<leftarrow> heap t insert_node;
       let find_result = set_find (records l) k;
       t \<leftarrow> split_loop m (Some p) t;
       Some ((make_iterator_uncheck insert_node find_result, True), t)
     } = Some ((it, True), t')"
       "m_header < fresh t'" "\<forall>a\<in>set (concat lv'). a < fresh t'"
       "\<exists>r. m_root t' = Some r \<and> hd lv' = [r]"
       "shape (heap t') lv' None"
       "\<forall>a\<in>set (concat lv'). fits m (heap t') lv' a"
       "level_keys (heap t') (last lv') = level_keys (heap t2) (last lv)" "m_size t' = m_size t2"
      by blast
    from r(4) obtain r' where r': "m_root t' = Some r'" "hd lv' = [r']" by blast
    have lk: "level_keys (heap t') (last lv') = level_keys h2 (last lv)" using r(7) by (simp add: t2_def)
    have "m_size t' = length (level_keys (heap t') (last lv'))"
      using r(8) lk size by (simp add: t2_def)
    from invI_root [OF r(2,3) r' r(5,6) this] have "inv m t' lv'" .
    then show ?thesis using False r(1) r'(1) lk by auto
  qed
qed

lemma fits_length_cong:
  "length (recs h' a) = length (recs h a) \<Longrightarrow> fits m h' lv a = fits m h lv a"
  by (simp add: fits_def)

text \<open>Insertion into the empty tree.\<close>

lemma insert_empty:
  fixes t :: "'k::linorder bplustree"
  assumes I: "inv m t lv" and e: "m_root t = None" and m: "1 \<le> m"
  shows "\<exists>it t'. insert m k t = Some ((it, True), t') \<and> inv m t' [[fresh t]] \<and> m_root t' \<noteq> None
           \<and> level_keys (heap t') (last [[fresh t]]) = [k]"
proof -
  note E = invD_empty [OF I e]
  from E(4) obtain hn where hn: "heap t m_header = Some hn" by blast
  let ?a = "fresh t"
  have ah: "?a \<noteq> m_header" using E(1) by simp
  let ?root = "(make_node :: 'k node)\<lparr>is_leaf := True, nxt := Some m_header, pre := Some m_header\<rparr>"
  let ?h = "((heap t)(?a \<mapsto> ?root))(m_header \<mapsto> hn\<lparr>nxt := Some ?a, pre := Some ?a\<rparr>)"
  let ?h' = "?h(?a \<mapsto> ?root\<lparr>records := [(k, None)]\<rparr>)"
  let ?t' = "t\<lparr>heap := ?h', fresh := Suc ?a, m_root := Some ?a, m_size := m_size t + 1\<rparr>"
  have ins: "insert m k t = Some ((make_iterator_uncheck ?a 0, True), ?t')"
    using e hn ah by (simp add: insert_def update_node_def set_insert_Nil Let_def make_node_def)
  have sh: "shape ?h' [[?a]] None"
    unfolding shape_def using ah
    by (simp add: leaf_level_def make_node_def recs_def keys_of_def)
  have "fits m ?h' [[?a]] ?a" using m by (simp add: fits_def)
  then have "inv m ?t' [[?a]]"
    using sh E(1,3) by (intro invI_root [where r = ?a]) (simp_all add: keys_of_def)
  moreover have "level_keys (heap ?t') (last [[?a]]) = [k]" by (simp add: keys_of_def)
  ultimately show ?thesis using ins by auto
qed

text \<open>Insertion of a new key, from the leaf that the descent has reached.\<close>

lemma insert_leaf:
  fixes t :: "'k::linorder bplustree"
  assumes fr: "m_header < fresh t" "\<forall>a\<in>set (concat lv). a < fresh t"
    and root: "m_root t = Some r" "hd lv = [r]"
    and fit: "\<forall>a\<in>set (concat lv). fits m (heap t) lv a"
    and desc: "insert_descend k (Some r) (heap t) = Some (cur, h1)"
    and lens: "\<forall>x. length (recs h1 x) = length (recs (heap t) x)"
    and s: "shape h1 lv (Some (cur, kr))" and L: "last lv = xs @ cur # ys" and n: "h1 cur = Some n"
    and lo: "\<forall>x\<in>set (level_keys h1 xs). x < k" and hi: "\<forall>y\<in>set (level_keys h1 ys). k < y"
    and nk: "k \<notin> fst ` set (records n)"
    and kr: "fst (last (set_insert (records n) (k, None))) = kr"
    and size: "m_size t = length (level_keys h1 (last lv))"
    and m: "2 \<le> m"
  shows "\<exists>it t' lv'. insert m k t = Some ((it, True), t') \<and> inv m t' lv' \<and> m_root t' \<noteq> None
           \<and> set (level_keys (heap t') (last lv')) = Set.insert k (set (level_keys h1 (last lv)))"
proof -
  let ?rs = "set_insert (records n) (k, None)"
  let ?n2 = "n\<lparr>records := ?rs\<rparr>"
  let ?h2 = "h1(cur \<mapsto> ?n2)"
  note li = leaf_insert_shape [OF s L n lo hi nk kr]
  have lvne: "lv \<noteq> []" using shapeD(1) [OF s] .
  have c: "cur \<in> set (last lv)" using L by simp
  then have cc: "cur \<in> set (concat lv)" using lvne by (metis in_concat_level last_level_index)
  have sf: "set_find (records n) k = length (records n)" using nk by (rule set_find_absent)
  have lrs: "length ?rs = Suc (length (records n))"
    using nk by (simp add: set_insert_new)
  have fc: "fits m (heap t) lv cur" using fit cc by metis
  have ln: "length (recs (heap t) cur) = length (records n)" using lens [rule_format, of cur] n by simp
  have others: "\<forall>a\<in>set (concat lv). a \<noteq> cur \<longrightarrow> fits m ?h2 lv a"
  proof (intro ballI impI)
    fix a assume a: "a \<in> set (concat lv)" "a \<noteq> cur"
    have "length (recs ?h2 a) = length (recs (heap t) a)" using a(2) lens by (simp add: recs_def)
    from fits_length_cong [OF this] fit a(1) show "fits m ?h2 lv a" by metis
  qed
  have n2: "?h2 cur = Some ?n2" by simp
  have sz: "length (records ?n2) \<le> Suc m" using lrs fc ln unfolding fits_unfold by simp
  have low: "if hd lv = [cur] then 1 < length lv \<longrightarrow> 2 \<le> length (records ?n2)
             else half_order m \<le> length (records ?n2)"
    using lrs fc ln unfolding fits_unfold by (auto split: if_splits)
  have size2: "m_size t + 1 = length (level_keys ?h2 (last lv))" using li(3) size by simp
  from insert_finish [OF fr root li(1) c n2 others sz low size2 m, of k]
  obtain it t' lv' where
    r: "(if length (records ?n2) \<le> m
      then Some ((make_iterator_uncheck cur (set_find (records ?n2) k), True), t\<lparr>heap := ?h2, m_size := m_size t + 1\<rparr>)
      else do {
       ((p, left), t) \<leftarrow> split m cur (t\<lparr>heap := ?h2, m_size := m_size t + 1\<rparr>);
       n \<leftarrow> heap t cur;
       first \<leftarrow> set_at (records n) 0;
       let insert_node = (if k < fst first then left else cur);
       l \<leftarrow> heap t insert_node;
       let find_result = set_find (records l) k;
       t \<leftarrow> split_loop m (Some p) t;
       Some ((make_iterator_uncheck insert_node find_result, True), t)
     }) = Some ((it, True), t')"
     "inv m t' lv'" "m_root t' \<noteq> None" "level_keys (heap t') (last lv') = level_keys ?h2 (last lv)"
    by blast
  have "insert m k t = Some ((it, True), t')"
    unfolding r(1) [symmetric] using root desc n sf by (simp add: insert_def Let_def)
  then show ?thesis using r(2,3,4) li(2) by auto
qed

lemma leaf_keys_root: "lv \<noteq> [] \<Longrightarrow> leaf_keys t lv = level_keys (heap t) (last lv)"
  by (simp add: leaf_keys_def)

lemma inv_root_levels:
  assumes "inv m t lv"
  shows "m_root t = None \<longleftrightarrow> lv = []"
proof (cases "m_root t")
  case None
  then show ?thesis using invD_empty(2) [OF assms] by simp
next
  case (Some r)
  then show ?thesis using shapeD(1) [OF invD_root(4) [OF assms Some]] by simp
qed

text \<open>
  \<^verbatim>\<open>insert\<close> keeps the invariant, adds the key to the keys of the leaves, and
  reports whether the key is new. A key that is present leaves the tree as it is.
\<close>

lemma insert_inv:
  fixes t :: "'k::linorder bplustree"
  assumes I: "inv m t lv" and m: "2 \<le> m"
  shows "\<exists>it b t' lv'. insert m k t = Some ((it, b), t') \<and> inv m t' lv' \<and> m_root t' \<noteq> None
           \<and> set (leaf_keys t' lv') = Set.insert k (set (leaf_keys t lv))
           \<and> (b \<longleftrightarrow> k \<notin> set (leaf_keys t lv))
           \<and> (\<not> b \<longrightarrow> t' = t \<and> lv' = lv \<and> deref t it = Some k)"
proof (cases "m_root t")
  case None
  have m1: "1 \<le> m" using m by simp
  from insert_empty [OF I None m1, of k] obtain it t' where
    r: "insert m k t = Some ((it, True), t')" "inv m t' [[fresh t]]" "m_root t' \<noteq> None"
       "level_keys (heap t') (last [[fresh t]]) = [k]" by blast
  have "leaf_keys t lv = []" using invD_empty(2) [OF I None] by (simp add: leaf_keys_def)
  moreover have "leaf_keys t' [[fresh t]] = [k]" using r(4) by (simp add: leaf_keys_def)
  ultimately show ?thesis using r(1,2,3)
    by (intro exI [of _ it] exI [of _ True] exI [of _ t'] exI [of _ "[[fresh t]]"]) simp
next
  case (Some r)
  note R = invD_root [OF I Some]
  let ?h = "heap t"
  have s: "shape ?h lv None" by (rule R(4))
  have lvne: "lv \<noteq> []" using shapeD(1) [OF s] .
  then have d0: "0 < length lv" by simp
  have L0: "lv ! 0 = [] @ r # []" using R(3) lvne by (simp add: hd_conv_nth)
  have r0: "r \<in> set (lv ! 0)" using L0 by simp
  let ?d = "length lv - 1"
  have dl: "?d < length lv" "last lv = lv ! ?d" using lvne by (simp_all add: last_conv_nth)
  have lk: "leaf_keys t lv = level_keys ?h (last lv)" using lvne by (rule leaf_keys_root)
  show ?thesis
  proof (cases "k \<le> last_key ?h r")
    case True
    from insert_descend_in_range [OF s d0 L0 _ True] obtain cur xs ys where
      desc: "insert_descend k (Some r) ?h = Some (cur, ?h)" and L: "last lv = xs @ cur # ys"
      and lo: "xs \<noteq> [] \<longrightarrow> last_key ?h (last xs) < k" and hi: "k \<le> last_key ?h cur"
      by auto
    have c: "cur \<in> set (last lv)" using L by simp
    then have cd: "cur \<in> set (lv ! ?d)" using dl by simp
    from shape_leaf [OF s c] obtain n where n: "?h cur = Some n" "is_leaf n" by auto
    have sl: "sorted_wrt (<) (level_keys ?h (last lv))" using shape_sorted [OF s dl(1)] dl(2) by simp
    have ne: "\<forall>c\<in>set (last lv). recs ?h c \<noteq> []" using shape_nonempty [OF s dl(1)] dl(2) by simp
    have mem: "k \<in> set (level_keys ?h (last lv)) \<longleftrightarrow> k \<in> set (keys_of ?h cur)"
      by (rule sorted_level_member [OF sl L ne lo hi])
    have kn: "set (keys_of ?h cur) = fst ` set (records n)" using n by (simp add: keys_of_def)
    have sn: "sorted_wrt (<) (map fst (records n))" using node_keys_sorted [OF s dl(1) cd] n by simp
    have rne: "records n \<noteq> []" using ne c n by auto
    show ?thesis
    proof (cases "k \<in> fst ` set (records n)")
      case True
      let ?i = "set_find (records n) k"
      have i: "?i < length (records n)" by (rule set_find_present [OF sn True])
      have ineq: "?i \<noteq> length (records n)" using i by simp
      have "insert m k t = Some ((make_iterator_uncheck cur ?i, False), t)"
        using Some desc n(1) ineq by (simp add: insert_def Let_def)
      moreover have "deref t (make_iterator_uncheck cur ?i) = Some k"
        using n i set_find_found [OF i] by (simp add: deref_def make_iterator_uncheck_def set_at_def)
      moreover have "k \<in> set (leaf_keys t lv)" using True mem kn lk by simp
      ultimately show ?thesis using I Some
        by (intro exI [of _ "make_iterator_uncheck cur ?i"] exI [of _ False] exI [of _ t] exI [of _ lv])
           (simp add: insert_absorb)
    next
      case False
      have so: "shape ?h lv (Some (cur, last_key ?h cur))" using shape_override_self [OF s] .
      have lkc: "last_key ?h cur = fst (last (records n))" using n by (simp add: last_key_def)
      have kr: "fst (last (set_insert (records n) (k, None))) = last_key ?h cur"
        using set_insert_keeps_last [OF rne _ False] hi lkc by simp
      have sx: "sorted_wrt (<) (level_keys ?h xs)" and sxy: "\<forall>x\<in>set (keys_of ?h cur). \<forall>y\<in>set (level_keys ?h ys). x < y"
        using sl unfolding L by (auto simp: sorted_wrt_append)
      have lo': "\<forall>x\<in>set (level_keys ?h xs). x < k"
      proof
        fix x assume x: "x \<in> set (level_keys ?h xs)"
        then have xne: "xs \<noteq> []" by auto
        then have "last xs \<in> set (last lv)" using L by simp
        then have "recs ?h (last xs) \<noteq> []" using ne by blast
        from last_level_keys [OF xne this] sorted_le_last [OF sx x] lo xne show "x < k" by simp
      qed
      have hi': "\<forall>y\<in>set (level_keys ?h ys). k < y"
      proof
        fix y assume y: "y \<in> set (level_keys ?h ys)"
        have "last (records n) \<in> set (records n)" using rne by simp
        then have "last_key ?h cur \<in> set (keys_of ?h cur)" using n by (simp add: last_key_def keys_of_def)
        with sxy y have "last_key ?h cur < y" by blast
        with hi show "k < y" by simp
      qed
      from insert_leaf [OF R(1,2) Some R(3,5) desc _ so L n(1) lo' hi' False kr R(6) m]
      obtain it t' lv' where
        r: "insert m k t = Some ((it, True), t')" "inv m t' lv'" "m_root t' \<noteq> None"
           "set (level_keys (heap t') (last lv')) = Set.insert k (set (level_keys ?h (last lv)))"
        by auto
      have "lv' \<noteq> []" using inv_root_levels [OF r(2)] r(3) by simp
      then have "leaf_keys t' lv' = level_keys (heap t') (last lv')" by (rule leaf_keys_root)
      moreover have "k \<notin> set (leaf_keys t lv)" using False mem kn lk by simp
      ultimately show ?thesis using r lk
        by (intro exI [of _ it] exI [of _ True] exI [of _ t'] exI [of _ lv']) simp
    qed
  next
    case False
    then have lt: "last_key ?h r < k" by simp
    have so: "shape ?h lv (Some (r, k))" using shape_override_root [OF s R(3)] .
    have rl: "r = last (lv ! 0)" using L0 by simp
    have rne: "recs ?h r \<noteq> []" using shape_nonempty [OF s d0 r0] .
    let ?cur = "last (last lv)"
    from insert_descend_max [OF so d0 rl rne lt] obtain h1 where
      desc: "insert_descend k (Some r) ?h = Some (?cur, h1)"
      and s1: "shape h1 lv (Some (?cur, k))" and ne1: "recs h1 ?cur \<noteq> []"
      and lt1: "last_key h1 ?cur < k"
      and lens: "\<forall>x. length (recs h1 x) = length (recs ?h x)"
      and frame: "\<forall>x. (\<forall>e. Suc e < length lv \<longrightarrow> x \<notin> set (lv ! e)) \<longrightarrow> h1 x = ?h x"
      by blast
    have llne: "last lv \<noteq> []" using shapeD(2) [OF s] lvne by simp
    have L: "last lv = butlast (last lv) @ ?cur # []" using llne by simp
    have c: "?cur \<in> set (last lv)" using llne by simp
    then have cd: "?cur \<in> set (lv ! ?d)" using dl by simp
    from shape_leaf [OF s1 c] obtain n where n: "h1 ?cur = Some n" by auto
    have rsne: "records n \<noteq> []" using ne1 n by simp
    have sn: "sorted_wrt (<) (map fst (records n))" using node_keys_sorted [OF s1 dl(1) cd] n by simp
    have lkc: "fst (last (records n)) < k" using lt1 n by (simp add: last_key_def)
    have less: "\<forall>r\<in>set (records n). fst r < k" by (rule all_keys_less [OF sn rsne lkc])
    then have nk: "k \<notin> fst ` set (records n)" by auto
    have kr: "fst (last (set_insert (records n) (k, None))) = k"
      using set_insert_append [of "records n" "(k, None)"] less by simp
    have sl: "sorted_wrt (<) (level_keys h1 (last lv))" using shape_sorted [OF s1 dl(1)] dl(2) by simp
    have lastk: "last (level_keys h1 (last lv)) = last_key h1 ?cur"
      by (rule last_level_keys [OF llne ne1])
    have all_lt: "\<forall>x\<in>set (level_keys h1 (last lv)). x < k"
    proof
      fix x assume "x \<in> set (level_keys h1 (last lv))"
      from sorted_le_last [OF sl this] lastk lt1 show "x < k" by simp
    qed
    have "set (level_keys h1 (butlast (last lv))) \<subseteq> set (level_keys h1 (last lv))"
      by (subst (2) L) simp
    then have lo': "\<forall>x\<in>set (level_keys h1 (butlast (last lv))). x < k" using all_lt by blast
    have hi': "\<forall>y\<in>set (level_keys h1 []). k < y" by simp
    have same: "level_keys h1 (last lv) = level_keys ?h (last lv)"
    proof (intro level_keys_cong ballI)
      fix x assume "x \<in> set (last lv)"
      then have "\<forall>e. Suc e < length lv \<longrightarrow> x \<notin> set (lv ! e)" using leaf_not_internal [OF s] by blast
      with frame show "recs h1 x = recs ?h x" by (simp add: recs_def)
    qed
    have size: "m_size t = length (level_keys h1 (last lv))" using R(6) same by simp
    from insert_leaf [OF R(1,2) Some R(3,5) desc lens s1 L n lo' hi' nk kr size m]
    obtain it t' lv' where
      r: "insert m k t = Some ((it, True), t')" "inv m t' lv'" "m_root t' \<noteq> None"
         "set (level_keys (heap t') (last lv')) = Set.insert k (set (level_keys h1 (last lv)))"
      by auto
    have "lv' \<noteq> []" using inv_root_levels [OF r(2)] r(3) by simp
    then have "leaf_keys t' lv' = level_keys (heap t') (last lv')" by (rule leaf_keys_root)
    moreover have "k \<notin> set (leaf_keys t lv)" using all_lt same lk by auto
    ultimately show ?thesis using r lk same
      by (intro exI [of _ it] exI [of _ True] exI [of _ t'] exI [of _ lv']) simp
  qed
qed

section \<open>The part of a tree above a level\<close>

lemma internal_level_routed:
  "internal_level h ov L L' = routed h (rep_key h ov) L L'"
  by (simp add: internal_level_def routed_def)

lemma routedD:
  assumes "routed h \<rho> L L'"
  shows "\<And>a. a \<in> set L \<Longrightarrow> \<exists>n. h a = Some n \<and> \<not> is_leaf n"
    and "level_recs h L = map (\<lambda>c. (\<rho> c, Some c)) L'"
    and "\<And>a c. a \<in> set L \<Longrightarrow> Some c \<in> snd ` set (recs h a) \<Longrightarrow> \<exists>n. h c = Some n \<and> parent n = Some a"
  using assms unfolding routed_def kids_of_def by auto

lemma routed_cong:
  assumes L: "\<forall>a\<in>set L. map_option (\<lambda>n. (is_leaf n, records n)) (h' a)
                         = map_option (\<lambda>n. (is_leaf n, records n)) (h a)"
    and L': "\<forall>c\<in>set L'. \<rho>' c = \<rho> c \<and> map_option parent (h' c) = map_option parent (h c)"
    and r: "routed h \<rho> L L'"
  shows "routed h' \<rho>' L L'"
proof -
  have rc: "\<forall>a\<in>set L. recs h' a = recs h a" using L recs_cong by blast
  have 1: "\<forall>a\<in>set L. \<exists>n. h' a = Some n \<and> \<not> is_leaf n"
  proof
    fix a assume a: "a \<in> set L"
    from routedD(1) [OF r a] obtain n where n: "h a = Some n" "\<not> is_leaf n" by auto
    from L a n obtain n' where "h' a = Some n'" "is_leaf n' = is_leaf n" by (cases "h' a") auto
    with n show "\<exists>n. h' a = Some n \<and> \<not> is_leaf n" by simp
  qed
  have 2: "level_recs h' L = map (\<lambda>c. (\<rho>' c, Some c)) L'"
    using level_recs_cong [OF rc] routedD(2) [OF r] L' by simp
  have 3: "\<forall>a\<in>set L. \<forall>c. Some c \<in> set (kids_of h' a) \<longrightarrow> (\<exists>n. h' c = Some n \<and> parent n = Some a)"
  proof (intro ballI allI impI)
    fix a c assume a: "a \<in> set L" and c: "Some c \<in> set (kids_of h' a)"
    then have ck: "Some c \<in> snd ` set (recs h a)" using rc by (simp add: kids_of_def)
    from routedD(3) [OF r a ck] obtain n where n: "h c = Some n" "parent n = Some a" by auto
    have "(\<rho> c, Some c) \<in> set (level_recs h L)"
    proof -
      from ck obtain k where "(k, Some c) \<in> set (recs h a)" by force
      then have "(k, Some c) \<in> set (level_recs h L)" using a unfolding in_level_recs by blast
      then show ?thesis unfolding routedD(2) [OF r] by auto
    qed
    then have "c \<in> set L'" unfolding routedD(2) [OF r] by auto
    with L' have "map_option parent (h' c) = map_option parent (h c)" by blast
    with n show "\<exists>n. h' c = Some n \<and> parent n = Some a" by (cases "h' c") auto
  qed
  show ?thesis unfolding routed_def using 1 2 3 by blast
qed

lemma upperD:
  assumes "upper h lv d \<rho>"
  shows "d < length lv" and "\<forall>L\<in>set lv. L \<noteq> []" and "distinct (concat lv)"
    and "m_header \<notin> set (concat lv)"
    and "\<exists>r n. hd lv = [r] \<and> h r = Some n \<and> parent n = None"
    and "\<And>e. e < d \<Longrightarrow> routed h (if Suc e = d then \<rho> else last_key h) (lv ! e) (lv ! Suc e)"
    and "\<And>e. e < d \<Longrightarrow> chain h None None (lv ! e)"
    and "\<And>e. e < d \<Longrightarrow> sorted_wrt (<) (level_keys h (lv ! e))"
    and "\<And>e a. e < d \<Longrightarrow> a \<in> set (lv ! e) \<Longrightarrow> recs h a \<noteq> []"
  using assms unfolding upper_def by simp_all

lemma upperI:
  assumes "d < length lv" and "\<forall>L\<in>set lv. L \<noteq> []" and "distinct (concat lv)"
    and "m_header \<notin> set (concat lv)"
    and "\<exists>r n. hd lv = [r] \<and> h r = Some n \<and> parent n = None"
    and "\<And>e. e < d \<Longrightarrow> routed h (if Suc e = d then \<rho> else last_key h) (lv ! e) (lv ! Suc e)"
    and "\<And>e. e < d \<Longrightarrow> chain h None None (lv ! e)"
    and "\<And>e. e < d \<Longrightarrow> sorted_wrt (<) (level_keys h (lv ! e))"
    and "\<And>e a. e < d \<Longrightarrow> a \<in> set (lv ! e) \<Longrightarrow> recs h a \<noteq> []"
  shows "upper h lv d \<rho>"
  unfolding upper_def using assms by simp

text \<open>The levels above \<open>d\<close> of a well-formed tree.\<close>

lemma shape_upper:
  assumes s: "shape h lv ov" and d: "d < length lv"
    and o: "case ov of None \<Rightarrow> True | Some (b, k) \<Rightarrow> \<forall>e<d. b \<notin> set (lv ! e)"
  shows "upper h lv d (rep_key h ov)"
proof -
  have rk: "rep_key h ov c = last_key h c \<and> (case ov of None \<Rightarrow> True | Some (b, k) \<Rightarrow> c \<noteq> b)"
    if "e < d" "c \<in> set (lv ! e)" for e c
  proof (cases ov)
    case None
    then show ?thesis by (simp add: rep_key_def)
  next
    case (Some bk)
    obtain b k where bk: "bk = (b, k)" by (cases bk)
    have "b \<notin> set (lv ! e)" using o that(1) Some bk by simp
    then have "c \<noteq> b" using that(2) by auto
    then show ?thesis using Some bk by (simp add: rep_key_def)
  qed
  have 6: "routed h (if Suc e = d then rep_key h ov else last_key h) (lv ! e) (lv ! Suc e)" if e: "e < d" for e
  proof -
    have Se: "Suc e < length lv" using e d by simp
    have il: "routed h (rep_key h ov) (lv ! e) (lv ! Suc e)"
      using shape_internal [OF s Se] by (simp add: internal_level_routed)
    show ?thesis
    proof (cases "Suc e = d")
      case True
      then show ?thesis using il by simp
    next
      case False
      then have lt: "Suc e < d" using e by simp
      have "routed h (last_key h) (lv ! e) (lv ! Suc e)"
      proof (rule routed_cong [OF _ _ il])
        show "\<forall>a\<in>set (lv ! e). map_option (\<lambda>n. (is_leaf n, records n)) (h a)
                 = map_option (\<lambda>n. (is_leaf n, records n)) (h a)" by simp
        show "\<forall>c\<in>set (lv ! Suc e). last_key h c = rep_key h ov c
                 \<and> map_option parent (h c) = map_option parent (h c)"
          using rk [OF lt] by simp
      qed
      with False show ?thesis by simp
    qed
  qed
  have 7: "chain h None None (lv ! e)" if e: "e < d" for e
    using shape_chain [OF s, of e] e d by simp
  have 8: "sorted_wrt (<) (level_keys h (lv ! e))" if e: "e < d" for e
    using shape_sorted [OF s, of e] e d by simp
  have 9: "recs h a \<noteq> []" if e: "e < d" and a: "a \<in> set (lv ! e)" for e a
  proof -
    have el: "e < length lv" using e d by simp
    have "a \<in> set (concat lv)" using in_concat_level [OF el a] .
    moreover have "case ov of None \<Rightarrow> True | Some (b, k) \<Rightarrow> a \<noteq> b" using rk [OF e a] by simp
    ultimately show ?thesis using shapeD(11) [OF s] by blast
  qed
  show ?thesis
    by (rule upperI [OF d shapeD(2,3,4,5) [OF s] 6 7 8 9])
qed

text \<open>One level less.\<close>

lemma upper_down:
  assumes u: "upper h lv (Suc e) \<rho>"
  shows "upper h lv e (last_key h)"
proof (rule upperI [OF _ upperD(2,3,4,5) [OF u]])
  show "e < length lv" using upperD(1) [OF u] by simp
  fix e' assume e': "e' < e"
  then have l: "e' < Suc e" by simp
  show "routed h (if Suc e' = e then last_key h else last_key h) (lv ! e') (lv ! Suc e')"
    using upperD(6) [OF u l] e' by simp
  show "chain h None None (lv ! e')" using upperD(7) [OF u l] .
  show "sorted_wrt (<) (level_keys h (lv ! e'))" using upperD(8) [OF u l] .
  fix a assume "a \<in> set (lv ! e')"
  then show "recs h a \<noteq> []" using upperD(9) [OF u l] by simp
qed

text \<open>
  The part above \<open>d\<close> depends on the nodes above \<open>d\<close>, on the parent pointers of the
  nodes of level \<open>d\<close> and on the keys \<open>\<rho>\<close> of these nodes.
\<close>

lemma upper_cong:
  assumes u: "upper h lv d \<rho>"
    and above: "\<And>e y. e < d \<Longrightarrow> y \<in> set (lv ! e) \<Longrightarrow> h' y = h y"
    and at: "\<And>y. y \<in> set (lv ! d) \<Longrightarrow> map_option parent (h' y) = map_option parent (h y)"
    and rho: "\<And>y. y \<in> set (lv ! d) \<Longrightarrow> \<rho>' y = \<rho> y"
  shows "upper h' lv d \<rho>'"
proof (rule upperI [OF upperD(1,2,3,4) [OF u]])
  note d = upperD(1) [OF u]
  have lvne: "lv \<noteq> []" using d by auto
  show "\<exists>r n. hd lv = [r] \<and> h' r = Some n \<and> parent n = None"
  proof -
    from upperD(5) [OF u] obtain r n where r: "hd lv = [r]" "h r = Some n" "parent n = None" by blast
    have r0: "r \<in> set (lv ! 0)" using r(1) lvne by (simp add: hd_conv_nth)
    have "map_option parent (h' r) = map_option parent (h r)"
    proof (cases d)
      case 0
      then show ?thesis using at r0 by simp
    next
      case (Suc e)
      then show ?thesis using above [of 0 r] r0 by simp
    qed
    with r show ?thesis by (cases "h' r") auto
  qed
  fix e assume e: "e < d"
  have same: "\<forall>y\<in>set (lv ! e). h' y = h y" using above [OF e] by blast
  have lk: "\<forall>y\<in>set (lv ! e). recs h' y = recs h y" using same by (simp add: recs_def)
  show "routed h' (if Suc e = d then \<rho>' else last_key h') (lv ! e) (lv ! Suc e)"
  proof (rule routed_cong [OF _ _ upperD(6) [OF u e]])
    show "\<forall>a\<in>set (lv ! e). map_option (\<lambda>n. (is_leaf n, records n)) (h' a)
                         = map_option (\<lambda>n. (is_leaf n, records n)) (h a)"
      using same by simp
    show "\<forall>c\<in>set (lv ! Suc e). (if Suc e = d then \<rho>' else last_key h') c = (if Suc e = d then \<rho> else last_key h) c
              \<and> map_option parent (h' c) = map_option parent (h c)"
    proof (cases "Suc e = d")
      case True
      then show ?thesis using at rho by simp
    next
      case False
      then have "Suc e < d" using e by simp
      from above [OF this] show ?thesis using False by (simp add: last_key_def recs_def)
    qed
  qed
  show "chain h' None None (lv ! e)"
    using chain_cong [of "lv ! e" h' h None None] same upperD(7) [OF u e] by simp
  show "sorted_wrt (<) (level_keys h' (lv ! e))"
    using level_keys_cong [OF lk] upperD(8) [OF u e] by simp
  fix a assume a: "a \<in> set (lv ! e)"
  then show "recs h' a \<noteq> []" using lk upperD(9) [OF u e a] by simp
qed

text \<open>The router of a node of level \<open>L'\<close> in its parent.\<close>

lemma routed_parent:
  assumes r: "routed h \<rho> L (xs @ x # ys)" and dist: "distinct (xs @ x # ys)"
  shows "\<exists>q hq ps qs R1 R2 n. L = ps @ q # qs \<and> h q = Some hq \<and> \<not> is_leaf hq
          \<and> h x = Some n \<and> parent n = Some q
          \<and> records hq = R1 @ (\<rho> x, Some x) # R2
          \<and> level_recs h ps @ R1 = map (\<lambda>c. (\<rho> c, Some c)) xs
          \<and> R2 @ level_recs h qs = map (\<lambda>c. (\<rho> c, Some c)) ys"
proof -
  let ?g = "\<lambda>c. (\<rho> c, Some c)"
  have al: "level_recs h L = map ?g xs @ ?g x # map ?g ys" using routedD(2) [OF r] by simp
  have ax: "?g x \<notin> set (map ?g xs)" and ay: "?g x \<notin> set (map ?g ys)" using dist by auto
  have "?g x \<in> set (level_recs h L)" unfolding al by simp
  then obtain q where q: "q \<in> set L" "?g x \<in> set (recs h q)" unfolding in_level_recs by blast
  from q(1) obtain ps qs where L: "L = ps @ q # qs" by (meson split_list)
  from routedD(1) [OF r q(1)] obtain hq where hq: "h q = Some hq" "\<not> is_leaf hq" by auto
  have "level_recs h ps @ recs h q @ level_recs h qs = map ?g xs @ ?g x # map ?g ys"
    using al L by simp
  from unique_split [OF this q(2) ax ay] obtain R1 R2 where
    R: "recs h q = R1 @ ?g x # R2" "level_recs h ps @ R1 = map ?g xs" "R2 @ level_recs h qs = map ?g ys"
    by blast
  have "Some x \<in> snd ` set (recs h q)" using q(2) by force
  from routedD(3) [OF r q(1) this] obtain n where "h x = Some n" "parent n = Some q" by auto
  with L hq R show ?thesis by auto
qed

lemma upper_0: "upper h lv 0 \<rho> \<Longrightarrow> upper h lv 0 \<rho>'"
  by (simp add: upper_def)

lemma set_find_at:
  fixes R1 :: "('k::linorder \<times> 'c) list"
  assumes "sorted_wrt (<) (map fst (R1 @ (k, c) # R2))"
  shows "set_find (R1 @ (k, c) # R2) k = length R1"
proof -
  have "\<forall>x\<in>set R1. fst x < k" using assms by (auto simp: sorted_wrt_append)
  then have lb: "set_lower_bound (R1 @ (k, c) # R2) k = length R1"
    by (simp add: set_lower_bound_def takeWhile_append2)
  show ?thesis by (simp add: set_find_def lb)
qed

lemma set_key_at: "set_key (R1 @ r # R2) (length R1) k = R1 @ (k, snd r) # R2"
  by (simp add: set_key_def)

lemma set_key_last_at: "set_key (R1 @ [r]) (length (R1 @ [r]) - 1) k = R1 @ [(k, snd r)]"
  by (simp add: set_key_def)

lemma sorted_replace_mid:
  fixes A :: "'a::linorder list"
  assumes s: "sorted_wrt (<) (A @ b # B)" and lo: "A \<noteq> [] \<longrightarrow> last A < k" and hi: "B \<noteq> [] \<longrightarrow> k < hd B"
  shows "sorted_wrt (<) (A @ k # B)"
proof -
  have sA: "sorted_wrt (<) A" and sB: "sorted_wrt (<) B" and AB: "\<forall>x\<in>set A. \<forall>y\<in>set B. x < y"
    using s by (auto simp: sorted_wrt_append)
  have 1: "\<forall>x\<in>set A. x < k"
  proof
    fix x assume x: "x \<in> set A"
    then have "A \<noteq> []" by auto
    with lo sorted_le_last [OF sA x] show "x < k" by simp
  qed
  have 2: "\<forall>y\<in>set B. k < y"
  proof
    fix y assume y: "y \<in> set B"
    then have ne: "B \<noteq> []" by auto
    have "hd B \<le> y" using sB y ne by (cases B) auto
    with hi ne show "k < y" by simp
  qed
  show ?thesis using sA sB AB 1 2 by (auto simp: sorted_wrt_append)
qed

text \<open>
  The router of the node \<open>x\<close> in its parent \<open>q\<close> gets the key \<open>new\<close>; the levels
  above the parent have been put in order for the last key that \<open>q\<close> has now.
\<close>

lemma upper_step:
  fixes h :: "'k::linorder heap"
  assumes U: "upper h lv (Suc e) \<rho>" and L: "lv ! Suc e = xs @ x # ys"
    and P: "lv ! e = ps @ q # qs" "h q = Some hq" "records hq = R1 @ (\<rho> x, Some x) # R2"
           "level_recs h ps @ R1 = map (\<lambda>c. (\<rho> c, Some c)) xs"
           "R2 @ level_recs h qs = map (\<lambda>c. (\<rho> c, Some c)) ys"
    and lo: "xs \<noteq> [] \<longrightarrow> \<rho> (last xs) < new" and hi: "ys \<noteq> [] \<longrightarrow> new < \<rho> (hd ys)"
    and h1: "h1 = h(q \<mapsto> hq\<lparr>records := R1 @ (new, Some x) # R2\<rparr>)"
    and up: "upper h' lv e ((last_key h)(q := last_key h1 q))"
    and fr: "\<forall>y. (\<forall>e'<e. y \<notin> set (lv ! e')) \<longrightarrow> h' y = h1 y"
  shows "upper h' lv (Suc e) (\<rho>(x := new))"
proof -
  let ?g = "\<lambda>c. (\<rho> c, Some c)"
  let ?g' = "\<lambda>c. ((\<rho>(x := new)) c, Some c)"
  note d = upperD(1) [OF U]
  have el: "e < length lv" using d by simp
  have dist: "distinct (concat lv)" using upperD(3) [OF U] .
  have dL: "distinct (xs @ x # ys)" using level_distinct [OF dist d] L by simp
  have dP: "distinct (ps @ q # qs)" using level_distinct [OF dist el] P(1) by simp
  have r: "routed h \<rho> (lv ! e) (lv ! Suc e)" using upperD(6) [OF U, of e] by simp
  have qin: "q \<in> set (lv ! e)" using P(1) by simp
  \<comment> \<open>nodes of the levels \<open>e\<close> and below are as in \<open>h1\<close>\<close>
  have low: "h' y = h1 y" if "e \<le> i" "i < length lv" "y \<in> set (lv ! i)" for i y
  proof -
    have "\<forall>e'<e. y \<notin> set (lv ! e')"
    proof (intro allI impI)
      fix e' assume "e' < e"
      then have "e' < length lv" "i \<noteq> e'" using that by auto
      from levels_disjoint [OF dist that(2) this(1) this(2) that(3)] show "y \<notin> set (lv ! e')" .
    qed
    with fr show ?thesis by blast
  qed
  have h1_other: "h1 y = h y" if "y \<noteq> q" for y using that h1 by simp
  have h1_below: "h1 y = h y" if "y \<in> set (lv ! Suc e)" for y
    using levels_disjoint [OF dist d el _ that] qin h1 by auto
  have rq: "recs h1 q = R1 @ (new, Some x) # R2" using h1 by simp
  have rs_ps: "level_recs h1 ps = level_recs h ps"
    using dP by (intro level_recs_cong) (auto simp: recs_def h1)
  have rs_qs: "level_recs h1 qs = level_recs h qs"
    using dP by (intro level_recs_cong) (auto simp: recs_def h1)
  have g_xs: "map ?g' xs = map ?g xs" using dL by auto
  have g_ys: "map ?g' ys = map ?g ys" using dL by auto
  have lrA: "level_recs h1 (lv ! e) = map ?g xs @ (new, Some x) # map ?g ys"
  proof -
    have "level_recs h1 (lv ! e) = (level_recs h ps @ R1) @ (new, Some x) # (R2 @ level_recs h qs)"
      unfolding P(1) using rq rs_ps rs_qs by simp
    then show ?thesis unfolding P(4,5) .
  qed
  have lr1: "level_recs h1 (lv ! e) = map ?g' (lv ! Suc e)"
  proof -
    have "map ?g' (lv ! Suc e) = map ?g' xs @ ?g' x # map ?g' ys" unfolding L by simp
    also have "\<dots> = map ?g xs @ (new, Some x) # map ?g ys" unfolding g_xs g_ys by simp
    finally show ?thesis using lrA by simp
  qed
  have r1: "routed h1 (\<rho>(x := new)) (lv ! e) (lv ! Suc e)"
    unfolding routed_def
  proof (intro conjI ballI allI impI)
    fix a assume a: "a \<in> set (lv ! e)"
    show "\<exists>n. h1 a = Some n \<and> \<not> is_leaf n"
    proof (cases "a = q")
      case True
      then show ?thesis using routedD(1) [OF r qin] P(2) h1 by simp
    next
      case False
      then show ?thesis using routedD(1) [OF r a] h1 by simp
    qed
  next
    show "level_recs h1 (lv ! e) = map ?g' (lv ! Suc e)" by (rule lr1)
  next
    fix a c assume a: "a \<in> set (lv ! e)" and c: "Some c \<in> set (kids_of h1 a)"
    have "Some c \<in> snd ` set (recs h a)"
    proof (cases "a = q")
      case True
      then show ?thesis using c rq P(2,3) by (auto simp: kids_of_def)
    next
      case False
      then show ?thesis using c h1 by (simp add: kids_of_def recs_def)
    qed
    from routedD(3) [OF r a this] obtain n where n: "h c = Some n" "parent n = Some a" by auto
    have "c \<noteq> q"
    proof
      assume "c = q"
      have "(\<rho> c, Some c) \<in> set (level_recs h (lv ! e))"
      proof -
        from \<open>Some c \<in> snd ` set (recs h a)\<close> obtain k where "(k, Some c) \<in> set (recs h a)" by force
        then have "(k, Some c) \<in> set (level_recs h (lv ! e))" using a unfolding in_level_recs by blast
        then show ?thesis unfolding routedD(2) [OF r] by auto
      qed
      then have "c \<in> set (lv ! Suc e)" unfolding routedD(2) [OF r] by auto
      with h1_below [of c] levels_disjoint [OF dist d el _ this] qin \<open>c = q\<close> show False by auto
    qed
    then show "\<exists>n. h1 c = Some n \<and> parent n = Some a" using n h1 by simp
  qed
  have sorted1: "sorted_wrt (<) (level_keys h1 (lv ! e))"
  proof -
    have "map fst (level_recs h (lv ! e)) = map \<rho> xs @ \<rho> x # map \<rho> ys"
      unfolding routedD(2) [OF r] L by (simp add: o_def)
    then have "level_keys h (lv ! e) = map \<rho> xs @ \<rho> x # map \<rho> ys"
      unfolding map_fst_level_recs .
    then have s0: "sorted_wrt (<) (map \<rho> xs @ \<rho> x # map \<rho> ys)" using upperD(8) [OF U, of e] by simp
    have "map fst (level_recs h1 (lv ! e)) = map \<rho> xs @ new # map \<rho> ys"
      unfolding lrA by (simp add: o_def)
    then have eq: "level_keys h1 (lv ! e) = map \<rho> xs @ new # map \<rho> ys"
      unfolding map_fst_level_recs .
    have "sorted_wrt (<) (map \<rho> xs @ new # map \<rho> ys)"
    proof (rule sorted_replace_mid [OF s0])
      show "map \<rho> xs \<noteq> [] \<longrightarrow> last (map \<rho> xs) < new" using lo by (simp add: last_map)
      show "map \<rho> ys \<noteq> [] \<longrightarrow> new < hd (map \<rho> ys)" using hi by (simp add: hd_map)
    qed
    with eq show ?thesis by simp
  qed
  have same_e: "\<forall>y\<in>set (lv ! e). h' y = h1 y" using low [of e] el by simp
  have same_Se: "\<forall>y\<in>set (lv ! Suc e). h' y = h1 y" using low [of "Suc e"] d by simp
  have 6: "routed h' (if Suc e' = Suc e then \<rho>(x := new) else last_key h') (lv ! e') (lv ! Suc e')"
    if e': "e' < Suc e" for e'
  proof (cases "e' = e")
    case True
    have "routed h' (\<rho>(x := new)) (lv ! e) (lv ! Suc e)"
      by (rule routed_cong [OF _ _ r1]) (use same_e same_Se in simp_all)
    with True show ?thesis by simp
  next
    case False
    then have lt: "e' < e" using e' by simp
    have r0: "routed h' (if Suc e' = e then (last_key h)(q := last_key h1 q) else last_key h') (lv ! e') (lv ! Suc e')"
      using upperD(6) [OF up lt] .
    have "routed h' (last_key h') (lv ! e') (lv ! Suc e')"
    proof (cases "Suc e' = e")
      case True
      have "\<forall>c\<in>set (lv ! e). last_key h' c = ((last_key h)(q := last_key h1 q)) c"
      proof
        fix c assume c: "c \<in> set (lv ! e)"
        have "h' c = h1 c" using same_e c by blast
        then have "last_key h' c = last_key h1 c" by (simp add: last_key_def recs_def)
        then show "last_key h' c = ((last_key h)(q := last_key h1 q)) c"
          using h1 by (simp add: last_key_def recs_def)
      qed
      have r0': "routed h' ((last_key h)(q := last_key h1 q)) (lv ! e') (lv ! Suc e')"
        using r0 True by simp
      show ?thesis
        by (rule routed_cong [OF _ _ r0']) (use \<open>\<forall>c\<in>set (lv ! e). last_key h' c = ((last_key h)(q := last_key h1 q)) c\<close> True in simp_all)
    next
      case False
      with r0 show ?thesis by simp
    qed
    with False lt show ?thesis by simp
  qed
  have 7: "chain h' None None (lv ! e')" if e': "e' < Suc e" for e'
  proof (cases "e' = e")
    case True
    have "\<forall>y\<in>set (lv ! e). map_option (\<lambda>n. (pre n, nxt n)) (h' y) = map_option (\<lambda>n. (pre n, nxt n)) (h y)"
    proof
      fix y assume y: "y \<in> set (lv ! e)"
      have "h' y = h1 y" using same_e y by blast
      then show "map_option (\<lambda>n. (pre n, nxt n)) (h' y) = map_option (\<lambda>n. (pre n, nxt n)) (h y)"
        using h1 P(2) by simp
    qed
    from chain_cong [OF this] upperD(7) [OF U, of e] True show ?thesis by simp
  next
    case False
    then have "e' < e" using e' by simp
    from upperD(7) [OF up this] show ?thesis .
  qed
  have 8: "sorted_wrt (<) (level_keys h' (lv ! e'))" if e': "e' < Suc e" for e'
  proof (cases "e' = e")
    case True
    have "level_keys h' (lv ! e) = level_keys h1 (lv ! e)"
      using same_e by (intro level_keys_cong) (simp add: recs_def)
    with sorted1 True show ?thesis by simp
  next
    case False
    then have "e' < e" using e' by simp
    from upperD(8) [OF up this] show ?thesis .
  qed
  have 9: "recs h' a \<noteq> []" if e': "e' < Suc e" and a: "a \<in> set (lv ! e')" for e' a
  proof (cases "e' = e")
    case True
    then have "h' a = h1 a" using same_e a by blast
    then have 1: "recs h' a = recs h1 a" by (simp add: recs_def)
    show ?thesis
    proof (cases "a = q")
      case True
      then show ?thesis using 1 rq by simp
    next
      case False
      then have "recs h1 a = recs h a" using h1 by (simp add: recs_def)
      with 1 upperD(9) [OF U, of e a] a \<open>e' = e\<close> show ?thesis by simp
    qed
  next
    case False
    then have "e' < e" using e' by simp
    from upperD(9) [OF up this a] show ?thesis .
  qed
  show ?thesis
    by (rule upperI [OF d upperD(2,3,4) [OF U] upperD(5) [OF up] 6 7 8 9])
qed

section \<open>\<^verbatim>\<open>fix_key_on_path\<close>\<close>

lemma level_recs_empty_iff:
  "\<forall>c\<in>set xs. recs h c \<noteq> [] \<Longrightarrow> level_recs h xs = [] \<longleftrightarrow> xs = []"
  by (cases xs) auto

lemma map_fst_routers: "map fst (map (\<lambda>c. (\<rho> c, Some c)) xs) = map \<rho> xs"
  by (simp add: o_def)

text \<open>The last keys of the nodes to the left of the parent are below the new key.\<close>

lemma left_of_parent:
  fixes h :: "'k::linorder heap"
  assumes P4: "level_recs h ps @ R1 = map (\<lambda>c. (\<rho> c, Some c)) xs"
    and s: "sorted_wrt (<) (map \<rho> xs)"
    and ne: "\<forall>c\<in>set ps. recs h c \<noteq> []"
    and lo: "xs \<noteq> [] \<longrightarrow> \<rho> (last xs) < new"
  shows "ps \<noteq> [] \<longrightarrow> last_key h (last ps) < new"
proof
  assume pne: "ps \<noteq> []"
  then have "recs h (last ps) \<noteq> []" using ne by simp
  from last_key_level_mem [OF _ this, of ps] pne
  have "last_key h (last ps) \<in> set (level_keys h ps)" by simp
  also have "set (level_keys h ps) \<subseteq> set (map fst (level_recs h ps @ R1))"
    by (simp add: map_fst_level_recs)
  also have "map fst (level_recs h ps @ R1) = map \<rho> xs" unfolding P4 by (rule map_fst_routers)
  finally have m: "last_key h (last ps) \<in> set (map \<rho> xs)" .
  then have xne: "xs \<noteq> []" by auto
  from sorted_le_last [OF s m] have "last_key h (last ps) \<le> \<rho> (last xs)"
    using xne by (simp add: last_map)
  with lo xne show "last_key h (last ps) < new" by simp
qed

lemma fix_to_root_upper:
  fixes h :: "'k::linorder heap"
  shows "upper h lv d \<rho> \<Longrightarrow> lv ! d = xs @ [x] \<Longrightarrow> h x = Some n
     \<Longrightarrow> (xs \<noteq> [] \<longrightarrow> \<rho> (last xs) < new)
     \<Longrightarrow> \<exists>h'. fix_to_root new (parent n) h = Some h' \<and> upper h' lv d (\<rho>(x := new))
            \<and> (\<forall>y. (\<forall>e<d. y \<notin> set (lv ! e)) \<longrightarrow> h' y = h y)
            \<and> (\<forall>y. map_option skel (h' y) = map_option skel (h y))"
proof (induction d arbitrary: h \<rho> xs x n)
  case 0
  from upperD(5) [OF "0.prems"(1)] obtain r rn where r: "hd lv = [r]" "h r = Some rn" "parent rn = None"
    by blast
  have "lv \<noteq> []" using upperD(1) [OF "0.prems"(1)] by auto
  then have "lv ! 0 = [r]" using r(1) by (simp add: hd_conv_nth)
  with "0.prems"(2) have "x = r" by (cases xs) auto
  with r "0.prems"(3) have "parent n = None" by simp
  then have "fix_to_root new (parent n) h = Some h" by (subst fix_to_root.simps) simp
  moreover have "upper h lv 0 (\<rho>(x := new))" using upper_0 [OF "0.prems"(1)] .
  ultimately show ?case by blast
next
  case (Suc e)
  note U = Suc.prems(1) and L = Suc.prems(2) and hx = Suc.prems(3) and lo = Suc.prems(4)
  let ?g = "\<lambda>c. (\<rho> c, Some c)"
  note d = upperD(1) [OF U]
  have el: "e < length lv" using d by simp
  have dist: "distinct (concat lv)" using upperD(3) [OF U] .
  have L': "lv ! Suc e = xs @ x # []" using L by simp
  have dL: "distinct (xs @ x # [])" using level_distinct [OF dist d] L by simp
  have r: "routed h \<rho> (lv ! e) (xs @ x # [])" using upperD(6) [OF U, of e] L by simp
  from routed_parent [OF r dL] hx obtain q hq ps qs R1 R2 where
    P: "lv ! e = ps @ q # qs" "h q = Some hq" "parent n = Some q"
       "records hq = R1 @ (\<rho> x, Some x) # R2"
       "level_recs h ps @ R1 = map ?g xs" "R2 @ level_recs h qs = map ?g []"
    by auto
  have ne: "\<forall>c\<in>set (lv ! e). recs h c \<noteq> []" using upperD(9) [OF U, of e] by simp
  have R2: "R2 = []" and "level_recs h qs = []" using P(6) by simp_all
  then have qs: "qs = []" using level_recs_empty_iff [of qs h] ne P(1) by simp
  have Pe: "lv ! e = ps @ [q]" using P(1) qs by simp
  have qin: "q \<in> set (lv ! e)" using P(1) by simp
  have rq: "records hq = R1 @ [(\<rho> x, Some x)]" using P(4) R2 by simp
  let ?hq1 = "hq\<lparr>records := R1 @ (new, Some x) # R2\<rparr>"
  let ?h1 = "h(q \<mapsto> ?hq1)"
  have unfold: "fix_to_root new (parent n) h = fix_to_root new (parent hq) ?h1"
    unfolding P(3)
    by (subst fix_to_root.simps) (simp add: P(2) set_last_def rq R2 set_key_at [of R1 _ "[]", simplified])
  have u1: "upper ?h1 lv e (last_key h)"
  proof (rule upper_cong [OF upper_down [OF U]])
    fix e' y assume "e' < e" "y \<in> set (lv ! e')"
    then have "y \<noteq> q" using levels_disjoint [OF dist el _ _ qin, of e'] el by auto
    then show "?h1 y = h y" by simp
  next
    fix y assume "y \<in> set (lv ! e)"
    show "map_option parent (?h1 y) = map_option parent (h y)" using P(2) by simp
  qed simp
  have h1q: "?h1 q = Some ?hq1" by simp
  have sx: "sorted_wrt (<) (map \<rho> xs)"
  proof -
    have "map fst (level_recs h (lv ! e)) = map \<rho> (xs @ [x])"
      unfolding routedD(2) [OF r] by (simp add: o_def)
    then have "level_keys h (lv ! e) = map \<rho> xs @ [\<rho> x]" unfolding map_fst_level_recs by simp
    with upperD(8) [OF U, of e] show ?thesis by (simp add: sorted_wrt_append)
  qed
  have lo_e: "ps \<noteq> [] \<longrightarrow> last_key h (last ps) < new"
    using left_of_parent [OF P(5) sx _ lo] ne Pe by simp
  from Suc.IH [OF u1 Pe h1q lo_e] obtain h' where
    r': "fix_to_root new (parent ?hq1) ?h1 = Some h'" "upper h' lv e ((last_key h)(q := new))"
        "\<forall>y. (\<forall>e'<e. y \<notin> set (lv ! e')) \<longrightarrow> h' y = ?h1 y"
        "\<forall>y. map_option skel (h' y) = map_option skel (?h1 y)"
    by blast
  have lk1: "last_key ?h1 q = new" using R2 by (simp add: last_key_def)
  have up: "upper h' lv e ((last_key h)(q := last_key ?h1 q))" unfolding lk1 by (rule r'(2))
  have P5': "R2 @ level_recs h qs = map ?g []" using P(6) .
  have U': "upper h' lv (Suc e) (\<rho>(x := new))"
    by (rule upper_step [OF U L' P(1,2,4,5) P5' lo _ refl up r'(3)]) simp
  have f1: "\<forall>y. (\<forall>e'<Suc e. y \<notin> set (lv ! e')) \<longrightarrow> h' y = h y"
  proof (intro allI impI)
    fix y assume y: "\<forall>e'<Suc e. y \<notin> set (lv ! e')"
    then have "y \<noteq> q" using qin by auto
    moreover have "h' y = ?h1 y" using r'(3) y by simp
    ultimately show "h' y = h y" by simp
  qed
  have f2: "\<forall>y. map_option skel (h' y) = map_option skel (h y)"
  proof
    fix y
    have "map_option skel (?h1 y) = map_option skel (h y)"
      using P(2) rq R2 by (simp add: skel_def)
    with r'(4) show "map_option skel (h' y) = map_option skel (h y)" by simp
  qed
  have "fix_to_root new (parent n) h = Some h'" using unfold r'(1) by simp
  then show ?case using U' f1 f2 by blast
qed

lemma sorted_node_of_level:
  fixes h :: "'k::linorder heap"
  assumes "sorted_wrt (<) (level_keys h L)" and "a \<in> set L"
  shows "sorted_wrt (<) (map fst (recs h a))"
proof -
  from assms(2) obtain xs ys where "L = xs @ a # ys" by (meson split_list)
  with assms(1) show ?thesis by (simp add: sorted_wrt_append keys_of_def)
qed

lemma fix_to_common_upper:
  fixes h :: "'k::linorder heap"
  shows "upper h lv d \<rho> \<Longrightarrow> lv ! d = xs @ x # y # ys \<Longrightarrow> h x = Some n \<Longrightarrow> h y = Some ny
     \<Longrightarrow> \<rho> x = old \<Longrightarrow> (xs \<noteq> [] \<longrightarrow> \<rho> (last xs) < new) \<Longrightarrow> new < \<rho> y
     \<Longrightarrow> \<exists>h'. fix_to_common old new (parent n) (parent ny) h = Some h' \<and> upper h' lv d (\<rho>(x := new))
            \<and> (\<forall>z. (\<forall>e<d. z \<notin> set (lv ! e)) \<longrightarrow> h' z = h z)
            \<and> (\<forall>z. map_option skel (h' z) = map_option skel (h z))"
proof (induction d arbitrary: h \<rho> xs x y ys n ny)
  case 0
  from upperD(5) [OF "0.prems"(1)] obtain r where r: "hd lv = [r]" by blast
  have "lv \<noteq> []" using upperD(1) [OF "0.prems"(1)] by auto
  then have "lv ! 0 = [r]" using r(1) by (simp add: hd_conv_nth)
  with "0.prems"(2) have False by (cases xs) auto
  then show ?case ..
next
  case (Suc e)
  note U = Suc.prems(1) and L = Suc.prems(2) and hx = Suc.prems(3) and hy = Suc.prems(4)
    and old = Suc.prems(5) and lo = Suc.prems(6) and hi = Suc.prems(7)
  let ?g = "\<lambda>c. (\<rho> c, Some c)"
  note d = upperD(1) [OF U]
  have el: "e < length lv" using d by simp
  have dist: "distinct (concat lv)" using upperD(3) [OF U] .
  have dL: "distinct (xs @ x # y # ys)" using level_distinct [OF dist d] L by simp
  have r: "routed h \<rho> (lv ! e) (xs @ x # y # ys)" using upperD(6) [OF U, of e] L by simp
  from routed_parent [OF r dL] hx obtain q hq ps qs R1 R2 where
    P: "lv ! e = ps @ q # qs" "h q = Some hq" "parent n = Some q"
       "records hq = R1 @ (\<rho> x, Some x) # R2"
       "level_recs h ps @ R1 = map ?g xs" "R2 @ level_recs h qs = map ?g (y # ys)"
    by auto
  have ne: "\<forall>c\<in>set (lv ! e). recs h c \<noteq> []" using upperD(9) [OF U, of e] by simp
  have qin: "q \<in> set (lv ! e)" using P(1) by simp
  have dP: "distinct (ps @ q # qs)" using level_distinct [OF dist el] P(1) by simp
  have se: "sorted_wrt (<) (level_keys h (lv ! e))" using upperD(8) [OF U, of e] by simp
  have sq: "sorted_wrt (<) (map fst (records hq))" using sorted_node_of_level [OF se qin] P(2) by simp
  have sx: "sorted_wrt (<) (map \<rho> xs)"
  proof -
    have "map fst (level_recs h (lv ! e)) = map \<rho> (xs @ x # y # ys)"
      unfolding routedD(2) [OF r] by (simp add: o_def)
    then have "level_keys h (lv ! e) = map \<rho> xs @ map \<rho> (x # y # ys)" unfolding map_fst_level_recs by simp
    with se show ?thesis by (simp add: sorted_wrt_append)
  qed
  have lo_e: "ps \<noteq> [] \<longrightarrow> last_key h (last ps) < new"
    using left_of_parent [OF P(5) sx _ lo] ne P(1) by simp
  let ?hq1 = "hq\<lparr>records := R1 @ (new, Some x) # R2\<rparr>"
  let ?h1 = "h(q \<mapsto> ?hq1)"
  have hi': "y # ys \<noteq> [] \<longrightarrow> new < \<rho> (hd (y # ys))" using hi by simp
  have u1: "upper ?h1 lv e (last_key h)"
  proof (rule upper_cong [OF upper_down [OF U]])
    fix e' z assume "e' < e" "z \<in> set (lv ! e')"
    then have "z \<noteq> q" using levels_disjoint [OF dist el _ _ qin, of e'] el by auto
    then show "?h1 z = h z" by simp
  next
    fix z assume "z \<in> set (lv ! e)"
    show "map_option parent (?h1 z) = map_option parent (h z)" using P(2) by simp
  qed simp
  have sk1: "\<forall>z. map_option skel (?h1 z) = map_option skel (h z)"
    using P(2,4) by (simp add: skel_def)
  have f_same: "\<forall>z. (\<forall>e'<Suc e. z \<notin> set (lv ! e')) \<longrightarrow> ?h1 z = h z"
    using qin by auto
  show ?case
  proof (cases R2)
    case (Cons r2 R2')
    then have r2: "r2 = ?g y" using P(6) by simp
    have "Some y \<in> snd ` set (recs h q)" using P(2,4) Cons r2 by force
    from routedD(3) [OF r qin this] hy have py: "parent ny = Some q" by simp
    have sf: "set_find (R1 @ (\<rho> x, Some x) # R2) old = length R1"
      using set_find_at [of R1 old "Some x" R2] sq P(4) old by simp
    have run: "fix_to_common old new (parent n) (parent ny) h = Some ?h1"
      unfolding P(3) py
      by (subst fix_to_common.simps) (simp add: P(2) sf set_at_def P(4) set_key_at Let_def)
    have lk: "last_key ?h1 q = last_key h q" using P(2,4) Cons by (simp add: last_key_def)
    have "(last_key h)(q := last_key ?h1 q) = last_key h" unfolding lk by simp
    then have up: "upper ?h1 lv e ((last_key h)(q := last_key ?h1 q))" using u1 by metis
    have U': "upper ?h1 lv (Suc e) (\<rho>(x := new))"
      by (rule upper_step [OF U L P(1,2,4,5,6) lo hi' refl up]) simp
    show ?thesis using run U' sk1 f_same by blast
  next
    case Nil
    then have lq: "level_recs h qs = ?g y # map ?g ys" using P(6) by simp
    then have "qs \<noteq> []" by auto
    then obtain q' qs' where qs: "qs = q' # qs'" by (cases qs) auto
    have q'in: "q' \<in> set (lv ! e)" using P(1) qs by simp
    have qq': "q \<noteq> q'" using dP qs by auto
    from routedD(1) [OF r q'in] obtain hq' where hq': "h q' = Some hq'" by auto
    have "recs h q' \<noteq> []" using ne q'in by blast
    then obtain R' where R': "records hq' = ?g y # R'" using lq qs hq' by (cases "records hq'") auto
    have "Some y \<in> snd ` set (recs h q')" using hq' R' by force
    from routedD(3) [OF r q'in this] hy have py: "parent ny = Some q'" by simp
    have rq: "records hq = R1 @ [(\<rho> x, Some x)]" using P(4) Nil by simp
    have unfold: "fix_to_common old new (parent n) (parent ny) h
                  = fix_to_common old new (parent hq) (parent hq') ?h1"
      unfolding P(3) py
      by (subst fix_to_common.simps)
         (simp add: qq' qq' [symmetric] P(2) hq' set_last_def rq Nil set_key_at [of R1 _ "[]", simplified] Let_def)
    have Pe: "lv ! e = ps @ q # q' # qs'" using P(1) qs by simp
    have h1q: "?h1 q = Some ?hq1" by simp
    have h1q': "?h1 q' = Some hq'" using qq' hq' by simp
    have lkq: "last_key h q = old" using P(2) rq old by (simp add: last_key_def)
    have sq': "sorted_wrt (<) (map fst (records hq'))"
      using sorted_node_of_level [OF se q'in] hq' by simp
    have hi_e: "new < last_key h q'"
    proof (cases R')
      case Nil
      then show ?thesis using hq' R' hi by (simp add: last_key_def)
    next
      case (Cons a list)
      then have "\<rho> y < fst (last (records hq'))" using sq' R' by (auto simp: sorted_wrt_append)
      then show ?thesis using hq' hi by (simp add: last_key_def)
    qed
    from Suc.IH [OF u1 Pe h1q h1q' lkq lo_e hi_e] obtain h' where
      r': "fix_to_common old new (parent ?hq1) (parent hq') ?h1 = Some h'"
          "upper h' lv e ((last_key h)(q := new))"
          "\<forall>z. (\<forall>e'<e. z \<notin> set (lv ! e')) \<longrightarrow> h' z = ?h1 z"
          "\<forall>z. map_option skel (h' z) = map_option skel (?h1 z)"
      by blast
    have lk1: "last_key ?h1 q = new" using Nil by (simp add: last_key_def)
    have up: "upper h' lv e ((last_key h)(q := last_key ?h1 q))" unfolding lk1 by (rule r'(2))
    have U': "upper h' lv (Suc e) (\<rho>(x := new))"
      by (rule upper_step [OF U L P(1,2,4,5,6) lo hi' refl up r'(3)])
    have f1: "\<forall>z. (\<forall>e'<Suc e. z \<notin> set (lv ! e')) \<longrightarrow> h' z = h z"
    proof (intro allI impI)
      fix z assume z: "\<forall>e'<Suc e. z \<notin> set (lv ! e')"
      then have "z \<noteq> q" using qin by auto
      moreover have "h' z = ?h1 z" using r'(3) z by simp
      ultimately show "h' z = h z" by simp
    qed
    have f2: "\<forall>z. map_option skel (h' z) = map_option skel (h z)"
      using r'(4) sk1 by simp
    have "fix_to_common old new (parent n) (parent ny) h = Some h'" using unfold r'(1) by simp
    then show ?thesis using U' f1 f2 by blast
  qed
qed

text \<open>
  \<^verbatim>\<open>fix_key_on_path(node, old_key, new_key)\<close> for a node \<open>a\<close> of level \<open>d\<close> whose
  router carries \<open>old\<close>: afterwards it carries \<open>new\<close>, and the levels above are in
  order again. Only keys of records above level \<open>d\<close> change.
\<close>

lemma fix_key_on_path_upper:
  fixes h :: "'k::linorder heap"
  assumes U: "upper h lv d \<rho>" and L: "lv ! d = xs @ a # ys" and n: "h a = Some n"
    and nx: "nxt n = (if ys = [] then e else Some (hd ys))" and e: "e = None \<or> e = Some m_header"
    and y: "ys \<noteq> [] \<longrightarrow> h (hd ys) \<noteq> None"
    and old: "\<rho> a = old"
    and lo: "xs \<noteq> [] \<longrightarrow> \<rho> (last xs) < new" and hi: "ys \<noteq> [] \<longrightarrow> new < \<rho> (hd ys)"
  shows "\<exists>h'. fix_key_on_path a old new h = Some h' \<and> upper h' lv d (\<rho>(a := new))
            \<and> (\<forall>z. (\<forall>e<d. z \<notin> set (lv ! e)) \<longrightarrow> h' z = h z)
            \<and> (\<forall>z. map_option skel (h' z) = map_option skel (h z))"
proof (cases ys)
  case Nil
  then have "nxt n = None \<or> nxt n = Some m_header" using nx e by auto
  then have run: "fix_key_on_path a old new h = fix_to_root new (parent n) h"
    using n by (auto simp: fix_key_on_path_def)
  have L': "lv ! d = xs @ [a]" using L Nil by simp
  from fix_to_root_upper [OF U L' n lo] show ?thesis unfolding run .
next
  case (Cons b ys')
  then obtain nb where nb: "h b = Some nb" using y by auto
  have "b \<in> set (concat lv)" using in_concat_level [OF upperD(1) [OF U], of b] L Cons by simp
  then have bh: "b \<noteq> m_header" using upperD(4) [OF U] by auto
  have "nxt n = Some b" using nx Cons by simp
  then have run: "fix_key_on_path a old new h = fix_to_common old new (parent n) (parent nb) h"
    using n nb bh by (simp add: fix_key_on_path_def)
  have L': "lv ! d = xs @ a # b # ys'" using L Cons by simp
  have hi': "new < \<rho> b" using hi Cons by simp
  from fix_to_common_upper [OF U L' n nb old lo hi'] show ?thesis unfolding run .
qed

section \<open>A tree as its upper and its lower part\<close>

lemma lowerD:
  assumes "lower h lv d ov"
  shows "\<And>e. d \<le> e \<Longrightarrow> Suc e < length lv \<Longrightarrow> internal_level h ov (lv ! e) (lv ! Suc e)"
    and "\<And>e. d \<le> e \<Longrightarrow> Suc e < length lv \<Longrightarrow> chain h None None (lv ! e)"
    and "leaf_level h (last lv)"
    and "chain h (Some m_header) (Some m_header) (last lv)"
    and "\<exists>hn. h m_header = Some hn \<and> nxt hn = Some (hd (last lv)) \<and> pre hn = Some (last (last lv))"
    and "\<And>e. d \<le> e \<Longrightarrow> e < length lv \<Longrightarrow> sorted_wrt (<) (level_keys h (lv ! e))"
    and "\<And>e a. d \<le> e \<Longrightarrow> e < length lv \<Longrightarrow> a \<in> set (lv ! e)
           \<Longrightarrow> (case ov of None \<Rightarrow> True | Some (b, k) \<Rightarrow> a \<noteq> b) \<Longrightarrow> recs h a \<noteq> []"
  using assms unfolding lower_def by simp_all

lemma lowerI:
  assumes "\<And>e. d \<le> e \<Longrightarrow> Suc e < length lv \<Longrightarrow> internal_level h ov (lv ! e) (lv ! Suc e)"
    and "\<And>e. d \<le> e \<Longrightarrow> Suc e < length lv \<Longrightarrow> chain h None None (lv ! e)"
    and "leaf_level h (last lv)"
    and "chain h (Some m_header) (Some m_header) (last lv)"
    and "\<exists>hn. h m_header = Some hn \<and> nxt hn = Some (hd (last lv)) \<and> pre hn = Some (last (last lv))"
    and "\<And>e. d \<le> e \<Longrightarrow> e < length lv \<Longrightarrow> sorted_wrt (<) (level_keys h (lv ! e))"
    and "\<And>e a. d \<le> e \<Longrightarrow> e < length lv \<Longrightarrow> a \<in> set (lv ! e)
           \<Longrightarrow> (case ov of None \<Rightarrow> True | Some (b, k) \<Rightarrow> a \<noteq> b) \<Longrightarrow> recs h a \<noteq> []"
  shows "lower h lv d ov"
  unfolding lower_def using assms by blast

lemma shape_lower:
  assumes s: "shape h lv ov"
  shows "lower h lv d ov"
proof (rule lowerI)
  show "internal_level h ov (lv ! e) (lv ! Suc e)" if "Suc e < length lv" for e
    using shape_internal [OF s that] .
  show "chain h None None (lv ! e)" if "Suc e < length lv" for e
    using shape_chain [OF s that] .
  show "leaf_level h (last lv)" using shapeD(7) [OF s] .
  show "chain h (Some m_header) (Some m_header) (last lv)" using shapeD(8) [OF s] .
  show "\<exists>hn. h m_header = Some hn \<and> nxt hn = Some (hd (last lv)) \<and> pre hn = Some (last (last lv))"
    using shapeD(9) [OF s] .
  show "sorted_wrt (<) (level_keys h (lv ! e))" if "e < length lv" for e
    using shape_sorted [OF s that] .
  show "recs h a \<noteq> []"
    if "e < length lv" "a \<in> set (lv ! e)" "case ov of None \<Rightarrow> True | Some (b, k) \<Rightarrow> a \<noteq> b" for e a
    using shapeD(11) [OF s] in_concat_level [OF that(1,2)] that(3) by blast
qed

text \<open>
  The two parts make a tree when the keys \<open>\<rho>\<close> that the upper part expects of the
  nodes of level \<open>d\<close> are the keys that these nodes are to be routed by.
\<close>

lemma shape_glue:
  assumes U: "upper h lv d \<rho>" and W: "lower h lv d ov"
    and g: "\<And>c. c \<in> set (lv ! d) \<Longrightarrow> \<rho> c = rep_key h ov c"
    and o: "case ov of None \<Rightarrow> True | Some (b, k) \<Rightarrow> \<forall>e<d. b \<notin> set (lv ! e)"
  shows "shape h lv ov"
proof (rule shapeI)
  note d = upperD(1) [OF U]
  show "lv \<noteq> []" using d by auto
  show "\<forall>L\<in>set lv. L \<noteq> []" using upperD(2) [OF U] .
  show "distinct (concat lv)" using upperD(3) [OF U] .
  show "m_header \<notin> set (concat lv)" using upperD(4) [OF U] .
  show "\<exists>r n. hd lv = [r] \<and> h r = Some n \<and> parent n = None" using upperD(5) [OF U] .
  have above: "rep_key h ov c = last_key h c \<and> (case ov of None \<Rightarrow> True | Some (b, k) \<Rightarrow> c \<noteq> b)"
    if "e < d" "c \<in> set (lv ! e)" for e c
  proof (cases ov)
    case None
    then show ?thesis by (simp add: rep_key_def)
  next
    case (Some bk)
    obtain b k where bk: "bk = (b, k)" by (cases bk)
    have "b \<notin> set (lv ! e)" using o that(1) Some bk by simp
    then have "c \<noteq> b" using that(2) by auto
    then show ?thesis using Some bk by (simp add: rep_key_def)
  qed
  show "internal_level h ov (lv ! e) (lv ! Suc e)" if e: "Suc e < length lv" for e
  proof (cases "d \<le> e")
    case True
    then show ?thesis using lowerD(1) [OF W _ e] by simp
  next
    case False
    then have lt: "e < d" by simp
    have r: "routed h (if Suc e = d then \<rho> else last_key h) (lv ! e) (lv ! Suc e)"
      using upperD(6) [OF U lt] .
    have "routed h (rep_key h ov) (lv ! e) (lv ! Suc e)"
    proof (rule routed_cong [OF _ _ r])
      show "\<forall>a\<in>set (lv ! e). map_option (\<lambda>n. (is_leaf n, records n)) (h a)
               = map_option (\<lambda>n. (is_leaf n, records n)) (h a)" by simp
      show "\<forall>c\<in>set (lv ! Suc e). rep_key h ov c = (if Suc e = d then \<rho> else last_key h) c
               \<and> map_option parent (h c) = map_option parent (h c)"
      proof (cases "Suc e = d")
        case True
        then show ?thesis using g by simp
      next
        case False
        then have "Suc e < d" using lt by simp
        from above [OF this] False show ?thesis by simp
      qed
    qed
    then show ?thesis by (simp add: internal_level_routed)
  qed
  show "chain h None None (lv ! e)" if e: "Suc e < length lv" for e
  proof (cases "d \<le> e")
    case True
    then show ?thesis using lowerD(2) [OF W _ e] by simp
  next
    case False
    then show ?thesis using upperD(7) [OF U, of e] by simp
  qed
  show "leaf_level h (last lv)" using lowerD(3) [OF W] .
  show "chain h (Some m_header) (Some m_header) (last lv)" using lowerD(4) [OF W] .
  show "\<exists>hn. h m_header = Some hn \<and> nxt hn = Some (hd (last lv)) \<and> pre hn = Some (last (last lv))"
    using lowerD(5) [OF W] .
  show "sorted_wrt (<) (level_keys h (lv ! e))" if e: "e < length lv" for e
  proof (cases "d \<le> e")
    case True
    then show ?thesis using lowerD(6) [OF W _ e] by simp
  next
    case False
    then show ?thesis using upperD(8) [OF U, of e] by simp
  qed
  show "recs h a \<noteq> []"
    if "e < length lv" "a \<in> set (lv ! e)" "case ov of None \<Rightarrow> True | Some (b, k) \<Rightarrow> a \<noteq> b" for e a
  proof (cases "d \<le> e")
    case True
    then show ?thesis using lowerD(7) [OF W _ that] by simp
  next
    case False
    then show ?thesis using upperD(9) [OF U, of e a] that(2) by simp
  qed
qed

text \<open>The lower part depends on the nodes from level \<open>d\<close> downwards and on the header.\<close>

lemma lower_cong:
  assumes W: "lower h lv d ov" and d: "d < length lv"
    and same: "\<And>e z. d \<le> e \<Longrightarrow> e < length lv \<Longrightarrow> z \<in> set (lv ! e) \<Longrightarrow> h' z = h z"
    and hdr: "h' m_header = h m_header"
  shows "lower h' lv d ov"
proof (rule lowerI)
  have lvne: "lv \<noteq> []" using d by auto
  have last_same: "\<forall>z\<in>set (last lv). h' z = h z"
    using same [of "length lv - 1"] d lvne by (simp add: last_conv_nth)
  show "internal_level h' ov (lv ! e) (lv ! Suc e)" if "d \<le> e" "Suc e < length lv" for e
  proof -
    have "internal_level h' ov (lv ! e) (lv ! Suc e) = internal_level h ov (lv ! e) (lv ! Suc e)"
    proof (rule internal_level_cong)
      show "\<forall>a\<in>set (lv ! e). map_option (\<lambda>n. (is_leaf n, records n)) (h' a)
               = map_option (\<lambda>n. (is_leaf n, records n)) (h a)"
        using same [OF that(1)] that(2) by simp
      show "\<forall>c\<in>set (lv ! Suc e). rep_key h' ov c = rep_key h ov c
               \<and> map_option parent (h' c) = map_option parent (h c)"
      proof
        fix c assume "c \<in> set (lv ! Suc e)"
        then have "h' c = h c" using same [of "Suc e" c] that by simp
        moreover from this have "last_key h' c = last_key h c" by (simp add: last_key_def recs_def)
        ultimately show "rep_key h' ov c = rep_key h ov c \<and> map_option parent (h' c) = map_option parent (h c)"
          by (simp add: rep_key_def split: option.splits)
      qed
    qed
    then show ?thesis using lowerD(1) [OF W that] by simp
  qed
  show "chain h' None None (lv ! e)" if "d \<le> e" "Suc e < length lv" for e
    using chain_cong [of "lv ! e" h' h None None] same [OF that(1)] that(2) lowerD(2) [OF W that]
    by simp
  show "leaf_level h' (last lv)"
    using leaf_level_cong [of "last lv" h' h] last_same lowerD(3) [OF W] by simp
  show "chain h' (Some m_header) (Some m_header) (last lv)"
    using chain_cong [of "last lv" h' h] last_same lowerD(4) [OF W] by simp
  show "\<exists>hn. h' m_header = Some hn \<and> nxt hn = Some (hd (last lv)) \<and> pre hn = Some (last (last lv))"
    using lowerD(5) [OF W] hdr by simp
  show "sorted_wrt (<) (level_keys h' (lv ! e))" if "d \<le> e" "e < length lv" for e
  proof -
    have "level_keys h' (lv ! e) = level_keys h (lv ! e)"
      using same [OF that] by (intro level_keys_cong) (simp add: recs_def)
    then show ?thesis using lowerD(6) [OF W that] by simp
  qed
  show "recs h' a \<noteq> []"
    if "d \<le> e" "e < length lv" "a \<in> set (lv ! e)" "case ov of None \<Rightarrow> True | Some (b, k) \<Rightarrow> a \<noteq> b" for e a
    using lowerD(7) [OF W that] same [OF that(1,2,3)] by (simp add: recs_def)
qed

lemma rep_key_not_ov:
  assumes "case ov of None \<Rightarrow> True | Some (b, k) \<Rightarrow> c \<noteq> b"
  shows "rep_key h ov c = last_key h c"
  using assms by (auto simp: rep_key_def split: option.splits)

text \<open>
  The records of the nodes of a level are dealt out anew among these nodes, in the
  same order, and the children follow their records.
\<close>

lemma lower_swap:
  fixes G :: "'k::linorder heap"
  assumes W: "lower G lv d ov" and d: "d < length lv"
    and o: "\<And>e c. d < e \<Longrightarrow> e < length lv \<Longrightarrow> c \<in> set (lv ! e)
               \<Longrightarrow> (case ov of None \<Rightarrow> True | Some (b, k) \<Rightarrow> c \<noteq> b)"
    and o': "\<And>e c. d < e \<Longrightarrow> e < length lv \<Longrightarrow> c \<in> set (lv ! e)
               \<Longrightarrow> (case ov' of None \<Rightarrow> True | Some (b, k) \<Rightarrow> c \<noteq> b)"
    and links: "\<And>z. z \<in> set (lv ! d) \<Longrightarrow>
                  map_option (\<lambda>n. (is_leaf n, pre n, nxt n)) (V z) = map_option (\<lambda>n. (is_leaf n, pre n, nxt n)) (G z)"
    and recs: "level_recs V (lv ! d) = level_recs G (lv ! d)"
    and kids: "\<And>z c. Suc d < length lv \<Longrightarrow> z \<in> set (lv ! d) \<Longrightarrow> Some c \<in> snd ` set (recs V z)
                  \<Longrightarrow> \<exists>n. V c = Some n \<and> parent n = Some z"
    and below: "\<And>c. Suc d < length lv \<Longrightarrow> c \<in> set (lv ! Suc d) \<Longrightarrow>
                  map_option (\<lambda>n. (is_leaf n, records n, pre n, nxt n)) (V c)
                  = map_option (\<lambda>n. (is_leaf n, records n, pre n, nxt n)) (G c)"
    and deep: "\<And>e z. Suc d < e \<Longrightarrow> e < length lv \<Longrightarrow> z \<in> set (lv ! e) \<Longrightarrow> V z = G z"
    and hdr: "V m_header = G m_header"
    and ne: "\<And>z. z \<in> set (lv ! d) \<Longrightarrow> (case ov' of None \<Rightarrow> True | Some (b, k) \<Rightarrow> z \<noteq> b) \<Longrightarrow> recs V z \<noteq> []"
  shows "lower V lv d ov'"
proof (rule lowerI)
  have lvne: "lv \<noteq> []" using d by auto
  let ?l = "length lv - 1"
  have ll: "last lv = lv ! ?l" using lvne by (rule last_conv_nth)
  have l_lt: "?l < length lv" and l_ge: "d \<le> ?l" using d by auto
  \<comment> \<open>what the nodes below level \<open>d\<close> keep\<close>
  have view: "map_option (\<lambda>n. (is_leaf n, records n, pre n, nxt n)) (V z)
              = map_option (\<lambda>n. (is_leaf n, records n, pre n, nxt n)) (G z)"
    if "d < e" "e < length lv" "z \<in> set (lv ! e)" for e z
  proof (cases "e = Suc d")
    case True
    then show ?thesis using below that by simp
  next
    case False
    then have "Suc d < e" using that(1) by simp
    from deep [OF this that(2,3)] show ?thesis by simp
  qed
  have view_lr: "map_option (\<lambda>n. (is_leaf n, records n)) (V z) = map_option (\<lambda>n. (is_leaf n, records n)) (G z)"
    and view_pn: "map_option (\<lambda>n. (pre n, nxt n)) (V z) = map_option (\<lambda>n. (pre n, nxt n)) (G z)"
    if "d < e" "e < length lv" "z \<in> set (lv ! e)" for e z
    using view [OF that] by (cases "V z"; cases "G z"; simp)+
  have recs_same: "recs V z = recs G z" if "d < e" "e < length lv" "z \<in> set (lv ! e)" for e z
    using view_lr [OF that] by (rule recs_cong)
  have links_pn: "map_option (\<lambda>n. (pre n, nxt n)) (V z) = map_option (\<lambda>n. (pre n, nxt n)) (G z)"
    if "z \<in> set (lv ! d)" for z
    using links [OF that] by (cases "V z"; cases "G z"; simp)
  have rk: "rep_key V ov' c = rep_key G ov c"
    if "d < e" "e < length lv" "c \<in> set (lv ! e)" for e c
  proof -
    have "last_key V c = last_key G c" using recs_same [OF that] by (simp add: last_key_def)
    then show ?thesis using rep_key_not_ov [OF o [OF that]] rep_key_not_ov [OF o' [OF that]] by simp
  qed
  show "internal_level V ov' (lv ! e) (lv ! Suc e)" if e: "d \<le> e" "Suc e < length lv" for e
  proof (cases "e = d")
    case True
    have Sd: "Suc d < length lv" using e True by simp
    have il: "internal_level G ov (lv ! d) (lv ! Suc d)" using lowerD(1) [OF W _ Sd] by simp
    have 1: "\<forall>a\<in>set (lv ! d). \<exists>n. V a = Some n \<and> \<not> is_leaf n"
    proof
      fix a assume a: "a \<in> set (lv ! d)"
      from internal_level_node [OF il a] obtain n where n: "G a = Some n" "\<not> is_leaf n" by auto
      with links [OF a] show "\<exists>n. V a = Some n \<and> \<not> is_leaf n" by (cases "V a") auto
    qed
    have "map (\<lambda>c. (rep_key V ov' c, Some c)) (lv ! Suc d) = map (\<lambda>c. (rep_key G ov c, Some c)) (lv ! Suc d)"
      using rk [of "Suc d"] Sd by (intro map_cong refl) simp
    then have 2: "level_recs V (lv ! d) = map (\<lambda>c. (rep_key V ov' c, Some c)) (lv ! Suc d)"
      using recs internal_level_recs [OF il] by simp
    have 3: "\<forall>a\<in>set (lv ! d). \<forall>c. Some c \<in> set (kids_of V a) \<longrightarrow> (\<exists>n. V c = Some n \<and> parent n = Some a)"
      using kids [OF Sd] by (simp add: kids_of_def)
    show ?thesis unfolding True internal_level_def using 1 2 3 by blast
  next
    case False
    then have lt: "d < e" using e by simp
    have el: "e < length lv" using e by simp
    have "internal_level V ov' (lv ! e) (lv ! Suc e) = internal_level G ov (lv ! e) (lv ! Suc e)"
    proof (rule internal_level_cong)
      show "\<forall>a\<in>set (lv ! e). map_option (\<lambda>n. (is_leaf n, records n)) (V a)
               = map_option (\<lambda>n. (is_leaf n, records n)) (G a)"
        using view_lr [OF lt el] by blast
      show "\<forall>c\<in>set (lv ! Suc e). rep_key V ov' c = rep_key G ov c
               \<and> map_option parent (V c) = map_option parent (G c)"
      proof
        fix c assume c: "c \<in> set (lv ! Suc e)"
        have "Suc d < Suc e" "d < Suc e" using lt by simp_all
        from deep [OF this(1) e(2) c] rk [OF this(2) e(2) c]
        show "rep_key V ov' c = rep_key G ov c \<and> map_option parent (V c) = map_option parent (G c)"
          by simp
      qed
    qed
    then show ?thesis using lowerD(1) [OF W e] by simp
  qed
  have pn: "\<forall>z\<in>set (lv ! e). map_option (\<lambda>n. (pre n, nxt n)) (V z) = map_option (\<lambda>n. (pre n, nxt n)) (G z)"
    if "d \<le> e" "e < length lv" for e
  proof (cases "e = d")
    case True
    then show ?thesis using links_pn by blast
  next
    case False
    then have "d < e" using that by simp
    from view_pn [OF this that(2)] show ?thesis by blast
  qed
  show "chain V None None (lv ! e)" if e: "d \<le> e" "Suc e < length lv" for e
  proof -
    have "e < length lv" using e by simp
    from chain_cong [OF pn [OF e(1) this]] lowerD(2) [OF W e] show ?thesis by simp
  qed
  show "chain V (Some m_header) (Some m_header) (last lv)"
    using chain_cong [OF pn [OF l_ge l_lt]] lowerD(4) [OF W] ll by simp
  show "leaf_level V (last lv)"
  proof (cases "?l = d")
    case False
    then have lt: "d < ?l" using l_ge by simp
    have "\<forall>a\<in>set (last lv). map_option (\<lambda>n. (is_leaf n, records n)) (V a)
                      = map_option (\<lambda>n. (is_leaf n, records n)) (G a)"
      using view_lr [OF lt l_lt] ll by simp
    from leaf_level_cong [OF this] lowerD(3) [OF W] show ?thesis by simp
  next
    case True
    have lG: "leaf_level G (lv ! d)" using lowerD(3) [OF W] ll True by simp
    have "\<forall>r\<in>set (level_recs G (lv ! d)). snd r = None"
    proof
      fix r assume "r \<in> set (level_recs G (lv ! d))"
      then obtain a where a: "a \<in> set (lv ! d)" "r \<in> set (recs G a)" unfolding in_level_recs by blast
      from lG a(1) obtain n where "G a = Some n" "\<forall>r\<in>set (records n). snd r = None"
        unfolding leaf_level_def by blast
      with a(2) show "snd r = None" by simp
    qed
    then have none: "\<forall>r\<in>set (level_recs V (lv ! d)). snd r = None" using recs by simp
    have "\<exists>n. V a = Some n \<and> is_leaf n \<and> (\<forall>r\<in>set (records n). snd r = None)" if a: "a \<in> set (lv ! d)" for a
    proof -
      from lG a obtain n where n: "G a = Some n" "is_leaf n" unfolding leaf_level_def by auto
      with links [OF a] obtain n' where n': "V a = Some n'" "is_leaf n'" by (cases "V a") auto
      have "\<forall>r\<in>set (records n'). snd r = None"
      proof
        fix r assume "r \<in> set (records n')"
        then have "r \<in> set (recs V a)" using n'(1) by simp
        then have "r \<in> set (level_recs V (lv ! d))" using a unfolding in_level_recs by blast
        with none show "snd r = None" by blast
      qed
      with n' show ?thesis by blast
    qed
    then show ?thesis unfolding leaf_level_def ll True by blast
  qed
  show "\<exists>hn. V m_header = Some hn \<and> nxt hn = Some (hd (last lv)) \<and> pre hn = Some (last (last lv))"
    using lowerD(5) [OF W] hdr by simp
  show "sorted_wrt (<) (level_keys V (lv ! e))" if e: "d \<le> e" "e < length lv" for e
  proof (cases "e = d")
    case True
    have "level_keys V (lv ! d) = level_keys G (lv ! d)"
      using arg_cong [OF recs, of "map fst"] by (simp add: map_fst_level_recs)
    then show ?thesis using lowerD(6) [OF W e] True by simp
  next
    case False
    then have "d < e" using e by simp
    then have "level_keys V (lv ! e) = level_keys G (lv ! e)"
      using recs_same e(2) by (intro level_keys_cong) blast
    then show ?thesis using lowerD(6) [OF W e] by simp
  qed
  show "recs V a \<noteq> []"
    if "d \<le> e" "e < length lv" "a \<in> set (lv ! e)" "case ov' of None \<Rightarrow> True | Some (b, k) \<Rightarrow> a \<noteq> b" for e a
  proof (cases "e = d")
    case True
    then show ?thesis using ne that(3,4) by simp
  next
    case False
    then have lt: "d < e" using that by simp
    from lowerD(7) [OF W that(1,2,3) o [OF lt that(2,3)]] recs_same [OF lt that(2,3)]
    show ?thesis by simp
  qed
qed

section \<open>The rounds of \<^verbatim>\<open>erase_helper\<close>\<close>

lemma level_neighbours_lt:
  fixes G :: "'k::linorder heap"
  assumes s: "sorted_wrt (<) (level_keys G (xs @ a # ys))"
    and ne: "\<forall>c\<in>set xs \<union> set ys. recs G c \<noteq> []"
    and k: "k \<in> set (keys_of G a)"
  shows "xs \<noteq> [] \<longrightarrow> last_key G (last xs) < k" and "ys \<noteq> [] \<longrightarrow> k < last_key G (hd ys)"
proof -
  show "xs \<noteq> [] \<longrightarrow> last_key G (last xs) < k"
  proof
    assume x: "xs \<noteq> []"
    then have "recs G (last xs) \<noteq> []" using ne by simp
    from last_key_level_mem [OF _ this, of xs] x have "last_key G (last xs) \<in> set (level_keys G xs)" by simp
    with s k show "last_key G (last xs) < k" by (auto simp: sorted_wrt_append)
  qed
  show "ys \<noteq> [] \<longrightarrow> k < last_key G (hd ys)"
  proof
    assume y: "ys \<noteq> []"
    then have "recs G (hd ys) \<noteq> []" using ne by simp
    from last_key_level_mem [OF _ this, of ys] y have "last_key G (hd ys) \<in> set (level_keys G ys)" by simp
    with s k show "k < last_key G (hd ys)" by (auto simp: sorted_wrt_append)
  qed
qed

lemma not_above:
  assumes "distinct (concat lv)" and "d \<le> e" and "e < length lv" and "z \<in> set (lv ! e)"
  shows "\<forall>e'<d. z \<notin> set (lv ! e')"
proof (intro allI impI)
  fix e' assume "e' < d"
  then have "e' < length lv" "e \<noteq> e'" using assms(2,3) by auto
  from levels_disjoint [OF assms(1,3) this assms(4)] show "z \<notin> set (lv ! e')" .
qed

lemma header_not_above:
  assumes "m_header \<notin> set (concat lv)" and "d < length lv"
  shows "\<forall>e<d. m_header \<notin> set (lv ! e)"
  using assms in_concat_level [of _ lv m_header] by (metis less_trans)

text \<open>The lower part does not depend on the key that the router of a node of level \<open>d\<close> carries.\<close>

lemma lower_ov_change:
  fixes G :: "'k::linorder heap"
  assumes W: "lower G lv d ov" and d: "d < length lv"
    and o: "\<And>e c. d < e \<Longrightarrow> e < length lv \<Longrightarrow> c \<in> set (lv ! e)
               \<Longrightarrow> (case ov of None \<Rightarrow> True | Some (b, k) \<Rightarrow> c \<noteq> b)"
    and o': "\<And>e c. d < e \<Longrightarrow> e < length lv \<Longrightarrow> c \<in> set (lv ! e)
               \<Longrightarrow> (case ov' of None \<Rightarrow> True | Some (b, k) \<Rightarrow> c \<noteq> b)"
    and ne: "\<And>z. z \<in> set (lv ! d) \<Longrightarrow> (case ov' of None \<Rightarrow> True | Some (b, k) \<Rightarrow> z \<noteq> b) \<Longrightarrow> recs G z \<noteq> []"
  shows "lower G lv d ov'"
proof (rule lower_swap [OF W d o o' _ _ _ _ _ _ ne])
  fix z c assume Sd: "Suc d < length lv" and z: "z \<in> set (lv ! d)" and c: "Some c \<in> snd ` set (recs G z)"
  from internal_level_parent [OF lowerD(1) [OF W _ Sd] z c]
  show "\<exists>n. G c = Some n \<and> parent n = Some z" by simp
qed simp_all

text \<open>An override of a node that is not above level \<open>d\<close>.\<close>

lemma ov_at_level:
  assumes "distinct (concat lv)" and "d < length lv" and "a \<in> set (lv ! d)"
  shows "case Some (a, k) of None \<Rightarrow> True | Some (b, k) \<Rightarrow> \<forall>e<d. b \<notin> set (lv ! e)"
    and "\<And>e c. d < e \<Longrightarrow> e < length lv \<Longrightarrow> c \<in> set (lv ! e)
           \<Longrightarrow> (case Some (a, k) of None \<Rightarrow> True | Some (b, k) \<Rightarrow> c \<noteq> b)"
proof -
  show "case Some (a, k) of None \<Rightarrow> True | Some (b, k) \<Rightarrow> \<forall>e<d. b \<notin> set (lv ! e)"
    using not_above [OF assms(1) order_refl assms(2,3)] by simp
  fix e c assume "d < e" "e < length lv" "c \<in> set (lv ! e)"
  then show "case Some (a, k) of None \<Rightarrow> True | Some (b, k) \<Rightarrow> c \<noteq> b"
    using levels_disjoint [OF assms(1,2) _ _ assms(3), of e] by auto
qed

lemma skel_length: "map_option skel (h' z) = map_option skel (h z) \<Longrightarrow> length (recs h' z) = length (recs h z)"
proof -
  assume "map_option skel (h' z) = map_option skel (h z)"
  then have "map snd (recs h' z) = map snd (recs h z)"
    by (cases "h' z"; cases "h z") (auto simp: skel_def recs_def)
  then show ?thesis by (metis length_map)
qed

text \<open>\<^verbatim>\<open>REMOVE_DIRECTLY\<close>: the node keeps enough records.\<close>

lemma remove_directly_round:
  fixes h :: "'k::linorder heap"
  assumes n: "h a = Some n" and i: "i < length (records n)" and big: "1 < length (records n)"
    and S: "shape (h(a \<mapsto> n\<lparr>records := take i (records n) @ drop (Suc i) (records n)\<rparr>)) lv
              (Some (a, fst (last (records n))))"
    and d: "d < length lv" and a: "a \<in> set (lv ! d)"
  shows "\<exists>h'. erase_remove_directly a i h = Some (False, a, i, h') \<and> shape h' lv None
           \<and> (\<forall>z. length (recs h' z) = (if z = a then length (records n) - 1 else length (recs h z)))
           \<and> level_keys h' (last lv)
               = level_keys (h(a \<mapsto> n\<lparr>records := take i (records n) @ drop (Suc i) (records n)\<rparr>)) (last lv)"
proof -
  let ?rs = "records n"
  let ?rs' = "take i ?rs @ drop (Suc i) ?rs"
  let ?n' = "n\<lparr>records := ?rs'\<rparr>"
  let ?G = "h(a \<mapsto> ?n')"
  let ?k = "fst (last ?rs)"
  let ?ov = "Some (a, ?k)"
  have Ga: "?G a = Some ?n'" by simp
  have len': "length ?rs' = length ?rs - 1" using i by simp
  have ne': "?rs' \<noteq> []" using big len' by (metis length_0_conv less_numeral_extra(3) zero_less_diff)
  have dist: "distinct (concat lv)" using shapeD(3) [OF S] .
  have lens: "\<forall>z. length (recs ?G z) = (if z = a then length ?rs - 1 else length (recs h z))"
    using len' by (simp add: recs_def)
  have all_ne: "recs ?G z \<noteq> []" if "e < length lv" "z \<in> set (lv ! e)" for e z
  proof (cases "z = a")
    case True
    then show ?thesis using ne' by simp
  next
    case False
    from shape_nonempty_ov [OF S that False] show ?thesis .
  qed
  show ?thesis
  proof (cases "Suc i = length ?rs")
    case False
    then have "last ?rs' = last ?rs" using i by simp
    then have lk: "last_key ?G a = ?k" by (simp add: last_key_def)
    have run: "erase_remove_directly a i h = Some (False, a, i, ?G)"
      using n i False by (simp add: erase_remove_directly_def set_at_def set_erase_def)
    have "shape ?G lv None"
    proof (rule shape_ov_change [OF S])
      fix e c assume "Suc e < length lv" "c \<in> set (lv ! Suc e)"
      show "rep_key ?G None c = rep_key ?G ?ov c" using lk by (simp add: rep_key_def)
    next
      fix e z assume "e < length lv" "z \<in> set (lv ! e)"
      then show "recs ?G z \<noteq> []" by (rule all_ne)
    qed
    with run lens show ?thesis by blast
  next
    case True
    then have rs': "?rs' = take i ?rs" by simp
    let ?new = "fst (last ?rs')"
    have old: "fst (?rs ! i) = ?k" using True i by (metis diff_Suc_1 last_conv_nth length_0_conv less_nat_zero_code)
    from a obtain xs ys where L: "lv ! d = xs @ a # ys" by (meson split_list)
    have dL: "distinct (xs @ a # ys)" using level_distinct [OF dist d] L by simp
    note ov = ov_at_level [OF dist d a, where k = ?k]
    have U0: "upper ?G lv d (rep_key ?G ?ov)" by (rule shape_upper [OF S d ov(1)])
    from shape_links [OF S d L] Ga
    have nx: "nxt ?n' = (if ys = [] then (if Suc d = length lv then Some m_header else None) else Some (hd ys))"
      by simp
    have e: "(if Suc d = length lv then Some m_header else None) = None
             \<or> (if Suc d = length lv then Some m_header else None) = Some m_header" by simp
    have y: "ys \<noteq> [] \<longrightarrow> ?G (hd ys) \<noteq> None"
    proof
      assume "ys \<noteq> []"
      then have "hd ys \<in> set (lv ! d)" using L by simp
      from shape_allocated [OF S d this] show "?G (hd ys) \<noteq> None" .
    qed
    have rka: "rep_key ?G ?ov a = ?k" by (simp add: rep_key_def)
    have rko: "rep_key ?G ?ov c = last_key ?G c" if "c \<noteq> a" for c using that by (simp add: rep_key_def)
    have sl: "sorted_wrt (<) (level_keys ?G (xs @ a # ys))" using shape_sorted [OF S d] L by simp
    have nes: "\<forall>c\<in>set xs \<union> set ys. recs ?G c \<noteq> []"
    proof
      fix c assume "c \<in> set xs \<union> set ys"
      then have "c \<in> set (lv ! d)" using L by auto
      from all_ne [OF d this] show "recs ?G c \<noteq> []" .
    qed
    have "last ?rs' \<in> set ?rs'" using ne' by (rule last_in_set)
    then have "?new \<in> fst ` set ?rs'" by (rule imageI)
    moreover have "keys_of ?G a = map fst ?rs'" by (simp add: keys_of_def)
    ultimately have kin: "?new \<in> set (keys_of ?G a)" by (metis set_map)
    note nb = level_neighbours_lt [OF sl nes kin]
    have lo: "xs \<noteq> [] \<longrightarrow> rep_key ?G ?ov (last xs) < ?new"
    proof
      assume x: "xs \<noteq> []"
      then have "last xs \<noteq> a" using dL by auto
      with nb(1) x rko show "rep_key ?G ?ov (last xs) < ?new" by simp
    qed
    have hi: "ys \<noteq> [] \<longrightarrow> ?new < rep_key ?G ?ov (hd ys)"
    proof
      assume y: "ys \<noteq> []"
      then have "hd ys \<noteq> a" using dL by auto
      with nb(2) y rko show "?new < rep_key ?G ?ov (hd ys)" by simp
    qed
    from fix_key_on_path_upper [OF U0 L Ga nx e y rka lo hi] obtain h' where
      f: "fix_key_on_path a ?k ?new ?G = Some h'" "upper h' lv d ((rep_key ?G ?ov)(a := ?new))"
         "\<forall>z. (\<forall>e<d. z \<notin> set (lv ! e)) \<longrightarrow> h' z = ?G z"
         "\<forall>z. map_option skel (h' z) = map_option skel (?G z)"
      by blast
    have run: "erase_remove_directly a i h = Some (False, a, i, h')"
      using n i True ne' f(1) old
      by (simp add: erase_remove_directly_def set_at_def set_erase_def set_last_def last_conv_nth)
    have low_same: "h' z = ?G z" if "d \<le> e" "e < length lv" "z \<in> set (lv ! e)" for e z
      using f(3) not_above [OF dist that] by blast
    have hdr: "h' m_header = ?G m_header"
      using f(3) header_not_above [OF shapeD(4) [OF S] d] by blast
    have W0: "lower ?G lv d None"
    proof (rule lower_ov_change [OF shape_lower [OF S] d ov(2)])
      fix z assume "z \<in> set (lv ! d)"
      from all_ne [OF d this] show "recs ?G z \<noteq> []" .
    next
      fix e c
      show "case None :: (addr \<times> 'k) option of None \<Rightarrow> True | Some (b, k) \<Rightarrow> c \<noteq> b" by simp
    qed
    have W': "lower h' lv d None" by (rule lower_cong [OF W0 d low_same hdr])
    have "shape h' lv None"
    proof (rule shape_glue [OF f(2) W'])
      fix c assume c: "c \<in> set (lv ! d)"
      have "h' c = ?G c" using low_same [OF order_refl d c] .
      then have lk: "last_key h' c = last_key ?G c" by (simp add: last_key_def recs_def)
      show "((rep_key ?G ?ov)(a := ?new)) c = rep_key h' None c"
      proof (cases "c = a")
        case True
        then show ?thesis using lk by (simp add: rep_key_def last_key_def)
      next
        case False
        then show ?thesis using lk rko by (simp add: rep_key_def)
      qed
    qed simp
    moreover have "\<forall>z. length (recs h' z) = (if z = a then length ?rs - 1 else length (recs h z))"
    proof
      fix z
      have "length (recs h' z) = length (recs ?G z)" using f(4) skel_length by blast
      with lens show "length (recs h' z) = (if z = a then length ?rs - 1 else length (recs h z))" by simp
    qed
    moreover have "level_keys h' (last lv) = level_keys ?G (last lv)"
    proof -
      have lvne: "lv \<noteq> []" using d by auto
      have "\<forall>z\<in>set (last lv). recs h' z = recs ?G z"
        using low_same [of "length lv - 1"] d lvne by (simp add: last_conv_nth recs_def)
      then show ?thesis by (rule level_keys_cong)
    qed
    ultimately show ?thesis using run by blast
  qed
qed

lemma routers_sorted:
  fixes h :: "'k::linorder heap"
  assumes U: "upper h lv d \<rho>"
  shows "sorted_wrt (<) (map \<rho> (lv ! d))"
proof (cases d)
  case 0
  from upperD(5) [OF U] obtain r where r: "hd lv = [r]" by blast
  have "lv \<noteq> []" using upperD(1) [OF U] by auto
  then have "lv ! 0 = [r]" using r by (simp add: hd_conv_nth)
  with 0 show ?thesis by simp
next
  case (Suc e)
  then have e: "e < d" by simp
  have r: "routed h \<rho> (lv ! e) (lv ! d)" using upperD(6) [OF U e] Suc by simp
  have "map fst (level_recs h (lv ! e)) = map \<rho> (lv ! d)"
    unfolding routedD(2) [OF r] by (simp add: o_def)
  then have "level_keys h (lv ! e) = map \<rho> (lv ! d)" unfolding map_fst_level_recs .
  with upperD(8) [OF U e] show ?thesis by simp
qed

text \<open>The children of the nodes of a level are pairwise different.\<close>

lemma level_kids_distinct:
  assumes il: "internal_level h ov L L'" and dist: "distinct L'"
  shows "distinct (map snd (level_recs h L))"
  unfolding internal_level_recs [OF il] using dist by (simp add: o_def distinct_map inj_on_def)

lemma level_kids_mem:
  assumes il: "internal_level h ov L L'" and a: "a \<in> set L" and c: "Some c \<in> snd ` set (recs h a)"
  shows "c \<in> set L'"
proof -
  from c obtain r where r: "r \<in> set (recs h a)" "snd r = Some c" by force
  then have "r \<in> set (level_recs h L)" using a unfolding in_level_recs by blast
  then have "Some c \<in> snd ` set (level_recs h L)" using r(2) by force
  then show ?thesis unfolding internal_level_recs [OF il] by auto
qed

text \<open>
  What a round knows of the node \<open>a\<close> of level \<open>d\<close> and of its neighbours, from the
  shape of the heap \<open>G\<close> without the record that is to go.
\<close>

lemma round_setup:
  fixes G :: "'k::linorder heap"
  assumes S: "shape G lv (Some (a, k))" and d: "d < length lv" and L: "lv ! d = xs @ a # ys"
  shows "upper G lv d (rep_key G (Some (a, k)))"
    and "lower G lv d (Some (a, k))"
    and "rep_key G (Some (a, k)) a = k"
    and "\<And>c. c \<noteq> a \<Longrightarrow> rep_key G (Some (a, k)) c = last_key G c"
    and "distinct (concat lv)" and "distinct (xs @ a # ys)"
    and "\<exists>n. G a = Some n
          \<and> pre n = (if xs = [] then (if Suc d = length lv then Some m_header else None) else Some (last xs))
          \<and> nxt n = (if ys = [] then (if Suc d = length lv then Some m_header else None) else Some (hd ys))"
    and "\<And>z. z \<in> set xs \<union> set ys \<Longrightarrow> \<exists>nz. G z = Some nz \<and> records nz \<noteq> [] \<and> z \<noteq> a \<and> z \<noteq> m_header"
    and "sorted_wrt (<) (level_keys G (xs @ a # ys))"
    and "sorted_wrt (<) (map (rep_key G (Some (a, k))) (xs @ a # ys))"
    and "a \<noteq> m_header"
proof -
  have ain: "a \<in> set (lv ! d)" using L by simp
  show dist: "distinct (concat lv)" using shapeD(3) [OF S] .
  show dL: "distinct (xs @ a # ys)" using level_distinct [OF dist d] L by simp
  note ov = ov_at_level [OF dist d ain, where k = k]
  show U: "upper G lv d (rep_key G (Some (a, k)))" by (rule shape_upper [OF S d ov(1)])
  show "lower G lv d (Some (a, k))" by (rule shape_lower [OF S])
  show "rep_key G (Some (a, k)) a = k" by (simp add: rep_key_def)
  show "\<And>c. c \<noteq> a \<Longrightarrow> rep_key G (Some (a, k)) c = last_key G c" by (simp add: rep_key_def)
  show "\<exists>n. G a = Some n
          \<and> pre n = (if xs = [] then (if Suc d = length lv then Some m_header else None) else Some (last xs))
          \<and> nxt n = (if ys = [] then (if Suc d = length lv then Some m_header else None) else Some (hd ys))"
    using shape_links [OF S d L] .
  show "\<exists>nz. G z = Some nz \<and> records nz \<noteq> [] \<and> z \<noteq> a \<and> z \<noteq> m_header" if z: "z \<in> set xs \<union> set ys" for z
  proof -
    have zin: "z \<in> set (lv ! d)" using z L by auto
    have za: "z \<noteq> a" using z dL by auto
    from shape_allocated [OF S d zin] obtain nz where nz: "G z = Some nz" by auto
    from shape_nonempty_ov [OF S d zin za] nz have "records nz \<noteq> []" by simp
    with nz za shape_header_notin [OF S d zin] show ?thesis by blast
  qed
  show "sorted_wrt (<) (level_keys G (xs @ a # ys))" using shape_sorted [OF S d] L by simp
  show "sorted_wrt (<) (map (rep_key G (Some (a, k))) (xs @ a # ys))"
    using routers_sorted [OF U] L by simp
  show "a \<noteq> m_header" using shape_header_notin [OF S d ain] .
qed

section \<open>Borrowing from a neighbour\<close>

text \<open>What \<^verbatim>\<open>BORROW_RIGHT\<close> and \<^verbatim>\<open>BORROW_LEFT\<close> compute, given what the router repairs return.\<close>

lemma borrow_right_run:
  fixes h :: "'k::linorder heap"
  assumes n: "h a = Some n" and i: "i < length (records n)" and nx: "nxt n = Some b"
    and nb: "h b = Some nb" and brs: "records nb = (kb, cb) # brs'" and ab: "a \<noteq> b"
    and fx: "fix_key_on_path a (fst (last (records n))) kb h = Some H1"
    and H1: "H1 a = Some n" "H1 b = Some nb"
    and c: "\<And>c. cb = Some c \<Longrightarrow> H1 c \<noteq> None \<and> c \<noteq> a \<and> c \<noteq> b"
    and ins: "set_insert (take i (records n) @ drop (Suc i) (records n)) (kb, cb)
              = take i (records n) @ drop (Suc i) (records n) @ [(kb, cb)]"
  shows "\<exists>h'. erase_borrow_right a i h = Some (False, a, i, h')
           \<and> h' a = Some (n\<lparr>records := take i (records n) @ drop (Suc i) (records n) @ [(kb, cb)]\<rparr>)
           \<and> h' b = Some (nb\<lparr>records := brs'\<rparr>)
           \<and> (\<forall>z. z \<noteq> a \<and> z \<noteq> b \<and> cb \<noteq> Some z \<longrightarrow> h' z = H1 z)
           \<and> (\<forall>z. cb = Some z \<longrightarrow> h' z = map_option (\<lambda>y. y\<lparr>parent := Some a\<rparr>) (H1 z))"
proof -
  let ?rs = "records n"
  let ?rs' = "take i ?rs @ drop (Suc i) ?rs"
  have ne: "?rs \<noteq> []" using i by auto
  have lst: "fst (?rs ! (length ?rs - 1)) = fst (last ?rs)" using ne by (simp add: last_conv_nth)
  let ?Ha = "H1(a \<mapsto> n\<lparr>records := ?rs'\<rparr>)"
  have Hb: "?Ha b = Some nb" using H1(2) ab by simp
  show ?thesis
  proof (cases cb)
    case None
    let ?h' = "(?Ha(a \<mapsto> n\<lparr>records := ?rs' @ [(kb, cb)]\<rparr>))(b \<mapsto> nb\<lparr>records := brs'\<rparr>)"
    have "erase_borrow_right a i h = Some (False, a, i, ?h')"
      using n i nx nb brs ne lst fx H1 Hb ab ins None
      by (simp add: erase_borrow_right_def set_last_def set_at_def set_erase_def update_node_def)
    moreover have "?h' a = Some (n\<lparr>records := ?rs' @ [(kb, cb)]\<rparr>)" using ab by simp
    moreover have "?h' b = Some (nb\<lparr>records := brs'\<rparr>)" by simp
    moreover have "\<forall>z. z \<noteq> a \<and> z \<noteq> b \<and> cb \<noteq> Some z \<longrightarrow> ?h' z = H1 z" by simp
    moreover have "\<forall>z. cb = Some z \<longrightarrow> ?h' z = map_option (\<lambda>y. y\<lparr>parent := Some a\<rparr>) (H1 z)"
      using None by simp
    ultimately show ?thesis by (intro exI [of _ ?h'] conjI) simp_all
  next
    case (Some c0)
    from c [OF Some] obtain nc where nc: "H1 c0 = Some nc" and ca: "c0 \<noteq> a" and cb': "c0 \<noteq> b" by auto
    let ?Hc = "?Ha(c0 \<mapsto> nc\<lparr>parent := Some a\<rparr>)"
    let ?h' = "(?Hc(a \<mapsto> n\<lparr>records := ?rs' @ [(kb, cb)]\<rparr>))(b \<mapsto> nb\<lparr>records := brs'\<rparr>)"
    have "erase_borrow_right a i h = Some (False, a, i, ?h')"
      using n i nx nb brs ne lst fx H1 Hb ab ins Some nc ca cb'
      by (simp add: erase_borrow_right_def set_last_def set_at_def set_erase_def update_node_def)
    moreover have "?h' a = Some (n\<lparr>records := ?rs' @ [(kb, cb)]\<rparr>)" using ab by simp
    moreover have "?h' b = Some (nb\<lparr>records := brs'\<rparr>)" by simp
    moreover have "\<forall>z. z \<noteq> a \<and> z \<noteq> b \<and> cb \<noteq> Some z \<longrightarrow> ?h' z = H1 z" using Some by auto
    moreover have "\<forall>z. cb = Some z \<longrightarrow> ?h' z = map_option (\<lambda>y. y\<lparr>parent := Some a\<rparr>) (H1 z)"
      using Some nc ca cb' by simp
    ultimately show ?thesis by (intro exI [of _ ?h'] conjI) simp_all
  qed
qed

lemma kids_at_level:
  assumes S: "shape G lv ov" and d: "d < length lv" and z: "z \<in> set (lv ! d)"
    and r: "(k, Some c) \<in> set (recs G z)"
  shows "Suc d < length lv" and "c \<in> set (lv ! Suc d)" and "\<exists>n. G c = Some n \<and> parent n = Some z"
proof -
  show Sd: "Suc d < length lv"
  proof (rule ccontr)
    assume "\<not> Suc d < length lv"
    then have "Suc d = length lv" using d by simp
    then have "lv ! d = last lv" by (rule nth_last)
    with z have "z \<in> set (last lv)" by simp
    from shape_leaf [OF S this] obtain n where "G z = Some n" "\<forall>r\<in>set (records n). snd r = None" by blast
    with r show False by (auto simp: recs_def)
  qed
  have c: "Some c \<in> snd ` set (recs G z)" using r by force
  from level_kids_mem [OF shape_internal [OF S Sd] z c] show "c \<in> set (lv ! Suc d)" .
  from internal_level_parent [OF shape_internal [OF S Sd] z c]
  show "\<exists>n. G c = Some n \<and> parent n = Some z" .
qed

lemma level_keys_mem: "z \<in> set L \<Longrightarrow> k \<in> set (keys_of h z) \<Longrightarrow> k \<in> set (level_keys h L)"
  by (induction L) auto

lemma sorted_hd_last:
  fixes ks :: "'k::linorder list"
  assumes "sorted_wrt (<) ks" and "2 \<le> length ks"
  shows "hd ks < last ks"
proof -
  have ne: "ks \<noteq> []" using assms(2) by auto
  have "0 < length ks - 1" "length ks - 1 < length ks" using assms(2) by auto
  from sorted_wrt_nth_less [OF assms(1) this] have "ks ! 0 < ks ! (length ks - 1)" .
  then show ?thesis using ne by (simp add: hd_conv_nth last_conv_nth)
qed

text \<open>\<^verbatim>\<open>BORROW_RIGHT\<close>: what it returns, and what the router repair has left.\<close>

lemma borrow_right_step:
  fixes h :: "'k::linorder heap"
  assumes n: "h a = Some n" and i: "i < length (records n)"
    and S: "shape (h(a \<mapsto> n\<lparr>records := take i (records n) @ drop (Suc i) (records n)\<rparr>)) lv
              (Some (a, fst (last (records n))))"
    and d: "d < length lv" and L: "lv ! d = xs @ a # ys"
    and nx: "nxt n = Some b" and bh: "b \<noteq> m_header" and nb: "h b = Some nb"
    and two: "2 \<le> length (records nb)"
  shows "\<exists>h' H1. erase_borrow_right a i h = Some (False, a, i, h')
           \<and> h' a = Some (n\<lparr>records := take i (records n) @ drop (Suc i) (records n) @ [hd (records nb)]\<rparr>)
           \<and> h' b = Some (nb\<lparr>records := tl (records nb)\<rparr>)
           \<and> (\<forall>z. z \<noteq> a \<and> z \<noteq> b \<and> snd (hd (records nb)) \<noteq> Some z \<longrightarrow> h' z = H1 z)
           \<and> (\<forall>z. snd (hd (records nb)) = Some z \<longrightarrow> h' z = map_option (\<lambda>y. y\<lparr>parent := Some a\<rparr>) (H1 z))
           \<and> upper H1 lv d ((rep_key (h(a \<mapsto> n\<lparr>records := take i (records n) @ drop (Suc i) (records n)\<rparr>))
                                (Some (a, fst (last (records n)))))(a := fst (hd (records nb))))
           \<and> (\<forall>z. (\<forall>e<d. z \<notin> set (lv ! e)) \<longrightarrow> H1 z = h z)
           \<and> (\<forall>z. map_option skel (H1 z) = map_option skel (h z))
           \<and> ys \<noteq> [] \<and> hd ys = b \<and> a \<noteq> b"
proof -
  let ?rs = "records n"
  let ?rs' = "take i ?rs @ drop (Suc i) ?rs"
  let ?n' = "n\<lparr>records := ?rs'\<rparr>"
  let ?G = "h(a \<mapsto> ?n')"
  let ?k = "fst (last ?rs)"
  let ?ov = "Some (a, ?k)"
  let ?\<rho> = "rep_key ?G ?ov"
  note R = round_setup [OF S d L]
  have Ga: "?G a = Some ?n'" by simp
  have ain: "a \<in> set (lv ! d)" using L by simp
  have dist: "distinct (concat lv)" using R(5) .
  from R(7) Ga nx bh have ys: "ys \<noteq> []" and hb: "hd ys = b"
    by (auto split: if_splits)
  then obtain ys' where ys': "ys = b # ys'" by (cases ys) auto
  have bin: "b \<in> set (lv ! d)" using L ys' by simp
  have ab: "a \<noteq> b" using R(6) ys' by auto
  have Gb: "?G b = Some nb" using nb ab by simp
  obtain kb cb brs' where brs: "records nb = (kb, cb) # brs'"
    using two by (cases "records nb") auto
  have brs'ne: "brs' \<noteq> []" using two brs by auto
  \<comment> \<open>the levels above, over the heap with the record\<close>
  have na: "\<forall>e<d. a \<notin> set (lv ! e)" using not_above [OF dist order_refl d ain] .
  have U: "upper h lv d ?\<rho>"
  proof (rule upper_cong [OF R(1)])
    fix e y assume "e < d" "y \<in> set (lv ! e)"
    with na have "y \<noteq> a" by auto
    then show "h y = ?G y" by simp
  next
    fix y show "map_option parent (h y) = map_option parent (?G y)" using n by simp
  qed simp
  have nx': "nxt n = (if ys = [] then (if Suc d = length lv then Some m_header else None) else Some (hd ys))"
    using nx ys hb by simp
  have e: "(if Suc d = length lv then Some m_header else None) = None
           \<or> (if Suc d = length lv then Some m_header else None) = Some m_header" by simp
  have y: "ys \<noteq> [] \<longrightarrow> h (hd ys) \<noteq> None" using hb nb by simp
  have sl: "sorted_wrt (<) (level_keys ?G (xs @ a # ys))" using R(9) .
  have kbin: "kb \<in> set (keys_of ?G b)" using Gb brs by (simp add: keys_of_def recs_def)
  have kb_ys: "kb \<in> set (level_keys ?G ys)" using ys' kbin by simp
  have lo: "xs \<noteq> [] \<longrightarrow> ?\<rho> (last xs) < kb"
  proof
    assume x: "xs \<noteq> []"
    then have lx: "last xs \<in> set xs" by simp
    then have "last xs \<noteq> a" using R(6) by auto
    then have rk: "?\<rho> (last xs) = last_key ?G (last xs)" using R(4) by simp
    from R(8) [of "last xs"] lx have "recs ?G (last xs) \<noteq> []" by (auto simp: recs_def)
    from last_key_level_mem [OF lx this] have "last_key ?G (last xs) \<in> set (level_keys ?G xs)" .
    with sl kb_ys have "last_key ?G (last xs) < kb" by (auto simp: sorted_wrt_append)
    with rk show "?\<rho> (last xs) < kb" by simp
  qed
  have sb: "sorted_wrt (<) (map fst (records nb))"
    using sorted_node_of_level [OF shape_sorted [OF S d] bin] Gb by (simp add: recs_def)
  have hi: "ys \<noteq> [] \<longrightarrow> kb < ?\<rho> (hd ys)"
  proof
    have "?\<rho> b = last_key ?G b" using R(4) ab by simp
    also have "\<dots> = fst (last (records nb))" using Gb by (simp add: last_key_def recs_def)
    finally have rb: "?\<rho> b = fst (last (records nb))" .
    have "hd (map fst (records nb)) < last (map fst (records nb))"
      using sorted_hd_last [OF sb] two by simp
    then have "kb < fst (last (records nb))" using brs brs'ne by (simp add: last_map)
    with rb hb show "kb < ?\<rho> (hd ys)" by simp
  qed
  from fix_key_on_path_upper [OF U L n nx' e y R(3) lo hi] obtain H1 where
    f: "fix_key_on_path a ?k kb h = Some H1" "upper H1 lv d (?\<rho>(a := kb))"
       "\<forall>z. (\<forall>e<d. z \<notin> set (lv ! e)) \<longrightarrow> H1 z = h z"
       "\<forall>z. map_option skel (H1 z) = map_option skel (h z)"
    by blast
  have H1a: "H1 a = Some n" using f(3) na n by simp
  have nab: "\<forall>e<d. b \<notin> set (lv ! e)" using not_above [OF dist order_refl d bin] .
  have H1b: "H1 b = Some nb" using f(3) nab nb by simp
  have c: "H1 c \<noteq> None \<and> c \<noteq> a \<and> c \<noteq> b" if cb: "cb = Some c" for c
  proof -
    have "(kb, Some c) \<in> set (recs ?G b)" using Gb brs cb by (simp add: recs_def)
    note K = kids_at_level [OF S d bin this]
    have "\<forall>e<d. c \<notin> set (lv ! e)" using not_above [OF dist _ K(1,2), of d] by simp
    then have "H1 c = h c" using f(3) by simp
    moreover have ca: "c \<noteq> a" using levels_disjoint [OF dist K(1) d _ K(2)] ain by auto
    moreover have "c \<noteq> b" using levels_disjoint [OF dist K(1) d _ K(2)] bin by auto
    moreover from K(3) ca have "h c \<noteq> None" by auto
    ultimately show ?thesis by simp
  qed
  have ins: "set_insert ?rs' (kb, cb) = ?rs' @ [(kb, cb)]"
  proof -
    have "\<forall>x\<in>set ?rs'. fst x < fst (kb, cb)"
    proof
      fix x assume "x \<in> set ?rs'"
      then have "fst x \<in> fst ` set ?rs'" by (rule imageI)
      moreover have "keys_of ?G a = map fst ?rs'" by (simp add: keys_of_def recs_def)
      ultimately have "fst x \<in> set (keys_of ?G a)" by (metis set_map)
      with sl kb_ys show "fst x < fst (kb, cb)" by (auto simp: sorted_wrt_append)
    qed
    from set_insert_append [OF this] show ?thesis by simp
  qed
  from borrow_right_run [OF n i nx nb brs ab f(1) H1a H1b c] ins
  obtain h' where
    h': "erase_borrow_right a i h = Some (False, a, i, h')"
        "h' a = Some (n\<lparr>records := take i ?rs @ drop (Suc i) ?rs @ [(kb, cb)]\<rparr>)"
        "h' b = Some (nb\<lparr>records := brs'\<rparr>)"
        "\<forall>z. z \<noteq> a \<and> z \<noteq> b \<and> cb \<noteq> Some z \<longrightarrow> h' z = H1 z"
        "\<forall>z. cb = Some z \<longrightarrow> h' z = map_option (\<lambda>y. y\<lparr>parent := Some a\<rparr>) (H1 z)"
    by auto
  have hdb: "hd (records nb) = (kb, cb)" "tl (records nb) = brs'" using brs by simp_all
  show ?thesis
    apply (rule exI [of _ h'], rule exI [of _ H1])
    unfolding hdb fst_conv snd_conv
    using h' f(2,3,4) ys hb ab by (intro conjI) assumption+
qed

lemma borrow_left_run:
  fixes h :: "'k::linorder heap"
  assumes n: "h a = Some n" and i: "i < length (records n)" and pr: "pre n = Some b"
    and nb: "h b = Some nb" and ab: "a \<noteq> b" and bl: "butlast (records nb) \<noteq> []"
    and h2: "(case snd (last (records nb)) of
                None \<Rightarrow> Some (h(a \<mapsto> n\<lparr>records := take i (records n) @ drop (Suc i) (records n)\<rparr>))
              | Some c \<Rightarrow> update_node c (\<lambda>x. x\<lparr>parent := Some a\<rparr>)
                           (h(a \<mapsto> n\<lparr>records := take i (records n) @ drop (Suc i) (records n)\<rparr>)))
             = Some h2"
    and h2a: "h2 a = Some (n\<lparr>records := take i (records n) @ drop (Suc i) (records n)\<rparr>)"
    and h2b: "h2 b = Some nb"
    and ins: "set_insert (take i (records n) @ drop (Suc i) (records n)) (last (records nb))
              = last (records nb) # take i (records n) @ drop (Suc i) (records n)"
    and fx1: "fix_key_on_path b (fst (last (records nb))) (fst (last (butlast (records nb))))
                ((h2(a \<mapsto> n\<lparr>records := last (records nb) # take i (records n) @ drop (Suc i) (records n)\<rparr>))
                    (b \<mapsto> nb\<lparr>records := butlast (records nb)\<rparr>)) = Some H1"
    and H1a: "H1 a = Some (n\<lparr>records := last (records nb) # take i (records n) @ drop (Suc i) (records n)\<rparr>)"
    and fx2: "Suc i = length (records n) \<Longrightarrow>
                fix_key_on_path a (fst (records n ! i))
                  (fst (last (last (records nb) # take i (records n) @ drop (Suc i) (records n)))) H1 = Some H2"
    and H2: "Suc i \<noteq> length (records n) \<Longrightarrow> H2 = H1"
  shows "erase_borrow_left a i h = Some (False, a, i, H2)"
proof -
  let ?rs = "records n"
  let ?rs' = "take i ?rs @ drop (Suc i) ?rs"
  let ?G = "h(a \<mapsto> n\<lparr>records := ?rs'\<rparr>)"
  let ?ll = "last (records nb)"
  let ?V = "(h2(a \<mapsto> n\<lparr>records := ?ll # ?rs'\<rparr>))(b \<mapsto> nb\<lparr>records := butlast (records nb)\<rparr>)"
  have ne: "records nb \<noteq> []" using bl by auto
  have lst: "records nb ! (length (records nb) - Suc 0) = ?ll" using ne by (simp add: last_conv_nth)
  have lst2: "butlast (records nb) ! (length (records nb) - Suc (Suc 0)) = last (butlast (records nb))"
    using bl by (simp add: last_conv_nth)
  have Gb: "?G b = Some nb" using nb ab by simp
  have s1: "update_node a (\<lambda>x. x\<lparr>records := set_insert (records x) ?ll\<rparr>) h2
            = Some (h2(a \<mapsto> n\<lparr>records := ?ll # ?rs'\<rparr>))"
    using h2a ins by (simp add: update_node_def)
  have s2: "update_node b (\<lambda>x. x\<lparr>records := butlast (records x)\<rparr>) (h2(a \<mapsto> n\<lparr>records := ?ll # ?rs'\<rparr>))
            = Some ?V"
    using h2b ab by (simp add: update_node_def)
  have Vb: "?V b = Some (nb\<lparr>records := butlast (records nb)\<rparr>)" by simp
  have tail: "(if Suc i = length ?rs then do {
                 n \<leftarrow> H1 a;
                 j \<leftarrow> set_last (records n);
                 fix_key_on_path a (fst (?rs ! i)) (fst (records n ! j)) H1
               } else Some H1) = Some H2"
  proof (cases "Suc i = length ?rs")
    case True
    have "(?ll # ?rs') ! (length (?ll # ?rs') - 1) = last (?ll # ?rs')"
      by (rule last_conv_nth [symmetric]) simp
    then show ?thesis using True H1a fx2 [OF True] by (simp add: set_last_def)
  next
    case False
    then show ?thesis using H2 by simp
  qed
  show ?thesis
    unfolding erase_borrow_left_def
    using n i pr Gb ne bl
    by (simp add: set_at_def set_erase_def set_last_def Let_def lst h2 s1 s2 Vb lst2 fx1 tail
          del: fun_upd_apply)
qed

lemma set_insert_cons:
  fixes rs :: "('k::linorder \<times> 'c) list"
  assumes "\<forall>x\<in>set rs. k < fst x"
  shows "set_insert rs (k, c) = (k, c) # rs"
proof (cases rs)
  case Nil
  then show ?thesis by (simp add: set_insert_Nil)
next
  case (Cons y R2)
  then have "k < fst y" using assms by simp
  from set_insert_between [of "[]" k y R2 c] this Cons show ?thesis by simp
qed

lemma sorted_butlast_last:
  fixes ks :: "'k::linorder list"
  assumes "sorted_wrt (<) ks" and "2 \<le> length ks"
  shows "last (butlast ks) < last ks"
proof -
  have ne: "ks \<noteq> []" "butlast ks \<noteq> []" using assms(2) by (auto simp: butlast_conv_take)
  have "length ks - 2 < length ks - 1" "length ks - 1 < length ks" using assms(2) by auto
  from sorted_wrt_nth_less [OF assms(1) this] have "ks ! (length ks - 2) < ks ! (length ks - 1)" .
  moreover have "last (butlast ks) = ks ! (length ks - 2)"
    using ne assms(2) by (simp add: last_conv_nth nth_butlast numeral_2_eq_2)
  ultimately show ?thesis using ne by (simp add: last_conv_nth)
qed

text \<open>\<^verbatim>\<open>BORROW_LEFT\<close>: what it returns, and what the router repairs have left.\<close>

lemma borrow_left_step:
  fixes h :: "'k::linorder heap"
  assumes n: "h a = Some n" and i: "i < length (records n)"
    and S: "shape (h(a \<mapsto> n\<lparr>records := take i (records n) @ drop (Suc i) (records n)\<rparr>)) lv
              (Some (a, fst (last (records n))))"
    and d: "d < length lv" and L: "lv ! d = xs @ a # ys"
    and pr: "pre n = Some b" and bh: "b \<noteq> m_header" and nb: "h b = Some nb"
    and two: "2 \<le> length (records nb)"
  shows "\<exists>h'. erase_borrow_left a i h = Some (False, a, i, h')
           \<and> h' a = Some (n\<lparr>records := last (records nb) # take i (records n) @ drop (Suc i) (records n)\<rparr>)
           \<and> h' b = Some (nb\<lparr>records := butlast (records nb)\<rparr>)
           \<and> (\<forall>z. (\<forall>e<d. z \<notin> set (lv ! e)) \<and> z \<noteq> a \<and> z \<noteq> b \<and> snd (last (records nb)) \<noteq> Some z
                  \<longrightarrow> h' z = h z)
           \<and> (\<forall>z. snd (last (records nb)) = Some z \<longrightarrow> h' z = map_option (\<lambda>y. y\<lparr>parent := Some a\<rparr>) (h z))
           \<and> upper h' lv d (last_key h')
           \<and> xs \<noteq> [] \<and> last xs = b \<and> a \<noteq> b"
proof -
  let ?rs = "records n"
  let ?rs' = "take i ?rs @ drop (Suc i) ?rs"
  let ?n' = "n\<lparr>records := ?rs'\<rparr>"
  let ?G = "h(a \<mapsto> ?n')"
  let ?k = "fst (last ?rs)"
  let ?ov = "Some (a, ?k)"
  let ?\<rho> = "rep_key ?G ?ov"
  let ?e = "if Suc d = length lv then Some m_header else None"
  note R = round_setup [OF S d L]
  have Ga: "?G a = Some ?n'" by simp
  have ain: "a \<in> set (lv ! d)" using L by simp
  have dist: "distinct (concat lv)" using R(5) .
  from R(7) Ga pr bh have xs: "xs \<noteq> []" and lb: "last xs = b"
    by (auto split: if_splits)
  then obtain xs' where xs': "xs = xs' @ [b]" by (metis append_butlast_last_id)
  have L1: "lv ! d = xs' @ b # (a # ys)" using L xs' by simp
  have bin: "b \<in> set (lv ! d)" using L1 by simp
  have ab: "a \<noteq> b" using R(6) xs' by auto
  have Gb: "?G b = Some nb" using nb ab by simp
  have ne: "records nb \<noteq> []" using two by auto
  have bl: "butlast (records nb) \<noteq> []" using two by (cases "records nb" rule: rev_cases) auto
  define kb where "kb = fst (last (records nb))"
  let ?cb = "snd (last (records nb))"
  define new1 where "new1 = fst (last (butlast (records nb)))"
  define new2 where "new2 = fst (last (last (records nb) # ?rs'))"
  have na: "\<forall>e<d. a \<notin> set (lv ! e)" using not_above [OF dist order_refl d ain] .
  have nab: "\<forall>e<d. b \<notin> set (lv ! e)" using not_above [OF dist order_refl d bin] .
  have sl: "sorted_wrt (<) (level_keys ?G (xs' @ b # a # ys))" using R(9) xs' by simp
  have sb: "sorted_wrt (<) (map fst (records nb))"
    using sorted_node_of_level [OF shape_sorted [OF S d] bin] Gb by (simp add: recs_def)
  have kb_in: "kb \<in> set (keys_of ?G b)"
  proof -
    have "last (records nb) \<in> set (records nb)" using ne by simp
    then have "fst (last (records nb)) \<in> fst ` set (records nb)" by (rule imageI)
    then show ?thesis using Gb by (simp add: keys_of_def recs_def kb_def)
  qed
  have n1_in: "new1 \<in> set (keys_of ?G b)"
  proof -
    have "last (butlast (records nb)) \<in> set (butlast (records nb))" using bl by simp
    then have "last (butlast (records nb)) \<in> set (records nb)" by (rule in_set_butlastD)
    then have "new1 \<in> fst ` set (records nb)" unfolding new1_def by (rule imageI)
    then show ?thesis using Gb by (simp add: keys_of_def recs_def)
  qed
  have ka: "keys_of ?G a = map fst ?rs'" by (simp add: keys_of_def recs_def)
  have b_lt_a: "x < y" if "x \<in> set (keys_of ?G b)" "y \<in> set (keys_of ?G a)" for x y
    using sl that by (auto simp: sorted_wrt_append)
  have kb_lt: "\<forall>x\<in>set ?rs'. kb < fst x"
  proof
    fix x assume "x \<in> set ?rs'"
    then have "fst x \<in> fst ` set ?rs'" by (rule imageI)
    then have "fst x \<in> set (keys_of ?G a)" using ka by (metis set_map)
    from b_lt_a [OF kb_in this] show "kb < fst x" .
  qed
  have n1_kb: "new1 < kb"
  proof -
    have "last (butlast (map fst (records nb))) < last (map fst (records nb))"
      using sorted_butlast_last [OF sb] two by simp
    then show ?thesis using ne bl by (simp add: last_map map_butlast [symmetric] kb_def new1_def)
  qed
  have rb: "?\<rho> b = kb" using R(4) [of b] ab Gb by (simp add: last_key_def recs_def kb_def)
  have ra: "?\<rho> a = ?k" using R(3) .
  have rsort: "sorted_wrt (<) (map ?\<rho> (xs' @ b # a # ys))" using R(10) xs' by simp
  have kb_k: "kb < ?k" using rsort rb ra by (simp add: sorted_wrt_append)
  \<comment> \<open>the child that moves\<close>
  have kid: "Suc d < length lv \<and> c \<in> set (lv ! Suc d) \<and> c \<noteq> a \<and> c \<noteq> b \<and> (\<exists>nc. h c = Some nc)"
    if "?cb = Some c" for c
  proof -
    have "last (records nb) \<in> set (records nb)" using ne by simp
    moreover have "last (records nb) = (kb, Some c)" using that unfolding kb_def by (metis prod.collapse)
    ultimately have "(kb, Some c) \<in> set (recs ?G b)" using Gb by (simp add: recs_def)
    note K = kids_at_level [OF S d bin this]
    have ca: "c \<noteq> a" using levels_disjoint [OF dist K(1) d _ K(2)] ain by auto
    moreover have "c \<noteq> b" using levels_disjoint [OF dist K(1) d _ K(2)] bin by auto
    moreover from K(3) ca have "\<exists>nc. h c = Some nc" by auto
    ultimately show ?thesis using K(1,2) by simp
  qed
  define h2 where "h2 = (case ?cb of None \<Rightarrow> ?G | Some c \<Rightarrow> ?G(c \<mapsto> (the (?G c))\<lparr>parent := Some a\<rparr>))"
  have h2: "(case snd (last (records nb)) of None \<Rightarrow> Some ?G
             | Some c \<Rightarrow> update_node c (\<lambda>x. x\<lparr>parent := Some a\<rparr>) ?G) = Some h2"
  proof (cases ?cb)
    case None
    then show ?thesis by (simp add: h2_def)
  next
    case (Some c)
    from kid [OF Some] obtain nc where "h c = Some nc" "c \<noteq> a" by auto
    then have "?G c = Some nc" by simp
    then show ?thesis using Some unfolding h2_def update_node_def by simp
  qed
  have h2_other: "h2 z = ?G z" if "?cb \<noteq> Some z" for z
    using that unfolding h2_def by (cases ?cb) auto
  have h2_kid: "h2 z = map_option (\<lambda>y. y\<lparr>parent := Some a\<rparr>) (h z)" if "?cb = Some z" for z
  proof -
    from kid [OF that] obtain nc where "h z = Some nc" "z \<noteq> a" by auto
    then show ?thesis using that unfolding h2_def by simp
  qed
  have cba: "?cb \<noteq> Some a" and cbb: "?cb \<noteq> Some b" using kid by blast+
  have h2a: "h2 a = Some ?n'" using h2_other [OF cba] by simp
  have h2b: "h2 b = Some nb" using h2_other [OF cbb] Gb by simp
  have ins: "set_insert ?rs' (last (records nb)) = last (records nb) # ?rs'"
    using set_insert_cons [OF kb_lt, of ?cb] unfolding kb_def by simp
  let ?V = "(h2(a \<mapsto> n\<lparr>records := last (records nb) # ?rs'\<rparr>))(b \<mapsto> nb\<lparr>records := butlast (records nb)\<rparr>)"
  have Va: "?V a = Some (n\<lparr>records := last (records nb) # ?rs'\<rparr>)" using ab by simp
  have Vb: "?V b = Some (nb\<lparr>records := butlast (records nb)\<rparr>)" by simp
  have V_other: "?V z = ?G z" if "z \<noteq> a" "z \<noteq> b" "?cb \<noteq> Some z" for z
    using that h2_other [OF that(3)] by simp
  have not_kid: "?cb \<noteq> Some z" if "e \<le> d" "e < length lv" "z \<in> set (lv ! e)" for e z
  proof
    assume "?cb = Some z"
    from kid [OF this] have "Suc d < length lv" "z \<in> set (lv ! Suc d)" by auto
    from levels_disjoint [OF dist this(1) that(2) _ this(2)] that(1,3) show False by auto
  qed
  have UV: "upper ?V lv d ?\<rho>"
  proof (rule upper_cong [OF R(1)])
    fix e y assume e: "e < d" and y: "y \<in> set (lv ! e)"
    have "y \<noteq> a" "y \<noteq> b" using na nab e y by auto
    moreover have "?cb \<noteq> Some y" using not_kid [of e y] e y d by simp
    ultimately show "?V y = ?G y" by (rule V_other)
  next
    fix y assume y: "y \<in> set (lv ! d)"
    have c: "?cb \<noteq> Some y" using not_kid [of d y] y d by simp
    show "map_option parent (?V y) = map_option parent (?G y)"
    proof (cases "y = a \<or> y = b")
      case True
      then show ?thesis using ab Gb by auto
    next
      case False
      then show ?thesis using V_other [of y] c by simp
    qed
  qed simp
  from shape_links [OF S d L1] Gb
  have nxb: "nxt (nb\<lparr>records := butlast (records nb)\<rparr>) = (if a # ys = [] then ?e else Some (hd (a # ys)))"
    by simp
  have e: "?e = None \<or> ?e = Some m_header" by simp
  have y1: "a # ys \<noteq> [] \<longrightarrow> ?V (hd (a # ys)) \<noteq> None" using Va by simp
  have lo1: "xs' \<noteq> [] \<longrightarrow> ?\<rho> (last xs') < new1"
  proof
    assume x: "xs' \<noteq> []"
    then have lx: "last xs' \<in> set xs'" by simp
    then have lxs: "last xs' \<in> set xs" using xs' by simp
    then have "last xs' \<noteq> a" using R(6) by auto
    then have rk: "?\<rho> (last xs') = last_key ?G (last xs')" using R(4) by simp
    from R(8) [of "last xs'"] lxs have "recs ?G (last xs') \<noteq> []" by (auto simp: recs_def)
    from last_key_level_mem [OF lx this] have "last_key ?G (last xs') \<in> set (level_keys ?G xs')" .
    with sl n1_in have "last_key ?G (last xs') < new1" by (auto simp: sorted_wrt_append)
    with rk show "?\<rho> (last xs') < new1" by simp
  qed
  have hi1: "a # ys \<noteq> [] \<longrightarrow> new1 < ?\<rho> (hd (a # ys))" using n1_kb kb_k ra by simp
  from fix_key_on_path_upper [OF UV L1 Vb nxb e y1 rb lo1 hi1] obtain H1 where
    f1: "fix_key_on_path b kb new1 ?V = Some H1" "upper H1 lv d (?\<rho>(b := new1))"
        "\<forall>z. (\<forall>e<d. z \<notin> set (lv ! e)) \<longrightarrow> H1 z = ?V z"
    by blast
  have H1a: "H1 a = Some (n\<lparr>records := last (records nb) # ?rs'\<rparr>)" using f1(3) na Va by simp
  have H1b: "H1 b = Some (nb\<lparr>records := butlast (records nb)\<rparr>)" using f1(3) nab Vb by simp
  \<comment> \<open>the last key of \<open>a\<close> after the borrow\<close>
  have new2_cases: "(?rs' = [] \<and> new2 = kb) \<or> (?rs' \<noteq> [] \<and> new2 = fst (last ?rs') \<and> kb < new2)"
  proof (cases "?rs' = []")
    case True
    then show ?thesis unfolding new2_def kb_def by simp
  next
    case False
    then have "last ?rs' \<in> set ?rs'" by (rule last_in_set)
    with kb_lt have "kb < fst (last ?rs')" by blast
    moreover have "new2 = fst (last ?rs')" unfolding new2_def by (simp only: last_ConsR [OF False])
    ultimately show ?thesis using False by simp
  qed
  have kb_le: "kb \<le> new2" using new2_cases by auto
  have new2_hi: "ys \<noteq> [] \<longrightarrow> new2 < ?\<rho> (hd ys)"
  proof
    assume y: "ys \<noteq> []"
    then have hy: "hd ys \<in> set ys" by simp
    then have "hd ys \<noteq> a" using R(6) by auto
    then have rk: "?\<rho> (hd ys) = last_key ?G (hd ys)" using R(4) by simp
    from R(8) [of "hd ys"] hy have "recs ?G (hd ys) \<noteq> []" by (auto simp: recs_def)
    from last_key_level_mem [OF hy this] have in_ys: "last_key ?G (hd ys) \<in> set (level_keys ?G ys)" .
    from new2_cases show "new2 < ?\<rho> (hd ys)"
    proof
      assume c: "?rs' = [] \<and> new2 = kb"
      have 1: "?\<rho> a < ?\<rho> (hd ys)" using rsort y by (cases ys) (auto simp: sorted_wrt_append)
      have "kb < ?\<rho> a" using kb_k unfolding ra .
      from less_trans [OF this 1] show ?thesis by (simp only: conjunct2 [OF c])
    next
      assume c: "?rs' \<noteq> [] \<and> new2 = fst (last ?rs') \<and> kb < new2"
      from conjunct1 [OF c] have "last ?rs' \<in> set ?rs'" by (rule last_in_set)
      then have "fst (last ?rs') \<in> fst ` set ?rs'" by (rule imageI)
      then have "fst (last ?rs') \<in> set (keys_of ?G a)" using ka by (metis set_map)
      with sl in_ys have "fst (last ?rs') < last_key ?G (hd ys)" by (auto simp: sorted_wrt_append)
      then show ?thesis by (simp only: conjunct1 [OF conjunct2 [OF c]] rk)
    qed
  qed
  have G_level: "H z = ?G z" if "\<forall>z. (\<forall>e<d. z \<notin> set (lv ! e)) \<longrightarrow> H z = ?V z"
      "z \<in> set (lv ! d)" "z \<noteq> a" "z \<noteq> b" for H z
  proof -
    have "\<forall>e<d. z \<notin> set (lv ! e)" using not_above [OF dist order_refl d that(2)] .
    then have "H z = ?V z" using that(1) by simp
    moreover have "?cb \<noteq> Some z" using not_kid [of d z] that(2) d by simp
    ultimately show ?thesis using V_other [OF that(3,4)] by simp
  qed
  \<comment> \<open>the second repair, when the record that went was the last of \<open>a\<close>\<close>
  have "\<exists>H2. (Suc i = length ?rs \<longrightarrow> fix_key_on_path a (fst (?rs ! i)) new2 H1 = Some H2)
            \<and> (Suc i \<noteq> length ?rs \<longrightarrow> H2 = H1)
            \<and> upper H2 lv d ((?\<rho>(b := new1))(a := new2))
            \<and> (\<forall>z. (\<forall>e<d. z \<notin> set (lv ! e)) \<longrightarrow> H2 z = ?V z)"
  proof (cases "Suc i = length ?rs")
    case True
    have old: "fst (?rs ! i) = ?k" using True i
      by (metis diff_Suc_1 last_conv_nth length_0_conv less_nat_zero_code)
    from R(7) Ga
    have nxa: "nxt (n\<lparr>records := last (records nb) # ?rs'\<rparr>) = (if ys = [] then ?e else Some (hd ys))"
      by auto
    have y2: "ys \<noteq> [] \<longrightarrow> H1 (hd ys) \<noteq> None"
    proof
      assume y: "ys \<noteq> []"
      then have hy: "hd ys \<in> set ys" by simp
      then have "hd ys \<in> set (lv ! d)" "hd ys \<noteq> a" "hd ys \<noteq> b" using L R(6) xs' by auto
      from G_level [OF f1(3) this] R(8) [of "hd ys"] hy show "H1 (hd ys) \<noteq> None" by auto
    qed
    have old2: "(?\<rho>(b := new1)) a = ?k" using ab ra by simp
    have lo2: "xs \<noteq> [] \<longrightarrow> (?\<rho>(b := new1)) (last xs) < new2"
      using lb less_le_trans [OF n1_kb kb_le] by simp
    have hi2: "ys \<noteq> [] \<longrightarrow> new2 < (?\<rho>(b := new1)) (hd ys)"
    proof
      assume y: "ys \<noteq> []"
      then have "hd ys \<in> set ys" by simp
      then have "hd ys \<noteq> b" using R(6) xs' by auto
      with new2_hi y show "new2 < (?\<rho>(b := new1)) (hd ys)" by simp
    qed
    from fix_key_on_path_upper [OF f1(2) L H1a nxa e y2 old2 lo2 hi2] obtain H2 where
      f2: "fix_key_on_path a ?k new2 H1 = Some H2" "upper H2 lv d ((?\<rho>(b := new1))(a := new2))"
          "\<forall>z. (\<forall>e<d. z \<notin> set (lv ! e)) \<longrightarrow> H2 z = H1 z"
      by blast
    have "\<forall>z. (\<forall>e<d. z \<notin> set (lv ! e)) \<longrightarrow> H2 z = ?V z" using f2(3) f1(3) by simp
    with f2(1,2) old True show ?thesis by (intro exI [of _ H2]) simp
  next
    case False
    have "Suc i < length ?rs" using False i by simp
    then have r: "?rs' \<noteq> []" and l: "last ?rs' = last ?rs" by simp_all
    have "new2 = ?k" unfolding new2_def by (simp only: last_ConsR [OF r] l)
    then have "(?\<rho>(b := new1))(a := new2) = ?\<rho>(b := new1)" using ra ab by auto
    with f1(2,3) False show ?thesis by (intro exI [of _ H1]) simp
  qed
  then obtain H2 where
    f2: "Suc i = length ?rs \<Longrightarrow> fix_key_on_path a (fst (?rs ! i)) new2 H1 = Some H2"
        "Suc i \<noteq> length ?rs \<Longrightarrow> H2 = H1"
        "upper H2 lv d ((?\<rho>(b := new1))(a := new2))"
        "\<forall>z. (\<forall>e<d. z \<notin> set (lv ! e)) \<longrightarrow> H2 z = ?V z"
    by blast
  have fx2: "Suc i = length ?rs \<Longrightarrow>
       fix_key_on_path a (fst (?rs ! i)) (fst (last (last (records nb) # ?rs'))) H1 = Some H2"
    using f2(1) unfolding new2_def by simp
  have run: "erase_borrow_left a i h = Some (False, a, i, H2)"
    by (rule borrow_left_run [OF n i pr nb ab bl h2 h2a h2b ins f1(1) [unfolded kb_def new1_def] H1a fx2 f2(2)])
  have H2a: "H2 a = Some (n\<lparr>records := last (records nb) # ?rs'\<rparr>)" using f2(4) na Va by simp
  have H2b: "H2 b = Some (nb\<lparr>records := butlast (records nb)\<rparr>)" using f2(4) nab Vb by simp
  have fr1: "\<forall>z. (\<forall>e<d. z \<notin> set (lv ! e)) \<and> z \<noteq> a \<and> z \<noteq> b \<and> snd (last (records nb)) \<noteq> Some z
               \<longrightarrow> H2 z = h z"
  proof (intro allI impI)
    fix z assume z: "(\<forall>e<d. z \<notin> set (lv ! e)) \<and> z \<noteq> a \<and> z \<noteq> b \<and> snd (last (records nb)) \<noteq> Some z"
    then have "H2 z = ?V z" using f2(4) by simp
    also have "\<dots> = ?G z" using V_other [of z] z by simp
    also have "\<dots> = h z" using z by simp
    finally show "H2 z = h z" .
  qed
  have fr2: "\<forall>z. snd (last (records nb)) = Some z \<longrightarrow> H2 z = map_option (\<lambda>y. y\<lparr>parent := Some a\<rparr>) (h z)"
  proof (intro allI impI)
    fix z assume "snd (last (records nb)) = Some z"
    then have c: "?cb = Some z" by simp
    from kid [OF c] have K: "Suc d < length lv" "z \<in> set (lv ! Suc d)" "z \<noteq> a" "z \<noteq> b" by auto
    have "\<forall>e<d. z \<notin> set (lv ! e)" using not_above [OF dist _ K(1,2), of d] by simp
    then have "H2 z = ?V z" using f2(4) by simp
    also have "\<dots> = h2 z" using K(3,4) by simp
    also have "\<dots> = map_option (\<lambda>y. y\<lparr>parent := Some a\<rparr>) (h z)" by (rule h2_kid [OF c])
    finally show "H2 z = map_option (\<lambda>y. y\<lparr>parent := Some a\<rparr>) (h z)" .
  qed
  have U: "upper H2 lv d (last_key H2)"
  proof (rule upper_cong [OF f2(3)])
    fix y assume y: "y \<in> set (lv ! d)"
    show "last_key H2 y = ((?\<rho>(b := new1))(a := new2)) y"
    proof (cases "y = a")
      case True
      then show ?thesis using H2a by (simp add: last_key_def recs_def new2_def)
    next
      case False
      note ya = this
      show ?thesis
      proof (cases "y = b")
        case True
        then show ?thesis using H2b ab by (simp add: last_key_def recs_def new1_def)
      next
        case False
        from G_level [OF f2(4) y ya False] have "last_key H2 y = last_key ?G y"
          by (simp add: last_key_def recs_def)
        then show ?thesis using ya False R(4) [OF ya] by simp
      qed
    qed
  qed simp_all
  from run H2a H2b fr1 fr2 U xs lb ab show ?thesis by blast
qed

lemma sorted_wrt_remove_mid:
  fixes A :: "'a::linorder list"
  assumes "sorted_wrt (<) (A @ B @ C)"
  shows "sorted_wrt (<) (A @ (take i B @ drop (Suc i) B) @ C)"
proof -
  have sub: "set (take i B @ drop (Suc i) B) \<subseteq> set B"
    using set_take_subset [of i B] set_drop_subset [of "Suc i" B] by auto
  have B: "sorted_wrt (<) B" using assms by (simp add: sorted_wrt_append)
  have "sorted_wrt (<) (take i B @ drop (Suc i) B)"
  proof -
    have "sorted_wrt (<) (take i B @ drop i B)" using B by simp
    note this [unfolded sorted_wrt_append]
    then have 1: "sorted_wrt (<) (take i B)" "sorted_wrt (<) (drop i B)"
      "\<forall>x\<in>set (take i B). \<forall>y\<in>set (drop i B). x < y" by blast+
    have "drop (Suc i) B = drop 1 (drop i B)" by simp
    then have 2: "sorted_wrt (<) (drop (Suc i) B)" "set (drop (Suc i) B) \<subseteq> set (drop i B)"
      using 1(2) sorted_wrt_drop [of "(<)" "drop i B" 1] set_drop_subset [of 1 "drop i B"] by auto
    show ?thesis using 1 2 by (auto simp: sorted_wrt_append)
  qed
  with assms sub show ?thesis by (auto simp: sorted_wrt_append)
qed

text \<open>
  A tree without one record of a leaf: the state in which the first round of the
  loop of \<^verbatim>\<open>erase\<close> finds the heap.
\<close>

lemma without_shape_leaf:
  fixes h :: "'k::linorder heap"
  assumes S: "shape h lv None" and a: "a \<in> set (last lv)" and n: "h a = Some n"
  shows "shape (h(a \<mapsto> n\<lparr>records := take i (records n) @ drop (Suc i) (records n)\<rparr>)) lv
           (Some (a, fst (last (records n))))"
proof (rule shapeI)
  let ?rs = "records n"
  let ?rs' = "take i ?rs @ drop (Suc i) ?rs"
  let ?G = "h(a \<mapsto> n\<lparr>records := ?rs'\<rparr>)"
  let ?ov = "Some (a, fst (last ?rs))"
  have lvne: "lv \<noteq> []" using shapeD(1) [OF S] .
  let ?l = "length lv - 1"
  have ll: "last lv = lv ! ?l" using lvne by (rule last_conv_nth)
  have l: "?l < length lv" using lvne by simp
  have al: "a \<in> set (lv ! ?l)" using a ll by simp
  have dist: "distinct (concat lv)" using shapeD(3) [OF S] .
  have other: "x \<noteq> a" if "e < length lv" "e \<noteq> ?l" "x \<in> set (lv ! e)" for e x
    using levels_disjoint [OF dist l that(1) _ al] that(2,3) by auto
  have lk: "last_key h a = fst (last ?rs)" using n by (simp add: last_key_def recs_def)
  have rk: "rep_key ?G ?ov c = rep_key h None c" for c
  proof (cases "c = a")
    case True
    then show ?thesis using lk by (simp add: rep_key_def)
  next
    case False
    then show ?thesis by (simp add: rep_key_def last_key_def recs_def)
  qed
  have links: "map_option (\<lambda>n. (pre n, nxt n)) (?G x) = map_option (\<lambda>n. (pre n, nxt n)) (h x)" for x
    using n by simp
  have par: "map_option parent (?G x) = map_option parent (h x)" for x using n by simp
  show "lv \<noteq> []" by (rule lvne)
  show "\<forall>L\<in>set lv. L \<noteq> []" using shapeD(2) [OF S] .
  show "distinct (concat lv)" by (rule dist)
  show "m_header \<notin> set (concat lv)" using shapeD(4) [OF S] .
  show "\<exists>r n. hd lv = [r] \<and> ?G r = Some n \<and> parent n = None"
  proof -
    from shapeD(5) [OF S] obtain r nr where r: "hd lv = [r]" "h r = Some nr" "parent nr = None" by blast
    show ?thesis
    proof (cases "r = a")
      case True
      then show ?thesis using r n by simp
    next
      case False
      then show ?thesis using r by simp
    qed
  qed
  show "internal_level ?G ?ov (lv ! d) (lv ! Suc d)" if d: "Suc d < length lv" for d
  proof -
    have "internal_level ?G ?ov (lv ! d) (lv ! Suc d) = internal_level h None (lv ! d) (lv ! Suc d)"
    proof (rule internal_level_cong)
      show "\<forall>x\<in>set (lv ! d). map_option (\<lambda>n. (is_leaf n, records n)) (?G x)
               = map_option (\<lambda>n. (is_leaf n, records n)) (h x)"
      proof
        fix x assume "x \<in> set (lv ! d)"
        then have "x \<noteq> a" using other [of d x] d by simp
        then show "map_option (\<lambda>n. (is_leaf n, records n)) (?G x)
               = map_option (\<lambda>n. (is_leaf n, records n)) (h x)" by simp
      qed
      show "\<forall>c\<in>set (lv ! Suc d). rep_key ?G ?ov c = rep_key h None c
               \<and> map_option parent (?G c) = map_option parent (h c)"
        using rk par by blast
    qed
    then show ?thesis using shape_internal [OF S d] by simp
  qed
  show "chain ?G None None (lv ! d)" if d: "Suc d < length lv" for d
  proof -
    have "chain ?G None None (lv ! d) = chain h None None (lv ! d)"
      by (rule chain_cong) (use links in blast)
    then show ?thesis using shape_chain [OF S d] by simp
  qed
  show "leaf_level ?G (last lv)"
    unfolding leaf_level_def
  proof
    fix x assume x: "x \<in> set (last lv)"
    from shape_leaf [OF S x] obtain nx where nx: "h x = Some nx" "is_leaf nx" "\<forall>r\<in>set (records nx). snd r = None"
      by blast
    show "\<exists>n. ?G x = Some n \<and> is_leaf n \<and> (\<forall>r\<in>set (records n). snd r = None)"
    proof (cases "x = a")
      case True
      have "set ?rs' \<subseteq> set ?rs" using set_take_subset [of i ?rs] set_drop_subset [of "Suc i" ?rs] by auto
      then show ?thesis using True nx n by auto
    next
      case False
      then show ?thesis using nx by simp
    qed
  qed
  show "chain ?G (Some m_header) (Some m_header) (last lv)"
  proof -
    have "chain ?G (Some m_header) (Some m_header) (last lv) = chain h (Some m_header) (Some m_header) (last lv)"
      by (rule chain_cong) (use links in blast)
    then show ?thesis using shapeD(8) [OF S] by simp
  qed
  show "\<exists>hn. ?G m_header = Some hn \<and> nxt hn = Some (hd (last lv)) \<and> pre hn = Some (last (last lv))"
  proof -
    have "a \<noteq> m_header" using shape_header_notin [OF S l al] .
    then show ?thesis using shapeD(9) [OF S] by simp
  qed
  show "sorted_wrt (<) (level_keys ?G (lv ! d))" if d: "d < length lv" for d
  proof (cases "d = ?l")
    case False
    have "\<forall>x\<in>set (lv ! d). recs ?G x = recs h x"
    proof
      fix x assume "x \<in> set (lv ! d)"
      then have "x \<noteq> a" using other [OF d False] by simp
      then show "recs ?G x = recs h x" by (simp add: recs_def)
    qed
    from level_keys_cong [OF this] shape_sorted [OF S d] show ?thesis by simp
  next
    case True
    from al obtain xs ys where L: "lv ! ?l = xs @ a # ys" by (meson split_list)
    have dl: "distinct (xs @ a # ys)" using level_distinct [OF dist l] L by simp
    have "\<forall>x\<in>set xs. recs ?G x = recs h x" using dl by (auto simp: recs_def)
    from level_keys_cong [OF this] have X: "level_keys ?G xs = level_keys h xs" .
    have "\<forall>x\<in>set ys. recs ?G x = recs h x" using dl by (auto simp: recs_def)
    from level_keys_cong [OF this] have Y: "level_keys ?G ys = level_keys h ys" .
    have A: "keys_of ?G a = take i (keys_of h a) @ drop (Suc i) (keys_of h a)"
      using n by (simp add: keys_of_def recs_def take_map drop_map)
    have "sorted_wrt (<) (level_keys h xs @ keys_of h a @ level_keys h ys)"
      using shape_sorted [OF S l] L by simp
    from sorted_wrt_remove_mid [OF this, of i]
    have "sorted_wrt (<) (level_keys ?G (xs @ a # ys))" unfolding level_keys_append level_keys_Cons X Y A
      by simp
    then show ?thesis using True L by simp
  qed
  show "recs ?G x \<noteq> []"
    if "d < length lv" "x \<in> set (lv ! d)" "case ?ov of None \<Rightarrow> True | Some (b, k) \<Rightarrow> x \<noteq> b" for d x
  proof -
    have "x \<noteq> a" using that(3) by simp
    then have "recs ?G x = recs h x" by (simp add: recs_def)
    then show ?thesis using shape_nonempty [OF S that(1,2)] by simp
  qed
qed

lemma inv_mid:
  fixes t :: "'k::linorder bplustree"
  assumes I: "inv m t lv" and r: "m_root t = Some r" and a: "a \<in> set (last lv)"
    and n: "heap t a = Some n" and i: "i < length (records n)"
  shows "mid m (heap t) lv (length lv - 1) a i"
proof -
  note R = invD_root [OF I r]
  have lvne: "lv \<noteq> []" using shapeD(1) [OF R(4)] .
  have ll: "last lv = lv ! (length lv - 1)" using lvne by (rule last_conv_nth)
  have "shape (without (heap t) a i) lv (Some (a, last_key (heap t) a))"
    using without_shape_leaf [OF R(4) a n, of i] n by (simp add: without_def last_key_def recs_def)
  then show ?thesis
    unfolding mid_def using lvne a ll n i R(5) by (simp add: recs_def)
qed

lemma neighbour_Some:
  "neighbour h n p = Some (e, s, k) \<Longrightarrow> \<not> e \<Longrightarrow>
     \<exists>b r. p = Some b \<and> b \<noteq> m_header \<and> h b = Some r \<and> k = length (records r)
            \<and> s = (parent r = parent n)"
  by (auto simp: neighbour_def bind_eq_Some_conv split: if_splits)

lemma inv_empty_tree: "inv m empty_tree []"
  by (simp add: inv_def empty_tree_def m_header_def make_node_def)

lemma run_inserts_inv:
  fixes t :: "'k::linorder bplustree"
  assumes "inv m t lv" and "2 \<le> m"
  shows "\<exists>t' lv'. run m (map Insert ks) t = Some t' \<and> inv m t' lv'
           \<and> set (leaf_keys t' lv') = set ks \<union> set (leaf_keys t lv)
           \<and> (ks \<noteq> [] \<longrightarrow> m_root t' \<noteq> None)"
  using assms(1)
proof (induction ks arbitrary: t lv)
  case Nil
  then show ?case by auto
next
  case (Cons k ks)
  from insert_inv [OF Cons.prems assms(2), of k] obtain it b t1 lv1 where
    1: "insert m k t = Some ((it, b), t1)" "inv m t1 lv1" "m_root t1 \<noteq> None"
       "set (leaf_keys t1 lv1) = Set.insert k (set (leaf_keys t lv))"
    by blast
  from Cons.IH [OF 1(2)] obtain t' lv' where
    2: "run m (map Insert ks) t1 = Some t'" "inv m t' lv'"
       "set (leaf_keys t' lv') = set ks \<union> set (leaf_keys t1 lv1)"
       "ks \<noteq> [] \<longrightarrow> m_root t' \<noteq> None"
    by blast
  have r: "run m (map Insert (k # ks)) t = Some t'" using 1(1) 2(1) by simp
  have s: "set (leaf_keys t' lv') = set (k # ks) \<union> set (leaf_keys t lv)" using 1(4) 2(3) by auto
  have "m_root t' \<noteq> None"
  proof (cases ks)
    case Nil
    then show ?thesis using 2(1) 1(3) by simp
  next
    case (Cons x xs)
    then show ?thesis using 2(4) by simp
  qed
  with r 2(2) s show ?case by blast
qed

lemma borrow_strategyD:
  assumes "erase_strategy m t a = Some s" and "heap t a = Some n"
  shows "s = BORROW_RIGHT \<Longrightarrow>
            \<exists>b r. nxt n = Some b \<and> b \<noteq> m_header \<and> heap t b = Some r \<and> half_order m < length (records r)"
    and "s = BORROW_LEFT \<Longrightarrow>
            \<exists>b l. pre n = Some b \<and> b \<noteq> m_header \<and> heap t b = Some l \<and> half_order m < length (records l)"
proof -
  assume s: "s = BORROW_RIGHT"
  with assms obtain re hr rs where
    nb: "neighbour (heap t) n (nxt n) = Some (re, hr, rs)" and c: "\<not> re" "half_order m < rs"
    by (auto simp: erase_strategy_def erase_strategy_eq2_def erase_strategy_gt2_def
          bind_eq_Some_conv split: if_splits)
  from neighbour_Some [OF nb c(1)] c(2)
  show "\<exists>b r. nxt n = Some b \<and> b \<noteq> m_header \<and> heap t b = Some r
               \<and> half_order m < length (records r)" by auto
next
  assume s: "s = BORROW_LEFT"
  with assms obtain le hl ls where
    nb: "neighbour (heap t) n (pre n) = Some (le, hl, ls)" and c: "\<not> le" "half_order m < ls"
    by (auto simp: erase_strategy_def erase_strategy_eq2_def erase_strategy_gt2_def
          bind_eq_Some_conv split: if_splits)
  from neighbour_Some [OF nb c(1)] c(2)
  show "\<exists>b l. pre n = Some b \<and> b \<noteq> m_header \<and> heap t b = Some l
               \<and> half_order m < length (records l)" by auto
qed

text \<open>What the state between two rounds says of the node under repair.\<close>

lemma midD:
  fixes h :: "'k::linorder heap"
  assumes M: "mid m h lv d a i" and n: "h a = Some n"
  shows "d < length lv" and "a \<in> set (lv ! d)" and "i < length (records n)"
    and "shape (h(a \<mapsto> n\<lparr>records := take i (records n) @ drop (Suc i) (records n)\<rparr>)) lv
           (Some (a, fst (last (records n))))"
    and "\<forall>x\<in>set (concat lv). fits m h lv x"
    and "1 \<le> half_order m"
proof -
  show d: "d < length lv" and a: "a \<in> set (lv ! d)" and i: "i < length (records n)"
    and "\<forall>x\<in>set (concat lv). fits m h lv x"
    using M n unfolding mid_def by (simp_all add: recs_def)
  show "shape (h(a \<mapsto> n\<lparr>records := take i (records n) @ drop (Suc i) (records n)\<rparr>)) lv
           (Some (a, fst (last (records n))))"
    using M n unfolding mid_def by (simp add: without_def last_key_def recs_def)
  have "fits m h lv a" using M in_concat_level [OF d a] unfolding mid_def by blast
  then have "length (records n) \<le> m" using n by (simp add: fits_def recs_def)
  with i have "1 \<le> m" by simp
  then show "1 \<le> half_order m" by (simp add: half_order_def)
qed

subsection \<open>Neighbours in a strictly ascending list\<close>

lemma sorted_pred:
  fixes zs :: "'a::linorder list"
  assumes s: "sorted_wrt (<) zs" and j: "Suc j < length zs"
  shows "Max {x \<in> set zs. x < zs ! Suc j} = zs ! j"
proof (rule Max_eqI)
  show "finite {x \<in> set zs. x < zs ! Suc j}" by simp
  show "zs ! j \<in> {x \<in> set zs. x < zs ! Suc j}"
    using sorted_wrt_nth_less [OF s, of j "Suc j"] j by simp
  fix y assume "y \<in> {x \<in> set zs. x < zs ! Suc j}"
  then obtain i where i: "i < length zs" "y = zs ! i" "zs ! i < zs ! Suc j"
    by (auto simp: in_set_conv_nth)
  have "i \<le> j"
  proof (rule ccontr)
    assume "\<not> i \<le> j"
    then have "Suc j = i \<or> Suc j < i" by linarith
    then have "zs ! Suc j \<le> zs ! i"
      using sorted_wrt_nth_less [OF s, of "Suc j" i] i(1) by auto
    with i(3) show False by simp
  qed
  then have "i = j \<or> i < j" by linarith
  then show "y \<le> zs ! j" using sorted_wrt_nth_less [OF s, of i j] j i(2) by auto
qed

lemma sorted_hd_Min:
  fixes zs :: "'a::linorder list"
  assumes s: "sorted_wrt (<) zs" and ne: "zs \<noteq> []"
  shows "Min (set zs) = hd zs"
proof (rule Min_eqI)
  show "finite (set zs)" by simp
  show "hd zs \<in> set zs" using ne by simp
  fix y assume "y \<in> set zs"
  then show "hd zs \<le> y" using s ne by (cases zs) auto
qed

lemma sorted_last_Max:
  fixes zs :: "'a::linorder list"
  assumes s: "sorted_wrt (<) zs" and ne: "zs \<noteq> []"
  shows "Max (set zs) = last zs"
proof (rule Max_eqI)
  show "finite (set zs)" by simp
  show "last zs \<in> set zs" using ne by simp
  fix y assume "y \<in> set zs"
  then show "y \<le> last zs" using sorted_le_last [OF s] by simp
qed

subsection \<open>The leaves of a well-formed tree\<close>

lemma inv_leaves:
  fixes t :: "'k::linorder bplustree"
  assumes I: "inv m t lv" and r: "m_root t = Some r"
  shows "lv \<noteq> []" and "last lv \<noteq> []" and "leaf_keys t lv = level_keys (heap t) (last lv)"
    and "sorted_wrt (<) (leaf_keys t lv)" and "leaf_keys t lv \<noteq> []"
    and "\<forall>a\<in>set (last lv). \<exists>n. heap t a = Some n \<and> records n \<noteq> [] \<and> is_leaf n"
    and "chain (heap t) (Some m_header) (Some m_header) (last lv)"
    and "\<exists>hn. heap t m_header = Some hn \<and> nxt hn = Some (hd (last lv)) \<and> pre hn = Some (last (last lv))"
    and "distinct (last lv)" and "m_header \<notin> set (last lv)"
    and "m_size t = length (leaf_keys t lv)"
proof -
  note R = invD_root [OF I r]
  have s: "shape (heap t) lv None" by (rule R(4))
  show lvne: "lv \<noteq> []" using shapeD(1) [OF s] .
  note li = last_level_index [OF lvne]
  show llne: "last lv \<noteq> []" using shapeD(2) [OF s] lvne by simp
  show lk: "leaf_keys t lv = level_keys (heap t) (last lv)" using lvne by (simp add: leaf_keys_def)
  show "sorted_wrt (<) (leaf_keys t lv)" using shape_sorted [OF s, of "length lv - 1"] li lk by simp
  have ne: "\<And>a. a \<in> set (last lv) \<Longrightarrow> recs (heap t) a \<noteq> []"
    using shape_nonempty [OF s, of "length lv - 1"] li by simp
  show "\<forall>a\<in>set (last lv). \<exists>n. heap t a = Some n \<and> records n \<noteq> [] \<and> is_leaf n"
  proof
    fix a assume a: "a \<in> set (last lv)"
    from shape_leaf [OF s a] ne [OF a] show "\<exists>n. heap t a = Some n \<and> records n \<noteq> [] \<and> is_leaf n"
      by auto
  qed
  have "level_keys (heap t) (last lv) = [] \<longleftrightarrow> last lv = []"
    using ne by (intro level_keys_empty_iff) blast
  then show "leaf_keys t lv \<noteq> []" using llne lk by simp
  show "chain (heap t) (Some m_header) (Some m_header) (last lv)" using shapeD(8) [OF s] .
  show "\<exists>hn. heap t m_header = Some hn \<and> nxt hn = Some (hd (last lv)) \<and> pre hn = Some (last (last lv))"
    using shapeD(9) [OF s] .
  show "distinct (last lv)" using level_distinct [OF shapeD(3) [OF s], of "length lv - 1"] li by simp
  show "m_header \<notin> set (last lv)" using shape_header_notin [OF s, of "length lv - 1"] li by auto
  show "m_size t = length (leaf_keys t lv)" using R(6) lk by simp
qed

lemma level_keys_nth:
  "i < length (recs h a) \<Longrightarrow>
     level_keys h (xs @ a # ys) ! (length (level_keys h xs) + i) = fst (recs h a ! i)"
  by (simp add: nth_append keys_of_def)

lemma level_keys_length_ge:
  "i < length (recs h a) \<Longrightarrow> length (level_keys h xs) + i < length (level_keys h (xs @ a # ys))"
  by simp

subsection \<open>Stepping backwards\<close>

lemma decrement_end:
  fixes t :: "'k::linorder bplustree"
  assumes I: "inv m t lv" and r: "m_root t = Some r"
  shows "\<exists>hn a n. heap t m_header = Some hn \<and> pre hn = Some a \<and> heap t a = Some n \<and> records n \<noteq> []
           \<and> decrement t end_iterator = Some \<lparr>it_node = Some a, record_iterator = length (records n) - 1\<rparr>
           \<and> fst (last (records n)) = Max (set (leaf_keys t lv))"
proof -
  note L = inv_leaves [OF I r]
  from L(8) obtain hn where hn: "heap t m_header = Some hn" "nxt hn = Some (hd (last lv))"
    "pre hn = Some (last (last lv))" by blast
  let ?a = "last (last lv)"
  have a: "?a \<in> set (last lv)" using L(2) by simp
  with L(6) obtain n where n: "heap t ?a = Some n" "records n \<noteq> []" by blast
  have d: "decrement t end_iterator = Some \<lparr>it_node = Some ?a, record_iterator = length (records n) - 1\<rparr>"
    using r hn n by (simp add: decrement_def end_iterator_def set_last_def)
  have "recs (heap t) ?a \<noteq> []" using n by simp
  from last_level_keys [OF L(2) this] have "last (leaf_keys t lv) = fst (last (records n))"
    using L(3) n by (simp add: last_key_def)
  then have "fst (last (records n)) = Max (set (leaf_keys t lv))"
    using sorted_last_Max [OF L(4,5)] by simp
  with hn n d show ?thesis by blast
qed

lemma decrement_begin:
  fixes t :: "'k::linorder bplustree"
  assumes I: "inv m t lv" and r: "m_root t = Some r"
  shows "\<exists>b. begin_iterator t = Some b \<and> decrement t b = Some b
           \<and> deref t b = Some (Min (set (leaf_keys t lv)))"
proof -
  note L = inv_leaves [OF I r]
  from L(8) obtain hn where hn: "heap t m_header = Some hn" "nxt hn = Some (hd (last lv))" by blast
  let ?a = "hd (last lv)"
  have a: "?a \<in> set (last lv)" using L(2) by simp
  with L(6) obtain n where n: "heap t ?a = Some n" "records n \<noteq> []" by blast
  have sz: "m_size t \<noteq> 0" using L(11,5) by simp
  let ?b = "make_iterator_uncheck ?a 0"
  have b: "begin_iterator t = Some ?b" using sz hn n by (simp add: begin_iterator_def)
  have d: "decrement t ?b = Some ?b"
    using r hn by (simp add: decrement_def make_iterator_uncheck_def)
  have "last lv = [] @ ?a # tl (last lv)" using L(2) by simp
  then have "level_keys (heap t) (last lv) ! (length (level_keys (heap t) []) + 0) = fst (recs (heap t) ?a ! 0)"
    using level_keys_nth [of 0 "heap t" ?a "[]" "tl (last lv)"] n by simp
  then have "hd (leaf_keys t lv) = fst (records n ! 0)"
    using L(3,5) n by (simp add: hd_conv_nth)
  then have "deref t ?b = Some (Min (set (leaf_keys t lv)))"
    using sorted_hd_Min [OF L(4,5)] n by (simp add: deref_def make_iterator_uncheck_def set_at_def)
  with b d show ?thesis by blast
qed

lemma find_stored:
  fixes t :: "'k::linorder bplustree"
  assumes I: "inv m t lv" and r: "m_root t = Some r" and k: "k \<in> set (leaf_keys t lv)"
  shows "\<exists>a i n xs ys. find t k = Some \<lparr>it_node = Some a, record_iterator = i\<rparr> \<and> last lv = xs @ a # ys
           \<and> heap t a = Some n \<and> i < length (records n) \<and> fst (records n ! i) = k
           \<and> leaf_keys t lv ! (length (level_keys (heap t) xs) + i) = k
           \<and> length (level_keys (heap t) xs) + i < length (leaf_keys t lv)"
proof -
  note R = invD_root [OF I r]
  note L = inv_leaves [OF I r]
  from find_loop_shape [OF R(4,3), of k] k L(3) obtain a i where
    f: "find_loop (heap t) k (Some r) = Some (make_iterator_uncheck a i)" "a \<in> set (last lv)"
       "i < length (recs (heap t) a)" "fst (recs (heap t) a ! i) = k"
    by auto
  from f(2) obtain xs ys where X: "last lv = xs @ a # ys" by (meson split_list)
  from L(6) f(2) obtain n where n: "heap t a = Some n" by blast
  have "find t k = Some \<lparr>it_node = Some a, record_iterator = i\<rparr>"
    using f(1) r by (simp add: find_def make_iterator_uncheck_def)
  moreover have "leaf_keys t lv ! (length (level_keys (heap t) xs) + i) = k"
    using level_keys_nth [OF f(3), of xs ys] f(4) L(3) X by simp
  moreover have "length (level_keys (heap t) xs) + i < length (leaf_keys t lv)"
    using level_keys_length_ge [OF f(3), of xs ys] L(3) X by simp
  ultimately show ?thesis using X n f(3,4) by auto
qed

lemma decrement_stored:
  fixes t :: "'k::linorder bplustree"
  assumes I: "inv m t lv" and r: "m_root t = Some r" and k: "k \<in> set (leaf_keys t lv)"
    and nm: "k \<noteq> Min (set (leaf_keys t lv))"
  shows "\<exists>it it' a n. find t k = Some it \<and> deref t it = Some k \<and> it_node it = Some a \<and> heap t a = Some n
           \<and> decrement t it = Some it'
           \<and> deref t it' = Some (Max {x \<in> set (leaf_keys t lv). x < k})
           \<and> (record_iterator it = 0 \<longrightarrow>
                 (\<exists>b p. pre n = Some b \<and> heap t b = Some p
                         \<and> it' = \<lparr>it_node = Some b, record_iterator = length (records p) - 1\<rparr>))
           \<and> (record_iterator it \<noteq> 0 \<longrightarrow>
                 it' = \<lparr>it_node = Some a, record_iterator = record_iterator it - 1\<rparr>)"
proof -
  note L = inv_leaves [OF I r]
  let ?h = "heap t" and ?ks = "leaf_keys t lv"
  from find_stored [OF I r k] obtain a i n xs ys where
    f: "find t k = Some \<lparr>it_node = Some a, record_iterator = i\<rparr>" "last lv = xs @ a # ys"
       "?h a = Some n" "i < length (records n)" "fst (records n ! i) = k"
       "?ks ! (length (level_keys ?h xs) + i) = k" "length (level_keys ?h xs) + i < length ?ks"
    by blast
  let ?it = "\<lparr>it_node = Some a, record_iterator = i\<rparr>"
  let ?j = "length (level_keys ?h xs) + i"
  from L(8) obtain hn where hn: "?h m_header = Some hn" "nxt hn = Some (hd (last lv))" by blast
  have j0: "?j \<noteq> 0"
  proof
    assume "?j = 0"
    then have "k = ?ks ! 0" using f(6) by simp
    then have "k = hd ?ks" using L(5) by (simp add: hd_conv_nth)
    with nm sorted_hd_Min [OF L(4,5)] show False by simp
  qed
  then obtain j where j: "?j = Suc j" by (cases ?j) auto
  have pred: "Max {x \<in> set ?ks. x < k} = ?ks ! j"
    using sorted_pred [OF L(4), of j] f(6,7) j by simp
  have dk: "deref t ?it = Some k" using f(3,4,5) by (simp add: deref_def set_at_def)
  have nb: "\<not> (Some a = nxt hn \<and> i = 0)"
  proof
    assume b: "Some a = nxt hn \<and> i = 0"
    then have "a = hd (xs @ a # ys)" using hn(2) f(2) by simp
    moreover have "distinct (xs @ a # ys)" using L(9) f(2) by simp
    ultimately have "xs = []" by (cases xs) auto
    with b j0 show False by simp
  qed
  show ?thesis
  proof (cases "i = 0")
    case True
    then have "level_keys ?h xs \<noteq> []" using j0 by auto
    then have xne: "xs \<noteq> []" by auto
    let ?b = "last xs"
    have bin: "?b \<in> set (last lv)" using xne f(2) by simp
    with L(6) obtain p where p: "?h ?b = Some p" "records p \<noteq> []" by blast
    from chain_node [of ?h "Some m_header" "Some m_header" xs a ys] L(7) f(2,3) xne
    have pre: "pre n = Some ?b" by simp
    let ?it' = "\<lparr>it_node = Some ?b, record_iterator = length (records p) - 1\<rparr>"
    have d: "decrement t ?it = Some ?it'"
      using r hn(1) nb f(3) True pre p by (simp add: decrement_def set_last_def)
    have "recs ?h ?b \<noteq> []" using p by simp
    from last_level_keys [OF xne this] have lx: "last (level_keys ?h xs) = fst (last (records p))"
      using p by (simp add: last_key_def)
    have "?ks ! j = level_keys ?h xs ! j" using L(3) f(2) j True by (simp add: nth_append)
    also have "\<dots> = last (level_keys ?h xs)"
      using j True \<open>level_keys ?h xs \<noteq> []\<close> by (simp add: last_conv_nth)
    finally have "?ks ! j = fst (last (records p))" using lx by simp
    then have "deref t ?it' = Some (?ks ! j)"
      using p by (simp add: deref_def set_at_def last_conv_nth)
    with f(1,3) dk d pred pre p True show ?thesis by auto
  next
    case False
    let ?it' = "\<lparr>it_node = Some a, record_iterator = i - 1\<rparr>"
    have d: "decrement t ?it = Some ?it'"
      using r hn(1) nb f(3) False by (simp add: decrement_def)
    have ji: "j = length (level_keys ?h xs) + (i - 1)" using j False by simp
    have "i - 1 < length (recs ?h a)" using f(3,4) by simp
    from level_keys_nth [OF this, of xs ys] have "?ks ! j = fst (records n ! (i - 1))"
      using L(3) f(2,3) ji by simp
    then have "deref t ?it' = Some (?ks ! j)"
      using f(3,4) by (simp add: deref_def set_at_def)
    with f(1,3) dk d pred False show ?thesis by auto
  qed
qed

section \<open>Taking a node out of its level\<close>

lemma chain_change_start:
  assumes c: "chain h l r (y # ys)"
    and y: "\<exists>n n'. h y = Some n \<and> h' y = Some n' \<and> nxt n' = nxt n \<and> pre n' = l'"
    and same: "\<forall>z\<in>set ys. map_option (\<lambda>n. (pre n, nxt n)) (h' z) = map_option (\<lambda>n. (pre n, nxt n)) (h z)"
  shows "chain h' l' r (y # ys)"
proof -
  from c obtain n where n: "h y = Some n" "nxt n = (if ys = [] then r else Some (hd ys))"
    "chain h (Some y) r ys" unfolding chain_Cons by auto
  from y n obtain n' where n': "h' y = Some n'" "nxt n' = nxt n" "pre n' = l'" by auto
  have "chain h' (Some y) r ys = chain h (Some y) r ys" using same by (rule chain_cong)
  with n n' show ?thesis unfolding chain_Cons by simp
qed

lemma chain_unlink:
  assumes c: "chain V l r (xs @ x # ys)" and dist: "distinct (xs @ x # ys)"
    and same: "\<And>z. z \<in> set xs \<union> set ys \<Longrightarrow> (xs = [] \<or> z \<noteq> last xs) \<Longrightarrow> (ys = [] \<or> z \<noteq> hd ys)
                \<Longrightarrow> map_option (\<lambda>n. (pre n, nxt n)) (h' z) = map_option (\<lambda>n. (pre n, nxt n)) (V z)"
    and hl: "xs \<noteq> [] \<Longrightarrow> \<exists>n n'. V (last xs) = Some n \<and> h' (last xs) = Some n' \<and> pre n' = pre n
                           \<and> nxt n' = (if ys = [] then r else Some (hd ys))"
    and hr: "ys \<noteq> [] \<Longrightarrow> \<exists>n n'. V (hd ys) = Some n \<and> h' (hd ys) = Some n' \<and> nxt n' = nxt n
                           \<and> pre n' = (if xs = [] then l else Some (last xs))"
  shows "chain h' l r (xs @ ys)"
proof -
  from c have c1: "chain V l (Some x) xs" and c2: "chain V (if xs = [] then l else Some (last xs)) r (x # ys)"
    unfolding chain_mid by simp_all
  have left: "chain h' l r' xs"
    if "xs \<noteq> [] \<longrightarrow> (\<exists>n n'. V (last xs) = Some n \<and> h' (last xs) = Some n' \<and> pre n' = pre n \<and> nxt n' = r')"
    for r'
  proof (rule chain_change_end [where h = V and h' = h' and r' = r', OF c1])
    show "xs \<noteq> [] \<longrightarrow> (\<exists>n n'. V (last xs) = Some n \<and> h' (last xs) = Some n' \<and> pre n' = pre n \<and> nxt n' = r')"
      using that .
    show "\<forall>z\<in>set (butlast xs). map_option (\<lambda>n. (pre n, nxt n)) (h' z) = map_option (\<lambda>n. (pre n, nxt n)) (V z)"
    proof
      fix z assume z: "z \<in> set (butlast xs)"
      then have xne: "xs \<noteq> []" by auto
      have zx: "z \<in> set xs" using z by (rule in_set_butlastD)
      have "distinct xs" using dist by simp
      then have "distinct (butlast xs @ [last xs])" using xne by simp
      then have zl: "z \<noteq> last xs" using z by auto
      have "z \<noteq> hd ys" if "ys \<noteq> []"
      proof -
        have "hd ys \<in> set ys" using that by simp
        then show ?thesis using dist zx by auto
      qed
      then show "map_option (\<lambda>n. (pre n, nxt n)) (h' z) = map_option (\<lambda>n. (pre n, nxt n)) (V z)"
        using same [of z] zx zl by blast
    qed
  qed
  show ?thesis
  proof (cases ys)
    case Nil
    have "chain h' l r xs" using hl Nil by (intro left) auto
    then show ?thesis using Nil by simp
  next
    case (Cons y ys')
    have 1: "chain h' l (Some y) xs" using hl Cons by (intro left) auto
    from c2 have c3: "chain V (Some x) r (y # ys')" using Cons unfolding chain_Cons [of V _ r x] by blast
    have 2: "chain h' (if xs = [] then l else Some (last xs)) r (y # ys')"
    proof (rule chain_change_start [OF c3])
      show "\<exists>n n'. V y = Some n \<and> h' y = Some n' \<and> nxt n' = nxt n
               \<and> pre n' = (if xs = [] then l else Some (last xs))"
        using hr Cons by simp
      show "\<forall>z\<in>set ys'. map_option (\<lambda>n. (pre n, nxt n)) (h' z) = map_option (\<lambda>n. (pre n, nxt n)) (V z)"
      proof
        fix z assume z: "z \<in> set ys'"
        then have zy: "z \<in> set ys" using Cons by simp
        have "z \<noteq> hd ys" using dist Cons z by auto
        moreover have "z \<noteq> last xs" if "xs \<noteq> []"
        proof -
          have "last xs \<in> set xs" using that by simp
          then show ?thesis using dist zy by auto
        qed
        ultimately show "map_option (\<lambda>n. (pre n, nxt n)) (h' z) = map_option (\<lambda>n. (pre n, nxt n)) (V z)"
          using same [of z] zy by blast
      qed
    qed
    show ?thesis unfolding Cons chain_mid using 1 2 by simp
  qed
qed

lemma distinct_concat_drop:
  assumes "distinct (concat lv)" and "d < length lv" and "lv ! d = xs @ x # ys"
  shows "distinct (concat (lv[d := xs @ ys]))" and "set (concat (lv[d := xs @ ys])) = set (concat lv) - {x}"
proof -
  have lv: "lv = take d lv @ (xs @ x # ys) # drop (Suc d) lv"
    using assms(2,3) by (metis id_take_nth_drop)
  have lv': "lv[d := xs @ ys] = take d lv @ (xs @ ys) # drop (Suc d) lv"
    using assms(2) by (simp add: upd_conv_take_nth_drop)
  have D: "distinct (concat (take d lv @ (xs @ x # ys) # drop (Suc d) lv))" using assms(1) lv by simp
  then show "distinct (concat (lv[d := xs @ ys]))" unfolding lv' by auto
  have "set (concat lv) = set (concat (take d lv @ (xs @ x # ys) # drop (Suc d) lv))" using lv by simp
  then show "set (concat (lv[d := xs @ ys])) = set (concat lv) - {x}" unfolding lv' using D by auto
qed

text \<open>
  A node \<open>x\<close> of level \<open>d\<close> that has no records is taken out of its level: its
  neighbours are linked to each other and the pointer to it in its parent \<open>p\<close> is
  cleared. Without the record of \<open>x\<close> in \<open>p\<close> the heap is a tree again.
\<close>

lemma level_drop:
  fixes V h' :: "'k::linorder heap"
  assumes S: "shape V lv (Some (x, kx))" and d: "d < length lv" and d0: "0 < d"
    and L: "lv ! d = xs @ x # ys" and ne: "xs @ ys \<noteq> []" and ex: "recs V x = []"
    and nx: "V x = Some nx"
    and hl: "xs \<noteq> [] \<Longrightarrow> \<exists>n. V (last xs) = Some n \<and> h' (last xs) = Some (n\<lparr>nxt := nxt nx\<rparr>)"
    and hr: "ys \<noteq> [] \<Longrightarrow> \<exists>n. V (hd ys) = Some n \<and> h' (hd ys) = Some (n\<lparr>pre := pre nx\<rparr>)"
    and hh: "\<exists>hn. V m_header = Some hn
               \<and> h' m_header = Some (hn\<lparr>nxt := (if Suc d = length lv \<and> xs = [] then nxt nx else nxt hn),
                                        pre := (if Suc d = length lv \<and> ys = [] then pre nx else pre hn)\<rparr>)"
    and ho: "\<And>z. z \<noteq> x \<Longrightarrow> z \<noteq> m_header \<Longrightarrow> parent nx \<noteq> Some z \<Longrightarrow> (xs = [] \<or> z \<noteq> last xs)
               \<Longrightarrow> (ys = [] \<or> z \<noteq> hd ys) \<Longrightarrow> h' z = V z"
  shows "\<exists>p np R1 R2. parent nx = Some p \<and> V p = Some np \<and> p \<in> set (lv ! (d - 1))
           \<and> records np = R1 @ (kx, Some x) # R2 \<and> set_find (records np) kx = length R1
           \<and> shape (h'(p \<mapsto> np\<lparr>records := R1 @ R2\<rparr>)) (lv[d := xs @ ys]) (Some (p, fst (last (records np))))
           \<and> level_keys (h'(p \<mapsto> np\<lparr>records := R1 @ R2\<rparr>)) (last (lv[d := xs @ ys])) = level_keys V (last lv)"
proof -
  let ?ov = "Some (x, kx)"
  let ?g = "\<lambda>c. (rep_key V ?ov c, Some c)"
  let ?e = "d - 1"
  have Se: "Suc ?e = d" using d0 by simp
  have e: "?e < length lv" using d by simp
  have Sel: "Suc ?e < length lv" using d Se by simp
  have L': "lv ! Suc ?e = xs @ x # ys" using L Se by simp
  from shape_parent [OF S Sel L' nx] obtain p np ps qs R1 R2 where
    P: "lv ! ?e = ps @ p # qs" "V p = Some np" "\<not> is_leaf np" "parent nx = Some p"
       "records np = R1 @ (rep_key V ?ov x, Some x) # R2"
       "level_recs V ps @ R1 = map ?g xs" "R2 @ level_recs V qs = map ?g ys"
    by blast
  have rkx: "rep_key V ?ov x = kx" by (simp add: rep_key_def)
  have rec: "records np = R1 @ (kx, Some x) # R2" using P(5) rkx by simp
  let ?lv = "lv[d := xs @ ys]"
  let ?kp = "fst (last (records np))"
  let ?ov' = "Some (p, ?kp)"
  let ?H = "h'(p \<mapsto> np\<lparr>records := R1 @ R2\<rparr>)"
  have dist: "distinct (concat lv)" using shapeD(3) [OF S] .
  have dL: "distinct (xs @ x # ys)" using level_distinct [OF dist d] L by simp
  have lh0: "last xs \<noteq> hd ys" if "xs \<noteq> []" "ys \<noteq> []"
  proof -
    have "last xs \<in> set xs" using that(1) by (rule last_in_set)
    moreover have "hd ys \<in> set ys" using that(2) by (rule hd_in_set)
    ultimately show ?thesis using dL by auto
  qed
  have xin: "x \<in> set (lv ! d)" using L by simp
  have pin: "p \<in> set (lv ! ?e)" using P(1) by simp
  have len: "length ?lv = length lv" by simp
  have nth_d: "?lv ! d = xs @ ys" using d by simp
  have nth_o: "?lv ! e = lv ! e" if "e \<noteq> d" for e using that by simp
  have ed: "?e \<noteq> d" "d \<noteq> ?e" using d0 by simp_all
  have px: "p \<noteq> x" using levels_disjoint [OF dist d e ed(2) xin] pin by auto
  have pe: "z \<noteq> p" if "e' < length lv" "e' \<noteq> ?e" "z \<in> set (lv ! e')" for e' z
    using levels_disjoint [OF dist that(1) e that(2,3)] pin by auto
  have ph: "p \<noteq> m_header" using shape_header_notin [OF S e pin] .
  have xh: "x \<noteq> m_header" using shape_header_notin [OF S d xin] .
  \<comment> \<open>where the nodes are\<close>
  have at_d: "z \<in> set (lv ! d)" if "z \<in> set xs \<union> set ys" for z using that L by auto
  have not_d: "z \<notin> set xs \<union> set ys \<and> z \<noteq> x" if "e < length lv" "e \<noteq> d" "z \<in> set (lv ! e)" for e z
  proof -
    have "z \<notin> set (lv ! d)" using levels_disjoint [OF dist that(1) d that(2,3)] .
    then show ?thesis using L by auto
  qed
  have p_not_d: "p \<notin> set xs \<union> set ys" using not_d [OF e ed(1) pin] by simp
  \<comment> \<open>what the nodes keep\<close>
  have far: "?H z = V z" if "e < length lv" "e \<noteq> d" "z \<in> set (lv ! e)" "z \<noteq> p" for e z
  proof -
    have 1: "z \<notin> set xs \<union> set ys \<and> z \<noteq> x" using not_d [OF that(1,2,3)] .
    have 2: "z \<noteq> m_header" using shape_header_notin [OF S that(1,3)] .
    have "xs = [] \<or> z \<noteq> last xs" using 1 last_in_set [of xs] by auto
    moreover have "ys = [] \<or> z \<noteq> hd ys" using 1 hd_in_set [of ys] by auto
    ultimately have "h' z = V z" using ho [of z] 1 2 that(4) P(4) by simp
    then show ?thesis using that(4) by simp
  qed
  have near: "\<exists>n n'. V z = Some n \<and> ?H z = Some n' \<and> is_leaf n' = is_leaf n \<and> records n' = records n
                \<and> parent n' = parent n
                \<and> pre n' = (if ys \<noteq> [] \<and> z = hd ys then pre nx else pre n)
                \<and> nxt n' = (if xs \<noteq> [] \<and> z = last xs then nxt nx else nxt n)"
    if z: "z \<in> set xs \<union> set ys" for z
  proof -
    have zp: "z \<noteq> p" using p_not_d z by auto
    have zx: "z \<noteq> x" using dL z by auto
    have zh: "z \<noteq> m_header" using shape_header_notin [OF S d at_d [OF z]] .
    from shape_allocated [OF S d at_d [OF z]] obtain n where n: "V z = Some n" by auto
    note lh = lh0
    consider (l) "xs \<noteq> []" "z = last xs" | (r) "ys \<noteq> []" "z = hd ys"
      | (o) "xs = [] \<or> z \<noteq> last xs" "ys = [] \<or> z \<noteq> hd ys" by blast
    then show ?thesis
    proof cases
      case l
      from hl [OF l(1)] l(2) n have "h' z = Some (n\<lparr>nxt := nxt nx\<rparr>)" by simp
      moreover have "\<not> (ys \<noteq> [] \<and> z = hd ys)" using lh l by auto
      ultimately show ?thesis using n zp l by auto
    next
      case r
      from hr [OF r(1)] r(2) n have "h' z = Some (n\<lparr>pre := pre nx\<rparr>)" by simp
      moreover have "\<not> (xs \<noteq> [] \<and> z = last xs)" using lh r by auto
      ultimately show ?thesis using n zp r by auto
    next
      case o
      have "h' z = V z" using ho [of z] zx zh zp P(4) o by simp
      then show ?thesis using n zp o by auto
    qed
  qed
  have near_recs: "recs ?H z = recs V z" if "z \<in> set xs \<union> set ys" for z
    using near [OF that] by (auto simp: recs_def)
  have lk_same: "last_key ?H z = last_key V z" if "z \<noteq> p" "z \<noteq> x" "e < length lv" "z \<in> set (lv ! e)" for z e
  proof (cases "e = d")
    case True
    then have "z \<in> set xs \<union> set ys" using that(2,4) L by auto
    from near_recs [OF this] show ?thesis by (simp add: last_key_def)
  next
    case False
    from far [OF that(3) False that(4,1)] show ?thesis by (simp add: last_key_def recs_def)
  qed
  have rk: "rep_key ?H ?ov' z = rep_key V ?ov z" if "z \<noteq> x" "e < length lv" "z \<in> set (lv ! e)" for z e
  proof (cases "z = p")
    case True
    then show ?thesis using P(2) px by (simp add: rep_key_def last_key_def recs_def)
  next
    case False
    then show ?thesis using lk_same [OF False that] that(1) by (simp add: rep_key_def)
  qed
  have Hp: "?H p = Some (np\<lparr>records := R1 @ R2\<rparr>)" by simp
  have lrx: "level_recs ?H xs = level_recs V xs" by (rule level_recs_cong) (use near_recs in blast)
  have lry: "level_recs ?H ys = level_recs V ys" by (rule level_recs_cong) (use near_recs in blast)
  have lkx: "level_keys ?H xs = level_keys V xs" by (rule level_keys_cong) (use near_recs in blast)
  have lky: "level_keys ?H ys = level_keys V ys" by (rule level_keys_cong) (use near_recs in blast)
  have dP: "distinct (ps @ p # qs)" using level_distinct [OF dist e] P(1) by simp
  have far_ps: "\<forall>z\<in>set ps \<union> set qs. recs ?H z = recs V z"
  proof
    fix z assume z: "z \<in> set ps \<union> set qs"
    then have "z \<in> set (lv ! ?e)" "z \<noteq> p" using P(1) dP by auto
    from far [OF e ed(1) this] show "recs ?H z = recs V z" by (simp add: recs_def)
  qed
  have lrp: "level_recs ?H ps = level_recs V ps" by (rule level_recs_cong) (use far_ps in blast)
  have lrq: "level_recs ?H qs = level_recs V qs" by (rule level_recs_cong) (use far_ps in blast)
  have lkp: "level_keys ?H ps = level_keys V ps" by (rule level_keys_cong) (use far_ps in blast)
  have lkq: "level_keys ?H qs = level_keys V qs" by (rule level_keys_cong) (use far_ps in blast)
  have sortp: "sorted_wrt (<) (map fst (records np))"
    using sorted_node_of_level [OF shape_sorted [OF S e] pin] P(2) by (simp add: recs_def)
  have find: "set_find (records np) kx = length R1"
    using set_find_at [of R1 kx "Some x" R2] sortp rec by simp
  have lvne: "lv \<noteq> []" using d by auto
  have last_d: "last ?lv = xs @ ys" "last lv = xs @ x # ys" if "Suc d = length lv"
  proof -
    have "d = length lv - 1" using that by simp
    then show "last ?lv = xs @ ys" using lvne nth_d by (simp add: last_conv_nth)
    show "last lv = xs @ x # ys" using nth_last [OF that] L by simp
  qed
  have last_o: "last ?lv = last lv" "length lv - 1 \<noteq> d" "length lv - 1 < length lv"
    if "Suc d \<noteq> length lv"
  proof -
    show 1: "length lv - 1 \<noteq> d" using that d by auto
    show "length lv - 1 < length lv" using lvne by simp
    show "last ?lv = last lv" using lvne 1 by (simp add: last_conv_nth nth_o)
  qed
  have LK: "level_keys ?H (last ?lv) = level_keys V (last lv)"
  proof (cases "Suc d = length lv")
    case True
    have "keys_of V x = []" using ex by (simp add: keys_of_def)
    then have "level_keys ?H (xs @ ys) = level_keys V (xs @ x # ys)" using lkx lky by simp
    then show ?thesis using last_d [OF True] by simp
  next
    case False
    note O = last_o [OF False]
    have "\<forall>a\<in>set (last lv). recs ?H a = recs V a"
    proof
      fix a assume al: "a \<in> set (last lv)"
      then have a: "a \<in> set (lv ! (length lv - 1))" using lvne by (simp add: last_conv_nth)
      have "a \<noteq> p"
      proof
        assume "a = p"
        then have "\<exists>n. V a = Some n \<and> is_leaf n" using shape_leaf [OF S al] by blast
        with P(2,3) \<open>a = p\<close> show False by simp
      qed
      from far [OF O(3,2) a this] show "recs ?H a = recs V a" by (simp add: recs_def)
    qed
    from level_keys_cong [OF this] show ?thesis using O(1) by simp
  qed
  have "shape ?H ?lv ?ov'"
  proof (rule shapeI)
    show "?lv \<noteq> []" using d by auto
    show "\<forall>M\<in>set ?lv. M \<noteq> []"
    proof
      fix M assume "M \<in> set ?lv"
      then have "M = xs @ ys \<or> M \<in> set lv" using set_update_subset_insert [of lv d "xs @ ys"] by auto
      then show "M \<noteq> []" using ne shapeD(2) [OF S] by auto
    qed
    show "distinct (concat ?lv)" using distinct_concat_drop(1) [OF dist d L] .
    show "m_header \<notin> set (concat ?lv)"
      using distinct_concat_drop(2) [OF dist d L] shapeD(4) [OF S] by simp
    show "\<exists>r n. hd ?lv = [r] \<and> ?H r = Some n \<and> parent n = None"
    proof -
      from shapeD(5) [OF S] obtain r n where r: "hd lv = [r]" "V r = Some n" "parent n = None" by blast
      have lvne: "lv \<noteq> []" using d by auto
      have h0: "hd ?lv = [r]" using r(1) d0 lvne by (simp add: hd_conv_nth)
      have r0: "r \<in> set (lv ! 0)" using r(1) lvne by (simp add: hd_conv_nth)
      show ?thesis
      proof (cases "r = p")
        case True
        then show ?thesis using h0 r P(2) by simp
      next
        case False
        have "0 < length lv" "0 \<noteq> d" using lvne d0 by simp_all
        from far [OF this r0 False] have "?H r = V r" .
        then show ?thesis using h0 r by simp
      qed
    qed
    show "internal_level ?H ?ov' (?lv ! e) (?lv ! Suc e)" if e': "Suc e < length ?lv" for e
    proof -
      have el: "Suc e < length lv" "e < length lv" using e' by simp_all
      consider (above) "Suc e < d" | (at) "Suc e = d" | (below) "e = d" | (deep) "d < e" by linarith
      then show ?thesis
      proof cases
        case above
        have "internal_level ?H ?ov' (lv ! e) (lv ! Suc e) = internal_level V ?ov (lv ! e) (lv ! Suc e)"
        proof (rule internal_level_cong)
          show "\<forall>a\<in>set (lv ! e). map_option (\<lambda>n. (is_leaf n, records n)) (?H a)
                   = map_option (\<lambda>n. (is_leaf n, records n)) (V a)"
          proof
            fix a assume a: "a \<in> set (lv ! e)"
            have ne1: "e \<noteq> ?e" "e \<noteq> d" using above by simp_all
            have "a \<noteq> p" using pe [OF el(2) ne1(1) a] .
            from far [OF el(2) ne1(2) a this]
            show "map_option (\<lambda>n. (is_leaf n, records n)) (?H a) = map_option (\<lambda>n. (is_leaf n, records n)) (V a)"
              by simp
          qed
          show "\<forall>c\<in>set (lv ! Suc e). rep_key ?H ?ov' c = rep_key V ?ov c
                   \<and> map_option parent (?H c) = map_option parent (V c)"
          proof
            fix c assume c: "c \<in> set (lv ! Suc e)"
            have ne2: "Suc e \<noteq> d" using above by simp
            have cx: "c \<noteq> x" using not_d [OF el(1) ne2 c] by simp
            have "map_option parent (?H c) = map_option parent (V c)"
            proof (cases "c = p")
              case True
              then show ?thesis using P(2) by simp
            next
              case False
              from far [OF el(1) ne2 c False] show ?thesis by simp
            qed
            with rk [OF cx el(1) c]
            show "rep_key ?H ?ov' c = rep_key V ?ov c \<and> map_option parent (?H c) = map_option parent (V c)"
              by simp
          qed
        qed
        then show ?thesis using shape_internal [OF S el(1)] above by (simp add: nth_o)
      next
        case at
        then have ee: "e = ?e" by simp
        have il: "internal_level V ?ov (lv ! ?e) (lv ! d)" using shape_internal [OF S Sel] Se by simp
        have 1: "\<forall>a\<in>set (ps @ p # qs). \<exists>n. ?H a = Some n \<and> \<not> is_leaf n"
        proof
          fix a assume a: "a \<in> set (ps @ p # qs)"
          show "\<exists>n. ?H a = Some n \<and> \<not> is_leaf n"
          proof (cases "a = p")
            case True
            then show ?thesis using P(3) by simp
          next
            case False
            have "a \<in> set (lv ! ?e)" using a P(1) by simp
            from far [OF e ed(1) this False] internal_level_node [OF il this] show ?thesis by simp
          qed
        qed
        have gg: "map (\<lambda>c. (rep_key ?H ?ov' c, Some c)) (xs @ ys) = map ?g (xs @ ys)"
        proof (rule map_cong [OF refl])
          fix c assume "c \<in> set (xs @ ys)"
          then have "c \<noteq> x" "c \<in> set (lv ! d)" using dL L by auto
          from rk [OF this(1) d this(2)] show "(rep_key ?H ?ov' c, Some c) = ?g c" by simp
        qed
        have 2: "level_recs ?H (ps @ p # qs) = map (\<lambda>c. (rep_key ?H ?ov' c, Some c)) (xs @ ys)"
        proof -
          have "level_recs ?H (ps @ p # qs) = (level_recs V ps @ R1) @ (R2 @ level_recs V qs)"
            using lrp lrq by (simp add: recs_def)
          also have "\<dots> = map ?g (xs @ ys)" unfolding P(6) P(7) by simp
          finally show ?thesis using gg by simp
        qed
        have 3: "\<forall>a\<in>set (ps @ p # qs). \<forall>c. Some c \<in> set (kids_of ?H a)
                   \<longrightarrow> (\<exists>n. ?H c = Some n \<and> parent n = Some a)"
        proof (intro ballI allI impI)
          fix a c assume a: "a \<in> set (ps @ p # qs)" and c: "Some c \<in> set (kids_of ?H a)"
          have ain: "a \<in> set (lv ! ?e)" using a P(1) by simp
          have "Some c \<in> snd ` set (recs ?H a)" using c by (simp add: kids_of_def)
          then obtain r where r: "r \<in> set (recs ?H a)" "snd r = Some c" by force
          then have "r \<in> set (level_recs ?H (ps @ p # qs))" using a unfolding in_level_recs by blast
          then have "Some c \<in> snd ` set (level_recs ?H (ps @ p # qs))" using r(2) by force
          then have cin: "c \<in> set (xs @ ys)" unfolding 2 by auto
          have sub: "set (recs ?H a) \<subseteq> set (recs V a)"
          proof (cases "a = p")
            case True
            then show ?thesis using P(2) rec by (auto simp: recs_def)
          next
            case False
            from far [OF e ed(1) ain False] show ?thesis by (simp add: recs_def)
          qed
          then have "Some c \<in> snd ` set (recs V a)" using r by force
          from internal_level_parent [OF il ain this] obtain n where n: "V c = Some n" "parent n = Some a"
            by blast
          from near [of c] cin n obtain n' where "?H c = Some n'" "parent n' = parent n" by auto
          with n show "\<exists>n. ?H c = Some n \<and> parent n = Some a" by simp
        qed
        have il': "internal_level ?H ?ov' (ps @ p # qs) (xs @ ys)"
          unfolding internal_level_def using 1 2 3 by blast
        have "?lv ! e = ps @ p # qs" unfolding ee using P(1) ed by (simp add: nth_o)
        moreover have "?lv ! Suc e = xs @ ys" unfolding at using nth_d .
        ultimately show ?thesis using il' by simp
      next
        case below
        have il: "internal_level V ?ov (lv ! d) (lv ! Suc d)" using shape_internal [OF S] el below by simp
        have Sd: "Suc d < length lv" using el below by simp
        have deep_same: "?H c = V c" if "c \<in> set (lv ! Suc d)" for c
        proof -
          have ne3: "Suc d \<noteq> ?e" "Suc d \<noteq> d" by simp_all
          have "c \<noteq> p" using pe [OF Sd ne3(1) that] .
          from far [OF Sd ne3(2) that this] show ?thesis .
        qed
        have 1: "\<forall>a\<in>set (xs @ ys). \<exists>n. ?H a = Some n \<and> \<not> is_leaf n"
        proof
          fix a assume a: "a \<in> set (xs @ ys)"
          then have "a \<in> set (lv ! d)" using L by auto
          from internal_level_node [OF il this] obtain n0 where n0: "V a = Some n0" "\<not> is_leaf n0" by blast
          from a have a': "a \<in> set xs \<union> set ys" by simp
          from near [OF a'] n0 obtain n' where "?H a = Some n'" "is_leaf n' = is_leaf n0" by auto
          with n0(2) show "\<exists>n. ?H a = Some n \<and> \<not> is_leaf n" by (intro exI [of _ n']) simp
        qed
        have 2: "level_recs ?H (xs @ ys) = map (\<lambda>c. (rep_key ?H ?ov' c, Some c)) (lv ! Suc d)"
        proof -
          have "level_recs ?H (xs @ ys) = level_recs V (xs @ x # ys)" using lrx lry ex by simp
          also have "\<dots> = map ?g (lv ! Suc d)" using internal_level_recs [OF il] L by simp
          also have "\<dots> = map (\<lambda>c. (rep_key ?H ?ov' c, Some c)) (lv ! Suc d)"
          proof (rule map_cong [OF refl])
            fix c assume c: "c \<in> set (lv ! Suc d)"
            have "Suc d \<noteq> d" by simp
            then have "c \<noteq> x" using not_d [OF Sd _ c] by simp
            from rk [OF this Sd c] show "?g c = (rep_key ?H ?ov' c, Some c)" by simp
          qed
          finally show ?thesis .
        qed
        have 3: "\<forall>a\<in>set (xs @ ys). \<forall>c. Some c \<in> set (kids_of ?H a)
                   \<longrightarrow> (\<exists>n. ?H c = Some n \<and> parent n = Some a)"
        proof (intro ballI allI impI)
          fix a c assume a: "a \<in> set (xs @ ys)" and c: "Some c \<in> set (kids_of ?H a)"
          have ain: "a \<in> set (lv ! d)" using a L by auto
          have "recs ?H a = recs V a" using near_recs [of a] a by simp
          then have c': "Some c \<in> snd ` set (recs V a)" using c by (simp add: kids_of_def)
          from internal_level_parent [OF il ain c'] obtain n where n: "V c = Some n" "parent n = Some a"
            by blast
          have "c \<in> set (lv ! Suc d)" using level_kids_mem [OF il ain c'] .
          from deep_same [OF this] n show "\<exists>n. ?H c = Some n \<and> parent n = Some a" by simp
        qed
        have il': "internal_level ?H ?ov' (xs @ ys) (lv ! Suc d)"
          unfolding internal_level_def using 1 2 3 by blast
        have "?lv ! Suc d = lv ! Suc d" by (simp add: nth_o)
        then show ?thesis unfolding below using il' nth_d by simp
      next
        case deep
        have "internal_level ?H ?ov' (lv ! e) (lv ! Suc e) = internal_level V ?ov (lv ! e) (lv ! Suc e)"
        proof (rule internal_level_cong)
          show "\<forall>a\<in>set (lv ! e). map_option (\<lambda>n. (is_leaf n, records n)) (?H a)
                   = map_option (\<lambda>n. (is_leaf n, records n)) (V a)"
          proof
            fix a assume a: "a \<in> set (lv ! e)"
            have ne4: "e \<noteq> ?e" "e \<noteq> d" using deep by simp_all
            have "a \<noteq> p" using pe [OF el(2) ne4(1) a] .
            from far [OF el(2) ne4(2) a this]
            show "map_option (\<lambda>n. (is_leaf n, records n)) (?H a) = map_option (\<lambda>n. (is_leaf n, records n)) (V a)"
              by simp
          qed
          show "\<forall>c\<in>set (lv ! Suc e). rep_key ?H ?ov' c = rep_key V ?ov c
                   \<and> map_option parent (?H c) = map_option parent (V c)"
          proof
            fix c assume c: "c \<in> set (lv ! Suc e)"
            have ne5: "Suc e \<noteq> ?e" "Suc e \<noteq> d" using deep by simp_all
            have cx: "c \<noteq> x" using not_d [OF el(1) ne5(2) c] by simp
            have "c \<noteq> p" using pe [OF el(1) ne5(1) c] .
            from far [OF el(1) ne5(2) c this] have "?H c = V c" .
            with rk [OF cx el(1) c]
            show "rep_key ?H ?ov' c = rep_key V ?ov c \<and> map_option parent (?H c) = map_option parent (V c)"
              by simp
          qed
        qed
        then show ?thesis using shape_internal [OF S el(1)] deep by (simp add: nth_o)
      qed
    qed
    have links_far: "map_option (\<lambda>n. (pre n, nxt n)) (?H z) = map_option (\<lambda>n. (pre n, nxt n)) (V z)"
      if "e < length lv" "e \<noteq> d" "z \<in> set (lv ! e)" for e z
    proof (cases "z = p")
      case True
      then show ?thesis using P(2) by simp
    next
      case False
      from far [OF that False] show ?thesis by simp
    qed
    have unlink: "chain ?H l r (xs @ ys)" if c: "chain V l r (xs @ x # ys)" for l r
    proof (rule chain_unlink [OF c dL])
      from chain_node [OF c] nx have lx: "pre nx = (if xs = [] then l else Some (last xs))"
        and rx: "nxt nx = (if ys = [] then r else Some (hd ys))" by auto
      show "map_option (\<lambda>n. (pre n, nxt n)) (?H z) = map_option (\<lambda>n. (pre n, nxt n)) (V z)"
        if "z \<in> set xs \<union> set ys" "xs = [] \<or> z \<noteq> last xs" "ys = [] \<or> z \<noteq> hd ys" for z
        using near [OF that(1)] that(2,3) by auto
      show "\<exists>n n'. V (last xs) = Some n \<and> ?H (last xs) = Some n' \<and> pre n' = pre n
               \<and> nxt n' = (if ys = [] then r else Some (hd ys))" if x: "xs \<noteq> []"
      proof -
        have lh: "\<not> (ys \<noteq> [] \<and> last xs = hd ys)" using lh0 [OF x] by blast
        from near [of "last xs"] x lh rx show ?thesis by auto
      qed
      show "\<exists>n n'. V (hd ys) = Some n \<and> ?H (hd ys) = Some n' \<and> nxt n' = nxt n
               \<and> pre n' = (if xs = [] then l else Some (last xs))" if y: "ys \<noteq> []"
      proof -
        have lh: "\<not> (xs \<noteq> [] \<and> hd ys = last xs)" using lh0 [OF _ y] by metis
        from near [of "hd ys"] y lh lx show ?thesis by auto
      qed
    qed
    show "chain ?H None None (?lv ! e)" if e': "Suc e < length ?lv" for e
    proof (cases "e = d")
      case True
      have "chain V None None (xs @ x # ys)" using shape_chain [OF S, of d] e' True L by simp
      from unlink [OF this] show ?thesis using True nth_d by simp
    next
      case False
      have el: "e < length lv" "Suc e < length lv" using e' by simp_all
      have "chain ?H None None (lv ! e) = chain V None None (lv ! e)"
        by (rule chain_cong) (use links_far [OF el(1) False] in blast)
      then show ?thesis using shape_chain [OF S el(2)] False by (simp add: nth_o)
    qed
    show "leaf_level ?H (last ?lv)"
    proof (cases "Suc d = length lv")
      case True
      show ?thesis unfolding last_d(1) [OF True] leaf_level_def
      proof
        fix a assume a: "a \<in> set (xs @ ys)"
        then have al: "a \<in> set (last lv)" and a': "a \<in> set xs \<union> set ys"
          using last_d(2) [OF True] by auto
        from near [OF a'] obtain n n' where n: "V a = Some n" "?H a = Some n'" "is_leaf n' = is_leaf n"
          "records n' = records n" by blast
        from shape_leaf [OF S al] n(1) have "is_leaf n" "\<forall>r\<in>set (records n). snd r = None" by auto
        then show "\<exists>n. ?H a = Some n \<and> is_leaf n \<and> (\<forall>r\<in>set (records n). snd r = None)"
          using n(2,3,4) by (intro exI [of _ n']) simp
      qed
    next
      case False
      note O = last_o [OF False]
      have "leaf_level ?H (last lv) = leaf_level V (last lv)"
      proof (rule leaf_level_cong)
        show "\<forall>a\<in>set (last lv). map_option (\<lambda>n. (is_leaf n, records n)) (?H a)
                 = map_option (\<lambda>n. (is_leaf n, records n)) (V a)"
        proof
          fix a assume "a \<in> set (last lv)"
          then have a: "a \<in> set (lv ! (length lv - 1))" using lvne by (simp add: last_conv_nth)
          have "a \<noteq> p"
          proof
            assume "a = p"
            then have "\<exists>n. V a = Some n \<and> is_leaf n" using shape_leaf [OF S \<open>a \<in> set (last lv)\<close>] by blast
            with P(2,3) \<open>a = p\<close> show False by simp
          qed
          from far [OF O(3,2) a this]
          show "map_option (\<lambda>n. (is_leaf n, records n)) (?H a) = map_option (\<lambda>n. (is_leaf n, records n)) (V a)"
            by simp
        qed
      qed
      then show ?thesis using shapeD(7) [OF S] O(1) by simp
    qed
    show "chain ?H (Some m_header) (Some m_header) (last ?lv)"
    proof (cases "Suc d = length lv")
      case True
      have "chain V (Some m_header) (Some m_header) (xs @ x # ys)"
        using shapeD(8) [OF S] last_d(2) [OF True] by simp
      from unlink [OF this] show ?thesis using last_d(1) [OF True] by simp
    next
      case False
      note O = last_o [OF False]
      have "chain ?H (Some m_header) (Some m_header) (last lv) = chain V (Some m_header) (Some m_header) (last lv)"
      proof (rule chain_cong)
        show "\<forall>a\<in>set (last lv). map_option (\<lambda>n. (pre n, nxt n)) (?H a) = map_option (\<lambda>n. (pre n, nxt n)) (V a)"
        proof
          fix a assume "a \<in> set (last lv)"
          then have a: "a \<in> set (lv ! (length lv - 1))" using lvne by (simp add: last_conv_nth)
          from links_far [OF O(3,2) a]
          show "map_option (\<lambda>n. (pre n, nxt n)) (?H a) = map_option (\<lambda>n. (pre n, nxt n)) (V a)" .
        qed
      qed
      then show ?thesis using shapeD(8) [OF S] O(1) by simp
    qed
    show "\<exists>hn. ?H m_header = Some hn \<and> nxt hn = Some (hd (last ?lv)) \<and> pre hn = Some (last (last ?lv))"
    proof -
      from hh obtain hn where hn: "V m_header = Some hn"
        "h' m_header = Some (hn\<lparr>nxt := (if Suc d = length lv \<and> xs = [] then nxt nx else nxt hn),
                                 pre := (if Suc d = length lv \<and> ys = [] then pre nx else pre hn)\<rparr>)"
        by blast
      from shapeD(9) [OF S] hn have V9: "nxt hn = Some (hd (last lv))" "pre hn = Some (last (last lv))"
        by auto
      have Hh: "?H m_header = h' m_header" using ph by simp
      show ?thesis
      proof (cases "Suc d = length lv")
        case True
        have c: "chain V (Some m_header) (Some m_header) (xs @ x # ys)"
          using shapeD(8) [OF S] last_d(2) [OF True] by simp
        from chain_node [OF c] nx have lx: "pre nx = (if xs = [] then Some m_header else Some (last xs))"
          and rx: "nxt nx = (if ys = [] then Some m_header else Some (hd ys))" by auto
        have n1: "(if xs = [] then nxt nx else nxt hn) = Some (hd (xs @ ys))"
        proof (cases "xs = []")
          case True
          then have "ys \<noteq> []" using ne by simp
          then show ?thesis using True rx by simp
        next
          case False
          then show ?thesis using V9(1) last_d(2) [OF True] by simp
        qed
        have n2: "(if ys = [] then pre nx else pre hn) = Some (last (xs @ ys))"
        proof (cases "ys = []")
          case True
          then have "xs \<noteq> []" using ne by simp
          then show ?thesis using True lx by simp
        next
          case False
          then show ?thesis using V9(2) last_d(2) [OF True] by simp
        qed
        show ?thesis unfolding Hh hn(2) last_d(1) [OF True] using True n1 n2 by simp
      next
        case False
        then show ?thesis unfolding Hh hn(2) using V9 last_o(1) [OF False] by simp
      qed
    qed
    show "sorted_wrt (<) (level_keys ?H (?lv ! e))" if e': "e < length ?lv" for e
    proof -
      have el: "e < length lv" using e' by simp
      consider (at) "e = d" | (par) "e = ?e" | (other) "e \<noteq> d" "e \<noteq> ?e" by blast
      then show ?thesis
      proof cases
        case at
        have "keys_of V x = []" using ex by (simp add: keys_of_def)
        then have "level_keys ?H (xs @ ys) = level_keys V (xs @ x # ys)" using lkx lky by simp
        then show ?thesis using shape_sorted [OF S d] L at nth_d by simp
      next
        case par
        have "sorted_wrt (<) (level_keys V ps @ map fst (records np) @ level_keys V qs)"
          using shape_sorted [OF S e] P(1,2) by (simp add: keys_of_def recs_def)
        from sorted_wrt_remove_mid [OF this, of "length R1"]
        have "sorted_wrt (<) (level_keys V ps @ map fst (R1 @ R2) @ level_keys V qs)"
          using rec by simp
        then have "sorted_wrt (<) (level_keys ?H (ps @ p # qs))"
          using lkp lkq by (simp add: keys_of_def recs_def)
        moreover have "?lv ! e = ps @ p # qs" unfolding par using P(1) ed by (simp add: nth_o)
        ultimately show ?thesis by simp
      next
        case other
        have "\<forall>a\<in>set (lv ! e). recs ?H a = recs V a"
        proof
          fix a assume a: "a \<in> set (lv ! e)"
          have "a \<noteq> p" using pe [OF el other(2) a] .
          from far [OF el other(1) a this] show "recs ?H a = recs V a" by (simp add: recs_def)
        qed
        from level_keys_cong [OF this] shape_sorted [OF S el] other show ?thesis by (simp add: nth_o)
      qed
    qed
    show "recs ?H a \<noteq> []"
      if "e < length ?lv" "a \<in> set (?lv ! e)" "case ?ov' of None \<Rightarrow> True | Some (b, k) \<Rightarrow> a \<noteq> b" for e a
    proof -
      have el: "e < length lv" using that(1) by simp
      have ap: "a \<noteq> p" using that(3) by simp
      show ?thesis
      proof (cases "e = d")
        case True
        then have a: "a \<in> set xs \<union> set ys" using that(2) nth_d by simp
        then have "a \<noteq> x" using dL by auto
        from shape_nonempty_ov [OF S d at_d [OF a] this] near_recs [OF a] show ?thesis by simp
      next
        case False
        then have a: "a \<in> set (lv ! e)" using that(2) by (simp add: nth_o)
        have "a \<noteq> x" using not_d [OF el False a] by simp
        from shape_nonempty_ov [OF S el a this] far [OF el False a ap] show ?thesis by (simp add: recs_def)
      qed
    qed
  qed
  with P(4,2) pin rec find LK show ?thesis by blast
qed

section \<open>The loops of the merges\<close>

lemma set_insert_mid:
  fixes P :: "('k::linorder \<times> 'c) list"
  assumes "\<forall>x\<in>set P. fst x < fst z" and "\<forall>y\<in>set A. fst z < fst y"
  shows "set_insert (P @ A) z = P @ z # A"
proof (cases A)
  case Nil
  then show ?thesis using set_insert_append [OF assms(1)] by simp
next
  case (Cons y A')
  then have "fst z < fst y" using assms(2) by simp
  from set_insert_between [OF assms(1) this, of A' "snd z"] Cons show ?thesis by simp
qed

lemma fold_set_insert_forward:
  fixes P :: "('k::linorder \<times> 'c) list"
  assumes "sorted_wrt (<) (map fst (P @ ls @ A))"
  shows "fold (\<lambda>r acc. set_insert acc r) ls (P @ A) = P @ ls @ A"
  using assms
proof (induction ls arbitrary: P)
  case Nil
  then show ?case by simp
next
  case (Cons z ls)
  have 1: "\<forall>x\<in>set P. fst x < fst z" and 2: "\<forall>y\<in>set A. fst z < fst y"
    using Cons.prems by (auto simp: sorted_wrt_append)
  have "set_insert (P @ A) z = (P @ [z]) @ A" using set_insert_mid [OF 1 2] by simp
  moreover have "fold (\<lambda>r acc. set_insert acc r) ls ((P @ [z]) @ A) = (P @ [z]) @ ls @ A"
    by (rule Cons.IH) (use Cons.prems in simp)
  ultimately show ?case by simp
qed

lemma fold_set_insert_backward:
  fixes A :: "('k::linorder \<times> 'c) list"
  assumes "sorted_wrt (<) (map fst (ls @ A))"
  shows "fold (\<lambda>r acc. set_insert acc r) (rev ls) A = ls @ A"
  using assms
proof (induction ls arbitrary: A rule: rev_induct)
  case Nil
  then show ?case by simp
next
  case (snoc z ls)
  have 2: "\<forall>y\<in>set A. fst z < fst y" using snoc.prems by (auto simp: sorted_wrt_append)
  have "set_insert ([] @ A) z = [] @ z # A" by (rule set_insert_mid) (use 2 in simp_all)
  then have "set_insert A z = z # A" by simp
  moreover have "fold (\<lambda>r acc. set_insert acc r) (rev ls) (z # A) = ls @ z # A"
    by (rule snoc.IH) (use snoc.prems in simp)
  ultimately show ?case by simp
qed

text \<open>
  \<open>adopt\<close>: the records go into the target; the children they point to get the
  target as parent.
\<close>

lemma adopt_spec:
  fixes h :: "'k::linorder heap"
  assumes t: "h target = Some nt"
    and kids: "\<forall>r\<in>set rs. \<forall>c. snd r = Some c \<longrightarrow> h c \<noteq> None \<and> c \<noteq> target"
  shows "\<exists>h'. adopt target rs h = Some h'
           \<and> h' target = Some (nt\<lparr>records := fold (\<lambda>r acc. set_insert acc r) rs (records nt)\<rparr>)
           \<and> (\<forall>z. z \<noteq> target \<longrightarrow>
                 h' z = (if Some z \<in> snd ` set rs then map_option (\<lambda>y. y\<lparr>parent := Some target\<rparr>) (h z)
                         else h z))"
  using assms
proof (induction rs arbitrary: h nt)
  case Nil
  then show ?case by simp
next
  case (Cons r rs)
  define h1 where "h1 = (case snd r of None \<Rightarrow> h | Some c \<Rightarrow> h(c \<mapsto> (the (h c))\<lparr>parent := Some target\<rparr>))"
  have s1: "(case snd r of None \<Rightarrow> Some h
             | Some c \<Rightarrow> update_node c (\<lambda>x. x\<lparr>parent := Some target\<rparr>) h) = Some h1"
  proof (cases "snd r")
    case None
    then show ?thesis by (simp add: h1_def)
  next
    case (Some c)
    then have "h c \<noteq> None" using Cons.prems(2) by simp
    then show ?thesis using Some by (auto simp: h1_def update_node_def)
  qed
  have h1t: "h1 target = Some nt"
  proof (cases "snd r")
    case None
    then show ?thesis using Cons.prems(1) by (simp add: h1_def)
  next
    case (Some c)
    then have "c \<noteq> target" using Cons.prems(2) by simp
    then show ?thesis using Some Cons.prems(1) by (simp add: h1_def)
  qed
  have h1o: "h1 z = (if snd r = Some z then map_option (\<lambda>y. y\<lparr>parent := Some target\<rparr>) (h z) else h z)" for z
  proof (cases "snd r")
    case None
    then show ?thesis by (simp add: h1_def)
  next
    case (Some c)
    then have "h c \<noteq> None" using Cons.prems(2) by simp
    then show ?thesis using Some by (auto simp: h1_def)
  qed
  let ?nt' = "nt\<lparr>records := set_insert (records nt) r\<rparr>"
  let ?h2 = "h1(target \<mapsto> ?nt')"
  have s2: "update_node target (\<lambda>x. x\<lparr>records := set_insert (records x) r\<rparr>) h1 = Some ?h2"
    using h1t by (simp add: update_node_def)
  have k2: "\<forall>r'\<in>set rs. \<forall>c. snd r' = Some c \<longrightarrow> ?h2 c \<noteq> None \<and> c \<noteq> target"
  proof (intro ballI allI impI)
    fix r' c assume r': "r' \<in> set rs" and c: "snd r' = Some c"
    then have 1: "h c \<noteq> None" "c \<noteq> target" using Cons.prems(2) by auto
    then have "h1 c \<noteq> None" using h1o [of c] by auto
    with 1 show "?h2 c \<noteq> None \<and> c \<noteq> target" by simp
  qed
  have t2: "?h2 target = Some ?nt'" by simp
  from Cons.IH [OF t2 k2] obtain h' where
    h': "adopt target rs ?h2 = Some h'"
        "h' target = Some (?nt'\<lparr>records := fold (\<lambda>r acc. set_insert acc r) rs (records ?nt')\<rparr>)"
        "\<forall>z. z \<noteq> target \<longrightarrow>
             h' z = (if Some z \<in> snd ` set rs then map_option (\<lambda>y. y\<lparr>parent := Some target\<rparr>) (?h2 z)
                     else ?h2 z)"
    by blast
  have run: "adopt target (r # rs) h = Some h'" using s1 s2 h'(1) by simp
  have tg: "h' target = Some (nt\<lparr>records := fold (\<lambda>r acc. set_insert acc r) (r # rs) (records nt)\<rparr>)"
    using h'(2) by simp
  have oth: "h' z = (if Some z \<in> snd ` set (r # rs) then map_option (\<lambda>y. y\<lparr>parent := Some target\<rparr>) (h z)
                     else h z)" if z: "z \<noteq> target" for z
  proof -
    have 1: "h' z = (if Some z \<in> snd ` set rs then map_option (\<lambda>y. y\<lparr>parent := Some target\<rparr>) (h1 z)
                     else h1 z)" using h'(3) z by simp
    show ?thesis
    proof (cases "snd r = Some z")
      case True
      then have "Some z \<in> snd ` set (r # rs)" by force
      moreover have "h1 z = map_option (\<lambda>y. y\<lparr>parent := Some target\<rparr>) (h z)" using h1o [of z] True by simp
      ultimately show ?thesis using 1 by (cases "h z") auto
    next
      case False
      then have "Some z \<in> snd ` set (r # rs) \<longleftrightarrow> Some z \<in> snd ` set rs" by auto
      moreover have "h1 z = h z" using h1o [of z] False by simp
      ultimately show ?thesis using 1 by simp
    qed
  qed
  from run tg oth show ?case by blast
qed

section \<open>The rounds that take a node out\<close>

lemma set_child_keys: "map fst (set_child rs j c) = map fst rs"
proof (cases "j < length rs")
  case True
  then have "(map fst rs)[j := fst (rs ! j)] = map fst rs" by (simp add: list_update_same_conv)
  then show ?thesis by (simp add: set_child_def map_update)
next
  case False
  then have "rs[j := (fst (rs ! j), c)] = rs" by (simp add: list_update_beyond)
  then show ?thesis by (simp add: set_child_def)
qed

lemma set_child_without: "take j (set_child rs j c) @ drop (Suc j) (set_child rs j c) = take j rs @ drop (Suc j) rs"
  by (simp add: set_child_def)

lemma set_child_last: "rs \<noteq> [] \<Longrightarrow> fst (last (set_child rs j c)) = fst (last rs)"
proof -
  assume ne: "rs \<noteq> []"
  have "map fst (set_child rs j c) = map fst rs" by (rule set_child_keys)
  moreover have "set_child rs j c \<noteq> []" using ne by (simp add: set_child_def)
  ultimately show ?thesis using ne by (metis last_map)
qed

lemma merge_right_run:
  fixes h :: "'k::linorder heap"
  assumes n: "h a = Some n" and i: "i < length (records n)" and nx: "nxt n = Some b"
    and pa: "parent n = Some p"
    and Gp: "(h(a \<mapsto> n\<lparr>records := take i (records n) @ drop (Suc i) (records n)\<rparr>)) p = Some np"
    and ad: "adopt b (take i (records n) @ drop (Suc i) (records n))
               (h(a \<mapsto> n\<lparr>records := take i (records n) @ drop (Suc i) (records n)\<rparr>)) = Some A1"
    and A1a: "A1 a = Some (n\<lparr>records := take i (records n) @ drop (Suc i) (records n)\<rparr>)"
    and q: "(case pre n of None \<Rightarrow> Some (A1(a \<mapsto> n\<lparr>records := []\<rparr>))
             | Some q \<Rightarrow> update_node q (\<lambda>x. x\<lparr>nxt := Some b\<rparr>) (A1(a \<mapsto> n\<lparr>records := []\<rparr>))) = Some A3"
    and A3a: "A3 a = Some (n\<lparr>records := []\<rparr>)" and A3b: "A3 b = Some nb'"
    and A5p: "A3 p = Some np" and pab: "p \<noteq> a" "p \<noteq> b"
    and jlt: "set_find (records np) (fst (last (records n))) < length (records np)"
  shows "erase_merge_right a i h
           = Some (True, p, set_find (records np) (fst (last (records n))),
                   ((A3(b \<mapsto> nb'\<lparr>pre := pre n\<rparr>))(a := None))
                     (p \<mapsto> np\<lparr>records := set_child (records np) (set_find (records np) (fst (last (records n)))) None\<rparr>))"
proof -
  let ?rs = "records n"
  have ne: "?rs \<noteq> []" using i by auto
  have lst: "?rs ! (length ?rs - Suc 0) = last ?rs" using ne by (simp add: last_conv_nth)
  have s1: "update_node a (\<lambda>x. x\<lparr>records := []\<rparr>) A1 = Some (A1(a \<mapsto> n\<lparr>records := []\<rparr>))"
    using A1a by (simp add: update_node_def)
  have A2a: "(A1(a \<mapsto> n\<lparr>records := []\<rparr>)) a = Some (n\<lparr>records := []\<rparr>)" by simp
  have s2: "update_node b (\<lambda>x. x\<lparr>pre := pre n\<rparr>) A3 = Some (A3(b \<mapsto> nb'\<lparr>pre := pre n\<rparr>))"
    using A3b by (simp add: update_node_def)
  have A5: "((A3(b \<mapsto> nb'\<lparr>pre := pre n\<rparr>))(a := None)) p = Some np" using A5p pab by simp
  show ?thesis
    unfolding erase_merge_right_def
    using n i nx pa ne jlt
    by (simp add: set_at_def set_erase_def set_last_def Let_def lst Gp ad s1 A2a q A3a s2 A5
          del: fun_upd_apply)
qed

text \<open>\<^verbatim>\<open>MERGE_RIGHT\<close>: the records of the node go to its right sibling; the node is freed.\<close>

lemma merge_right_round:
  fixes h :: "'k::linorder heap"
  assumes n: "h a = Some n" and i: "i < length (records n)"
    and S: "shape (h(a \<mapsto> n\<lparr>records := take i (records n) @ drop (Suc i) (records n)\<rparr>)) lv
              (Some (a, fst (last (records n))))"
    and d: "d < length lv" and d0: "0 < d" and L: "lv ! d = xs @ a # ys"
    and nx: "nxt n = Some b" and bh: "b \<noteq> m_header" and nb: "h b = Some nb"
  shows "\<exists>p j h' np. erase_merge_right a i h = Some (True, p, j, h')
           \<and> p \<in> set (lv ! (d - 1)) \<and> h' p = Some np \<and> j < length (records np)
           \<and> shape (h'(p \<mapsto> np\<lparr>records := take j (records np) @ drop (Suc j) (records np)\<rparr>))
                 (lv[d := xs @ ys]) (Some (p, fst (last (records np))))
           \<and> level_keys (h'(p \<mapsto> np\<lparr>records := take j (records np) @ drop (Suc j) (records np)\<rparr>))
                 (last (lv[d := xs @ ys]))
               = level_keys (h(a \<mapsto> n\<lparr>records := take i (records n) @ drop (Suc i) (records n)\<rparr>)) (last lv)
           \<and> (\<forall>z. z \<noteq> a \<longrightarrow> length (recs h' z)
                  = (if z = b then length (records n) - 1 + length (records nb) else length (recs h z)))"
proof -
  let ?rs = "records n"
  let ?rs' = "take i ?rs @ drop (Suc i) ?rs"
  let ?n' = "n\<lparr>records := ?rs'\<rparr>"
  let ?G = "h(a \<mapsto> ?n')"
  let ?k = "fst (last ?rs)"
  let ?ov = "Some (a, ?k)"
  let ?\<rho> = "rep_key ?G ?ov"
  let ?e = "if Suc d = length lv then Some m_header else None"
  note R = round_setup [OF S d L]
  have Ga: "?G a = Some ?n'" by simp
  have ain: "a \<in> set (lv ! d)" using L by simp
  have dist: "distinct (concat lv)" using R(5) .
  from R(7) Ga nx bh have ys: "ys \<noteq> []" and hb: "hd ys = b" by (auto split: if_splits)
  then obtain ys' where ys': "ys = b # ys'" by (cases ys) auto
  have bin: "b \<in> set (lv ! d)" using L ys' by simp
  have ab: "a \<noteq> b" using R(6) ys' by auto
  have Gb: "?G b = Some nb" using nb ab by simp
  from R(8) [of b] ys' Gb have nbne: "records nb \<noteq> []" by simp
  from R(7) Ga have pre_n: "pre n = (if xs = [] then ?e else Some (last xs))" by simp
  have len': "length ?rs' = length ?rs - 1" using i by simp
  \<comment> \<open>the parent\<close>
  have Se: "Suc (d - 1) = d" using d0 by simp
  have Sel: "Suc (d - 1) < length lv" using d Se by simp
  have e: "d - 1 < length lv" using d by simp
  have ed: "d - 1 \<noteq> d" using d0 by simp
  have L1: "lv ! Suc (d - 1) = xs @ a # ys" using L Se by simp
  from shape_parent [OF S Sel L1 Ga] obtain p np ps qs R1 R2 where
    P0: "lv ! (d - 1) = ps @ p # qs" "?G p = Some np" "parent ?n' = Some p"
       "records np = R1 @ (?\<rho> a, Some a) # R2"
    by blast
  have P: "lv ! (d - 1) = ps @ p # qs" "?G p = Some np" "parent n = Some p"
       "records np = R1 @ (?\<rho> a, Some a) # R2"
    using P0 by simp_all
  have rec: "records np = R1 @ (?k, Some a) # R2" using P(4) R(3) by simp
  have pin: "p \<in> set (lv ! (d - 1))" using P(1) by simp
  have p_lvl: "z \<noteq> p" if "z \<in> set (lv ! d)" for z
    using levels_disjoint [OF dist e d ed pin] that by auto
  have pa': "p \<noteq> a" "p \<noteq> b" using p_lvl ain bin by auto
  have ph: "p \<noteq> m_header" using shape_header_notin [OF S e pin] .
  have sortp: "sorted_wrt (<) (map fst (records np))"
    using sorted_node_of_level [OF shape_sorted [OF S e] pin] P(2) by (simp add: recs_def)
  have find: "set_find (records np) ?k = length R1"
    using set_find_at [of R1 ?k "Some a" R2] sortp rec by simp
  have jlt: "set_find (records np) ?k < length (records np)" using find rec by simp
  \<comment> \<open>the children of the node\<close>
  have kid: "Suc d < length lv \<and> c \<in> set (lv ! Suc d) \<and> (\<exists>nc. ?G c = Some nc \<and> parent nc = Some z)"
    if "Some c \<in> snd ` set (recs ?G z)" "z \<in> set (lv ! d)" for c z
  proof -
    from that(1) obtain k' where "(k', Some c) \<in> set (recs ?G z)" by force
    from kids_at_level [OF S d that(2) this] show ?thesis by blast
  qed
  have kid_far: "c \<notin> set (lv ! e')" if "Some c \<in> snd ` set (recs ?G z)" "z \<in> set (lv ! d)" "e' \<le> d" for c z e'
  proof -
    from kid [OF that(1,2)] have K: "Suc d < length lv" "c \<in> set (lv ! Suc d)" by auto
    have "e' < length lv" "Suc d \<noteq> e'" using that(3) d by auto
    from levels_disjoint [OF dist K(1) this K(2)] show ?thesis .
  qed
  have kid_h: "c \<noteq> m_header" if "Some c \<in> snd ` set (recs ?G z)" "z \<in> set (lv ! d)" for c z
    using kid [OF that] shape_header_notin [OF S] by blast
  have ra: "recs ?G a = ?rs'" by (simp add: recs_def)
  have ka: "\<forall>r\<in>set ?rs'. \<forall>c. snd r = Some c \<longrightarrow> ?G c \<noteq> None \<and> c \<noteq> b"
  proof (intro ballI allI impI)
    fix r c assume r: "r \<in> set ?rs'" and c: "snd r = Some c"
    have 1: "Some c \<in> snd ` set (recs ?G a)" unfolding ra using r c by force
    from kid [OF 1 ain] have "?G c \<noteq> None" by auto
    moreover have "c \<noteq> b" using kid_far [OF 1 ain order_refl] bin by auto
    ultimately show "?G c \<noteq> None \<and> c \<noteq> b" by simp
  qed
  from adopt_spec [OF Gb ka] obtain A1 where
    A1: "adopt b ?rs' ?G = Some A1"
        "A1 b = Some (nb\<lparr>records := fold (\<lambda>r acc. set_insert acc r) ?rs' (records nb)\<rparr>)"
        "\<forall>z. z \<noteq> b \<longrightarrow> A1 z = (if Some z \<in> snd ` set ?rs'
                                then map_option (\<lambda>y. y\<lparr>parent := Some b\<rparr>) (?G z) else ?G z)"
    by blast
  have sl: "sorted_wrt (<) (level_keys ?G (xs @ a # b # ys'))" using R(9) ys' by simp
  have kab: "keys_of ?G a @ keys_of ?G b = map fst ([] @ ?rs' @ records nb)"
    using Gb by (simp add: keys_of_def recs_def)
  have "sorted_wrt (<) (level_keys ?G xs @ (keys_of ?G a @ keys_of ?G b) @ level_keys ?G ys')"
    using sl by simp
  then have "sorted_wrt (<) (keys_of ?G a @ keys_of ?G b)"
    unfolding sorted_wrt_append [of _ "level_keys ?G xs"] sorted_wrt_append [of _ "keys_of ?G a @ keys_of ?G b"]
    by blast
  then have "sorted_wrt (<) (map fst ([] @ ?rs' @ records nb))" unfolding kab .
  from fold_set_insert_forward [OF this]
  have fold: "fold (\<lambda>r acc. set_insert acc r) ?rs' (records nb) = ?rs' @ records nb" by simp
  have A1b: "A1 b = Some (nb\<lparr>records := ?rs' @ records nb\<rparr>)" using A1(2) fold by simp
  have nk: "Some z \<notin> snd ` set ?rs'" if "z \<in> set (lv ! e')" "e' \<le> d" for z e'
  proof
    assume "Some z \<in> snd ` set ?rs'"
    then have "Some z \<in> snd ` set (recs ?G a)" unfolding ra .
    from kid_far [OF this ain that(2)] that(1) show False by simp
  qed
  have nkh: "Some m_header \<notin> snd ` set ?rs'"
  proof
    assume "Some m_header \<in> snd ` set ?rs'"
    then have "Some m_header \<in> snd ` set (recs ?G a)" unfolding ra .
    from kid_h [OF this ain] show False by simp
  qed
  have A1_same: "A1 z = ?G z" if "z \<in> set (lv ! e')" "e' \<le> d" "z \<noteq> b" for z e'
    using A1(3) nk [OF that(1,2)] that(3) by simp
  have A1h: "A1 m_header = ?G m_header" using A1(3) nkh bh by simp
  have A1a: "A1 a = Some ?n'" using A1_same [OF ain order_refl ab] by simp
  let ?A2 = "A1(a \<mapsto> n\<lparr>records := []\<rparr>)"
  \<comment> \<open>the heap with the records moved\<close>
  have V_lvl: "map_option (\<lambda>n. (is_leaf n, pre n, nxt n)) (?A2 z) = map_option (\<lambda>n. (is_leaf n, pre n, nxt n)) (?G z)"
    if "z \<in> set (lv ! d)" for z
  proof -
    consider "z = a" | "z = b" | "z \<noteq> a" "z \<noteq> b" by blast
    then show ?thesis
    proof cases
      case 1
      then show ?thesis by simp
    next
      case 2
      then show ?thesis using A1b Gb ab by simp
    next
      case 3
      then show ?thesis using A1_same [OF that order_refl] by simp
    qed
  qed
  have V_recs: "level_recs ?A2 (lv ! d) = level_recs ?G (lv ! d)"
  proof -
    have dl: "distinct (xs @ a # b # ys')" using R(6) ys' by simp
    have "\<forall>z\<in>set xs. recs ?A2 z = recs ?G z"
    proof
      fix z assume z: "z \<in> set xs"
      then have "z \<in> set (lv ! d)" "z \<noteq> a" "z \<noteq> b" using L dl by auto
      then show "recs ?A2 z = recs ?G z" using A1_same [of z d] by (simp add: recs_def)
    qed
    from level_recs_cong [OF this] have X: "level_recs ?A2 xs = level_recs ?G xs" .
    have "\<forall>z\<in>set ys'. recs ?A2 z = recs ?G z"
    proof
      fix z assume z: "z \<in> set ys'"
      then have "z \<in> set (lv ! d)" "z \<noteq> a" "z \<noteq> b" using L ys' dl by auto
      then show "recs ?A2 z = recs ?G z" using A1_same [of z d] by (simp add: recs_def)
    qed
    from level_recs_cong [OF this] have Y: "level_recs ?A2 ys' = level_recs ?G ys'" .
    have "recs ?A2 a = []" by (simp add: recs_def)
    moreover have "recs ?A2 b = ?rs' @ records nb" using A1b ab by (simp add: recs_def)
    moreover have "recs ?G b = records nb" using Gb by (simp add: recs_def)
    ultimately show ?thesis unfolding L ys' using X Y ra by simp
  qed
  have V_deep: "map_option (\<lambda>n. (is_leaf n, records n, pre n, nxt n)) (?A2 c)
                  = map_option (\<lambda>n. (is_leaf n, records n, pre n, nxt n)) (?G c)"
    if "d < e'" "e' < length lv" "c \<in> set (lv ! e')" for c e'
  proof -
    have "e' \<noteq> d" using that(1) by simp
    from levels_disjoint [OF dist that(2) d this that(3)] have "c \<noteq> a" "c \<noteq> b" using ain bin by auto
    then show ?thesis using A1(3) by (cases "?G c") auto
  qed
  have V_deeper: "?A2 c = ?G c" if "Suc d < e'" "e' < length lv" "c \<in> set (lv ! e')" for c e'
  proof -
    have ne: "e' \<noteq> d" "e' \<noteq> Suc d" using that(1) by simp_all
    from levels_disjoint [OF dist that(2) d ne(1) that(3)] have c: "c \<noteq> a" "c \<noteq> b" using ain bin by auto
    have "Some c \<notin> snd ` set ?rs'"
    proof
      assume "Some c \<in> snd ` set ?rs'"
      then have "Some c \<in> snd ` set (recs ?G a)" unfolding ra .
      from kid [OF this ain] have "Suc d < length lv" "c \<in> set (lv ! Suc d)" by auto
      from levels_disjoint [OF dist this(1) that(2) _ this(2)] ne(2) that(3) show False by auto
    qed
    then show ?thesis using A1(3) c by simp
  qed
  have W: "lower ?A2 lv d ?ov"
  proof (rule lower_swap [OF R(2) d _ _ V_lvl V_recs _ _ V_deeper])
    note ov = ov_at_level [OF dist d ain, where k = ?k]
    show "\<And>e c. d < e \<Longrightarrow> e < length lv \<Longrightarrow> c \<in> set (lv ! e)
               \<Longrightarrow> (case ?ov of None \<Rightarrow> True | Some (b, k) \<Rightarrow> c \<noteq> b)" using ov(2) .
    show "\<And>e c. d < e \<Longrightarrow> e < length lv \<Longrightarrow> c \<in> set (lv ! e)
               \<Longrightarrow> (case ?ov of None \<Rightarrow> True | Some (b, k) \<Rightarrow> c \<noteq> b)" using ov(2) .
    show "\<exists>nc. ?A2 c = Some nc \<and> parent nc = Some z"
      if Sd: "Suc d < length lv" and z: "z \<in> set (lv ! d)" and c: "Some c \<in> snd ` set (recs ?A2 z)" for z c
    proof -
      have il: "internal_level ?G ?ov (lv ! d) (lv ! Suc d)" using shape_internal [OF S Sd] .
      have dk: "distinct (map snd (level_recs ?G (lv ! d)))"
        using level_kids_distinct [OF il level_distinct [OF dist Sd]] .
      consider "z = a" | "z = b" | "z \<noteq> a" "z \<noteq> b" by blast
      then show ?thesis
      proof cases
        case 1
        then show ?thesis using c by (simp add: recs_def)
      next
        case 2
        have rb: "recs ?A2 b = ?rs' @ records nb" using A1b ab by (simp add: recs_def)
        from c 2 rb have "Some c \<in> snd ` set ?rs' \<or> Some c \<in> snd ` set (records nb)" by auto
        then show ?thesis
        proof
          assume c1: "Some c \<in> snd ` set ?rs'"
          then have c2: "Some c \<in> snd ` set (recs ?G a)" unfolding ra .
          from kid [OF c2 ain] obtain nc where nc: "?G c = Some nc" by blast
          have cab: "c \<noteq> a" "c \<noteq> b" using kid_far [OF c2 ain order_refl] ain bin by auto
          have "A1 c = Some (nc\<lparr>parent := Some b\<rparr>)" using A1(3) c1 cab(2) nc by simp
          then show ?thesis using cab 2 by simp
        next
          assume c1: "Some c \<in> snd ` set (records nb)"
          then have c2: "Some c \<in> snd ` set (recs ?G b)" using Gb by (simp add: recs_def)
          from internal_level_parent [OF il bin c2] obtain nc where nc: "?G c = Some nc" "parent nc = Some b"
            by blast
          have cab: "c \<noteq> a" "c \<noteq> b" using kid_far [OF c2 bin order_refl] ain bin by auto
          have "Some c \<notin> snd ` set ?rs'"
          proof
            assume "Some c \<in> snd ` set ?rs'"
            then have "Some c \<in> snd ` set (recs ?G a)" unfolding ra .
            from internal_level_parent [OF il ain this] nc ab show False by simp
          qed
          then have "A1 c = ?G c" using A1(3) cab(2) by simp
          then show ?thesis using nc cab 2 by simp
        qed
      next
        case 3
        have same: "?A2 z = ?G z" using A1_same [OF z order_refl 3(2)] 3(1) by simp
        then have c2: "Some c \<in> snd ` set (recs ?G z)" using c by (simp add: recs_def)
        from internal_level_parent [OF il z c2] obtain nc where nc: "?G c = Some nc" "parent nc = Some z"
          by blast
        have cab: "c \<noteq> a" "c \<noteq> b" using kid_far [OF c2 z order_refl] ain bin by auto
        have "Some c \<notin> snd ` set ?rs'"
        proof
          assume c1: "Some c \<in> snd ` set ?rs'"
          then have "Some c \<in> snd ` set (recs ?G a)" unfolding ra .
          from internal_level_parent [OF il ain this] nc 3(1) show False by simp
        qed
        then have "A1 c = ?G c" using A1(3) cab(2) by simp
        then show ?thesis using nc cab by simp
      qed
    qed
    show "map_option (\<lambda>n. (is_leaf n, records n, pre n, nxt n)) (?A2 c)
            = map_option (\<lambda>n. (is_leaf n, records n, pre n, nxt n)) (?G c)"
      if "Suc d < length lv" "c \<in> set (lv ! Suc d)" for c
      using V_deep [of "Suc d" c] that by simp
    show "?A2 m_header = ?G m_header" using A1h R(11) by simp
    show "recs ?A2 z \<noteq> []" if z: "z \<in> set (lv ! d)" "case ?ov of None \<Rightarrow> True | Some (b, k) \<Rightarrow> z \<noteq> b" for z
    proof (cases "z = b")
      case True
      then show ?thesis using A1b ab nbne by (simp add: recs_def)
    next
      case False
      have za: "z \<noteq> a" using z(2) by simp
      have "?A2 z = ?G z" using A1_same [OF z(1) order_refl False] za by simp
      then show ?thesis using shape_nonempty_ov [OF S d z(1) za] by (simp add: recs_def)
    qed
  qed
  have U: "upper ?A2 lv d ?\<rho>"
  proof (rule upper_cong [OF R(1)])
    fix e' y assume e': "e' < d" and y: "y \<in> set (lv ! e')"
    have "e' < length lv" "e' \<noteq> d" using e' d by simp_all
    from levels_disjoint [OF dist this(1) d this(2) y] have "y \<noteq> a" "y \<noteq> b" using ain bin by auto
    then show "?A2 y = ?G y" using A1_same [OF y] e' by simp
  next
    fix y assume y: "y \<in> set (lv ! d)"
    from V_lvl [OF y] have "map_option is_leaf (?A2 y) = map_option is_leaf (?G y)"
      by (cases "?A2 y"; cases "?G y") auto
    show "map_option parent (?A2 y) = map_option parent (?G y)"
    proof -
      consider "y = a" | "y = b" | "y \<noteq> a" "y \<noteq> b" by blast
      then show ?thesis
      proof cases
        case 1
        then show ?thesis by simp
      next
        case 2
        then show ?thesis using A1b Gb ab by simp
      next
        case 3
        then show ?thesis using A1_same [OF y order_refl] by simp
      qed
    qed
  qed simp
  have SV: "shape ?A2 lv ?ov"
  proof (rule shape_glue [OF U W])
    fix c assume c: "c \<in> set (lv ! d)"
    show "?\<rho> c = rep_key ?A2 ?ov c"
    proof (cases "c = a")
      case True
      then show ?thesis by (simp add: rep_key_def)
    next
      case False
      have "last_key ?A2 c = last_key ?G c"
      proof (cases "c = b")
        case True
        then show ?thesis using A1b Gb ab nbne by (simp add: last_key_def recs_def)
      next
        case False
        then show ?thesis using A1_same [OF c order_refl] \<open>c \<noteq> a\<close> by (simp add: last_key_def recs_def)
      qed
      then show ?thesis using False by (simp add: rep_key_def)
    qed
  next
    show "case ?ov of None \<Rightarrow> True | Some (b, k) \<Rightarrow> \<forall>e<d. b \<notin> set (lv ! e)"
      using ov_at_level(1) [OF dist d ain, where k = ?k] .
  qed
  \<comment> \<open>the links\<close>
  let ?nx = "n\<lparr>records := []\<rparr>"
  have A2a: "?A2 a = Some ?nx" by simp
  have A2b: "?A2 b = Some (nb\<lparr>records := ?rs' @ records nb\<rparr>)" using A1b ab by simp
  have A2p: "?A2 p = Some np" using A1_same [OF pin _ pa'(2)] pa'(1) P(2) by simp
  from shapeD(9) [OF S] obtain hn where hn: "?G m_header = Some hn" by blast
  have A2h: "?A2 m_header = Some hn" using A1h hn R(11) by simp
  have lxs: "last xs \<in> set (lv ! d) \<and> last xs \<noteq> a \<and> last xs \<noteq> b \<and> last xs \<noteq> p \<and> last xs \<noteq> m_header"
    if "xs \<noteq> []"
  proof -
    have "last xs \<in> set xs" using that by simp
    then have 1: "last xs \<in> set (lv ! d)" "last xs \<noteq> a" "last xs \<noteq> b" using L R(6) ys' by auto
    with p_lvl shape_header_notin [OF S d] show ?thesis by auto
  qed
  define A3 where "A3 = (case pre n of None \<Rightarrow> ?A2 | Some q \<Rightarrow> ?A2(q \<mapsto> (the (?A2 q))\<lparr>nxt := Some b\<rparr>))"
  have q_alloc: "?A2 q \<noteq> None \<and> q \<noteq> a \<and> q \<noteq> b \<and> q \<noteq> p" if "pre n = Some q" for q
  proof (cases "xs = []")
    case True
    then have "q = m_header" using pre_n that by (auto split: if_splits)
    then show ?thesis using A2h R(11) bh ph by simp
  next
    case False
    then have "q = last xs" using pre_n that by simp
    moreover from lxs [OF False] have "?A2 (last xs) = ?G (last xs)"
      using A1_same [of "last xs" d] by simp
    ultimately show ?thesis using lxs [OF False] shape_allocated [OF S d, of "last xs"] by simp
  qed
  have q: "(case pre n of None \<Rightarrow> Some ?A2
            | Some q \<Rightarrow> update_node q (\<lambda>x. x\<lparr>nxt := Some b\<rparr>) ?A2) = Some A3"
  proof (cases "pre n")
    case None
    then show ?thesis by (simp add: A3_def)
  next
    case (Some q)
    from q_alloc [OF Some] obtain nq where "?A2 q = Some nq" by auto
    then show ?thesis using Some unfolding A3_def update_node_def by simp
  qed
  have A3_o: "A3 z = ?A2 z" if "pre n \<noteq> Some z" for z
    using that unfolding A3_def by (cases "pre n") auto
  have A3_q: "A3 z = map_option (\<lambda>x. x\<lparr>nxt := Some b\<rparr>) (?A2 z)" if "pre n = Some z" for z
    using that q_alloc [OF that] unfolding A3_def by auto
  have pna: "pre n \<noteq> Some a" "pre n \<noteq> Some b" "pre n \<noteq> Some p" using q_alloc by blast+
  have A3a: "A3 a = Some ?nx" using A3_o [OF pna(1)] by simp
  have A3b: "A3 b = Some (nb\<lparr>records := ?rs' @ records nb\<rparr>)" using A3_o [OF pna(2)] A2b by simp
  have A3p: "A3 p = Some np" using A3_o [OF pna(3)] A2p by simp
  let ?j = "set_find (records np) ?k"
  let ?nb' = "nb\<lparr>records := ?rs' @ records nb\<rparr>"
  let ?h' = "((A3(b \<mapsto> ?nb'\<lparr>pre := pre n\<rparr>))(a := None))(p \<mapsto> np\<lparr>records := set_child (records np) ?j None\<rparr>)"
  have run: "erase_merge_right a i h = Some (True, p, ?j, ?h')"
    by (rule merge_right_run [OF n i nx P(3,2) A1(1) A1a q A3a A3b A3p pa' jlt])
  \<comment> \<open>the node leaves its level\<close>
  have exa: "recs ?A2 a = []" by (simp add: recs_def)
  have ne: "xs @ ys \<noteq> []" using ys by simp
  have hl: "\<exists>m. ?A2 (last xs) = Some m \<and> ?h' (last xs) = Some (m\<lparr>nxt := nxt ?nx\<rparr>)" if x: "xs \<noteq> []"
  proof -
    have pq: "pre n = Some (last xs)" using pre_n x by simp
    from q_alloc [OF pq] obtain m where m: "?A2 (last xs) = Some m" by auto
    have "A3 (last xs) = Some (m\<lparr>nxt := Some b\<rparr>)" using A3_q [OF pq] m by simp
    then have "?h' (last xs) = Some (m\<lparr>nxt := Some b\<rparr>)" using lxs [OF x] by simp
    with m nx show ?thesis by simp
  qed
  have hr: "\<exists>m. ?A2 (hd ys) = Some m \<and> ?h' (hd ys) = Some (m\<lparr>pre := pre ?nx\<rparr>)" if "ys \<noteq> []"
    using hb A2b ab pa' by simp
  have hh: "\<exists>hn. ?A2 m_header = Some hn
              \<and> ?h' m_header = Some (hn\<lparr>nxt := (if Suc d = length lv \<and> xs = [] then nxt ?nx else nxt hn),
                                        pre := (if Suc d = length lv \<and> ys = [] then pre ?nx else pre hn)\<rparr>)"
  proof (cases "Suc d = length lv \<and> xs = []")
    case True
    then have pq: "pre n = Some m_header" using pre_n by simp
    have "A3 m_header = Some (hn\<lparr>nxt := Some b\<rparr>)" using A3_q [OF pq] A2h by simp
    then have "?h' m_header = Some (hn\<lparr>nxt := Some b\<rparr>)" using bh R(11) ph by simp
    then show ?thesis using A2h True ys nx by simp
  next
    case False
    have "pre n \<noteq> Some m_header"
    proof (cases "xs = []")
      case True
      then show ?thesis using pre_n False by simp
    next
      case F: False
      then show ?thesis using pre_n lxs [OF F] by auto
    qed
    from A3_o [OF this] have "A3 m_header = Some hn" using A2h by simp
    then have "?h' m_header = Some hn" using bh R(11) ph by simp
    then show ?thesis using A2h False ys by auto
  qed
  have ho: "?h' z = ?A2 z"
    if "z \<noteq> a" "z \<noteq> m_header" "parent ?nx \<noteq> Some z" "xs = [] \<or> z \<noteq> last xs" "ys = [] \<or> z \<noteq> hd ys" for z
  proof -
    have zp: "z \<noteq> p" using that(3) P(3) by simp
    have zb: "z \<noteq> b" using that(5) ys hb by simp
    have "pre n \<noteq> Some z" using pre_n that(2,4) by (auto split: if_splits)
    from A3_o [OF this] show ?thesis using zp zb that(1) by simp
  qed
  from level_drop [OF SV d d0 L ne exa A2a hl hr hh ho] obtain p' np' R1' R2' where
    D: "parent ?nx = Some p'" "?A2 p' = Some np'" "records np' = R1' @ (?k, Some a) # R2'"
       "set_find (records np') ?k = length R1'"
       "shape (?h'(p' \<mapsto> np'\<lparr>records := R1' @ R2'\<rparr>)) (lv[d := xs @ ys]) (Some (p', fst (last (records np'))))"
       "level_keys (?h'(p' \<mapsto> np'\<lparr>records := R1' @ R2'\<rparr>)) (last (lv[d := xs @ ys])) = level_keys ?A2 (last lv)"
    by blast
  have pp: "p' = p" using D(1) P(3) by simp
  have npp: "np' = np" using D(2) A2p pp by simp
  let ?np = "np\<lparr>records := set_child (records np) ?j None\<rparr>"
  have h'p: "?h' p = Some ?np" by simp
  have jj: "?j = length R1'" using D(4) npp by simp
  have wo: "take ?j (records ?np) @ drop (Suc ?j) (records ?np) = R1' @ R2'"
    using D(3) npp jj by (simp add: set_child_without)
  have lk: "fst (last (records ?np)) = fst (last (records np))"
    using set_child_last [of "records np" ?j None] rec by simp
  have Heq: "?h'(p \<mapsto> ?np\<lparr>records := take ?j (records ?np) @ drop (Suc ?j) (records ?np)\<rparr>)
             = ?h'(p' \<mapsto> np'\<lparr>records := R1' @ R2'\<rparr>)"
    unfolding wo pp npp by simp
  have shp: "shape (?h'(p \<mapsto> ?np\<lparr>records := take ?j (records ?np) @ drop (Suc ?j) (records ?np)\<rparr>))
               (lv[d := xs @ ys]) (Some (p, fst (last (records ?np))))"
    unfolding Heq lk using D(5) pp npp by simp
  have keysV: "level_keys ?A2 (last lv) = level_keys ?G (last lv)"
  proof (cases "Suc d = length lv")
    case True
    have "map fst (level_recs ?A2 (lv ! d)) = map fst (level_recs ?G (lv ! d))" using V_recs by simp
    then have "level_keys ?A2 (lv ! d) = level_keys ?G (lv ! d)" unfolding map_fst_level_recs .
    then show ?thesis using nth_last [OF True] by simp
  next
    case False
    have lvne: "lv \<noteq> []" using d by auto
    have l: "d < length lv - 1" "length lv - 1 < length lv" using False d by auto
    have "\<forall>z\<in>set (last lv). recs ?A2 z = recs ?G z"
    proof
      fix z assume "z \<in> set (last lv)"
      then have "z \<in> set (lv ! (length lv - 1))" using lvne by (simp add: last_conv_nth)
      from V_deep [OF l this] show "recs ?A2 z = recs ?G z"
        by (cases "?A2 z"; cases "?G z") (auto simp: recs_def)
    qed
    from level_keys_cong [OF this] show ?thesis .
  qed
  have keys: "level_keys (?h'(p \<mapsto> ?np\<lparr>records := take ?j (records ?np) @ drop (Suc ?j) (records ?np)\<rparr>))
                (last (lv[d := xs @ ys])) = level_keys ?G (last lv)"
    unfolding Heq using D(6) keysV by simp
  have lens: "\<forall>z. z \<noteq> a \<longrightarrow> length (recs ?h' z)
                 = (if z = b then length ?rs - 1 + length (records nb) else length (recs h z))"
  proof (intro allI impI)
    fix z assume za: "z \<noteq> a"
    show "length (recs ?h' z) = (if z = b then length ?rs - 1 + length (records nb) else length (recs h z))"
    proof (cases "z = b")
      case True
      then show ?thesis using pa' ab len' by (simp add: recs_def)
    next
      case zb: False
      show ?thesis
      proof (cases "z = p")
        case True
        have "length (set_child (records np) ?j None) = length (records np)" by (simp add: set_child_def)
        moreover have "h p = Some np" using P(2) pa' by simp
        ultimately show ?thesis using True zb by (simp add: recs_def)
      next
        case False
        have "length (recs A3 z) = length (recs ?A2 z)"
        proof (cases "pre n = Some z")
          case True
          from A3_q [OF this] show ?thesis by (cases "?A2 z") (auto simp: recs_def)
        next
          case False
          from A3_o [OF this] show ?thesis by (simp add: recs_def)
        qed
        moreover have "length (recs ?A2 z) = length (recs ?G z)"
          using A1(3) za zb by (cases "?G z") (auto simp: recs_def)
        moreover have "recs ?G z = recs h z" using za by (simp add: recs_def)
        ultimately show ?thesis using False zb za by (simp add: recs_def)
      qed
    qed
  qed
  have jlt': "?j < length (records ?np)" using jlt by (simp add: set_child_def)
  from run pin h'p jlt' shp keys lens show ?thesis by blast
qed

section \<open>Erasing from an empty tree\<close>

text \<open>
  Claim C8. The class has two overloads of \<^verbatim>\<open>erase\<close>. On a tree whose size is zero
  \<^verbatim>\<open>erase(iterator)\<close> throws the underflow error for every handle, and the tree
  object after the call is the tree object before it: size counter, root, header
  links and every node are as they were. \<^verbatim>\<open>erase(const_iterator)\<close> does not get
  that far. It evaluates \<^verbatim>\<open>pos.node->records\<close> to build the argument of the other
  overload, and the handles an empty tree gives out, \<^verbatim>\<open>cbegin()\<close> and \<^verbatim>\<open>cend()\<close>, are
  the past-the-end handle with a null node: the call reads through a null pointer
  before the size is tested, so it has no defined result and the underflow error
  is not what the caller gets.
\<close>

theorem erase_const_on_empty_tree:
  assumes "m_size t = 0"
  shows "erase m pos t = Some (Inl underflow_error, t)
       \<and> begin_iterator t = Some end_iterator
       \<and> erase_const m end_iterator t = None"
  using assms by (simp add: erase_def begin_iterator_def erase_const_def end_iterator_def)

theorem erase_const_on_empty_tree_witness:
  "m_size (empty_tree :: int bplustree) = 0
   \<and> erase 3 end_iterator (empty_tree :: int bplustree) = Some (Inl underflow_error, empty_tree)
   \<and> begin_iterator (empty_tree :: int bplustree) = Some end_iterator
   \<and> erase_const 3 end_iterator (empty_tree :: int bplustree) = None"
  using erase_const_on_empty_tree [of "empty_tree :: int bplustree" 3 end_iterator]
  by (simp add: empty_tree_def)

section \<open>Queries\<close>

lemma run_t_borrow:
  "run 3 [Insert 5, Insert 8, Insert 7, Insert 2, Insert 3, Insert 6, Insert 1, Insert 4, Insert 9]
     empty_tree = Some t_borrow"
proof -
  have "run 3 [Insert 5, Insert 8, Insert 7, Insert 2, Insert 3, Insert 6, Insert 1, Insert 4,
               Insert 9] (empty_tree :: int bplustree) \<noteq> None"
    by code_simp
  then show ?thesis unfolding t_borrow_def by fastforce
qed

lemma run_t12: "run 3 [Insert 1, Insert 2] empty_tree = Some t12"
proof -
  have "run 3 [Insert 1, Insert 2] (empty_tree :: int bplustree) \<noteq> None" by code_simp
  then show ?thesis unfolding t12_def by fastforce
qed

text \<open>
  Claim C10. \<^verbatim>\<open>find\<close>, \<^verbatim>\<open>lower_bound\<close> and \<^verbatim>\<open>upper_bound\<close> contain no assignment to the
  tree object or to a node, and \<^verbatim>\<open>size\<close> and \<^verbatim>\<open>empty\<close> read one field.
  \<^verbatim>\<open>equal_range(key)\<close> applies \<^verbatim>\<open>++\<close> to the handle \<^verbatim>\<open>lower_bound(key)\<close> returned, and
  for a key above the largest stored key that handle cannot be advanced. In the
  tree \<open>t_borrow\<close> of the keys 1 to 9, whose root is an internal node,
  \<^verbatim>\<open>lower_bound(10)\<close> is the past-the-end handle; its node is null, and \<^verbatim>\<open>++\<close> goes
  past the test of \<^verbatim>\<open>m_root\<close>, advances a position that belongs to no container and
  reads \<^verbatim>\<open>node->records\<close>. In the tree \<open>t12\<close>, whose root is the leaf \<open>[1,2]\<close>,
  \<^verbatim>\<open>lower_bound(3)\<close> is the handle of that leaf at the position \<^verbatim>\<open>end()\<close>, and \<^verbatim>\<open>++\<close>
  advances the position \<^verbatim>\<open>end()\<close> of a container. In both trees the call has no
  defined result, so it is not a call after which the tree is as before.
\<close>

theorem equal_range_above_maximum:
  "run 3 [Insert 5, Insert 8, Insert 7, Insert 2, Insert 3, Insert 6, Insert 1, Insert 4, Insert 9]
     empty_tree = Some t_borrow
   \<and> m_root t_borrow \<noteq> None
   \<and> lower_bound t_borrow 10 = Some end_iterator
   \<and> increment t_borrow end_iterator = None
   \<and> equal_range t_borrow 10 = None
   \<and> run 3 [Insert 1, Insert 2] empty_tree = Some t12
   \<and> m_root t12 \<noteq> None
   \<and> map_option records (heap t12 1) = Some [(1, None), (2, None)]
   \<and> lower_bound t12 3 = Some \<lparr>it_node = Some 1, record_iterator = 2\<rparr>
   \<and> increment t12 \<lparr>it_node = Some 1, record_iterator = 2\<rparr> = None
   \<and> equal_range t12 3 = None"
proof -
  have a: "m_root t_borrow \<noteq> None \<and> lower_bound t_borrow 10 = Some end_iterator
     \<and> increment t_borrow end_iterator = None \<and> equal_range t_borrow 10 = None"
    unfolding t_borrow_def by code_simp
  have b: "m_root t12 \<noteq> None
     \<and> map_option records (heap t12 1) = Some [(1, None), (2, None)]
     \<and> lower_bound t12 3 = Some \<lparr>it_node = Some 1, record_iterator = 2\<rparr>
     \<and> increment t12 \<lparr>it_node = Some 1, record_iterator = 2\<rparr> = None
     \<and> equal_range t12 3 = None"
    unfolding t12_def by code_simp
  show ?thesis using run_t_borrow run_t12 a b by blast
qed

section \<open>The strategy classifier\<close>

text \<open>
  Claim C6. The classifier, for a node \<open>n\<close> at \<open>a\<close> that is not the root and holds
  the record to erase. Let \<open>l\<close> be the node \<^verbatim>\<open>node->pre\<close> and \<open>r\<close> the node
  \<^verbatim>\<open>node->next\<close>, where that pointer is neither null nor the header. A merge with a
  neighbour \<open>x\<close> fits when \<open>x\<close> has the parent of \<open>n\<close> and the records of \<open>n\<close> less
  one, with those of \<open>x\<close>, are at most \<open>m\<close>; \<open>x\<close> is rich when it has more than
  \<open>half_order m\<close> records, \<open>n\<close> is big when it has. The answer is the first of
  these that applies, and \<^verbatim>\<open>SINGLE_CHILD\<close> when none does:
  for order 2, \<^verbatim>\<open>MERGE_LEFT\<close> (the merge with \<open>l\<close> fits), \<^verbatim>\<open>MERGE_RIGHT\<close> (the merge
  with \<open>r\<close> fits), \<^verbatim>\<open>REMOVE_DIRECTLY\<close> (\<open>n\<close> is big), \<^verbatim>\<open>BORROW_RIGHT\<close> (\<open>r\<close> is rich),
  \<^verbatim>\<open>BORROW_LEFT\<close> (\<open>l\<close> is rich);
  for every other order, \<^verbatim>\<open>REMOVE_DIRECTLY\<close>, \<^verbatim>\<open>BORROW_RIGHT\<close>, \<^verbatim>\<open>BORROW_LEFT\<close>,
  \<^verbatim>\<open>MERGE_LEFT\<close>, \<^verbatim>\<open>MERGE_RIGHT\<close>.
  So at order 2 a merge that fits is chosen whether \<open>n\<close> is big or not, and at an
  order above 2 a big node has its record removed directly whether a merge fits or
  not. The number the code compares with is \<open>half_order m = (m + 1) div 2\<close>, which
  is at most the half of \<open>m + 1\<close> rounded up: a node with more records than the
  latter is big.
\<close>

theorem erase_strategy_order:
  assumes "m_root t \<noteq> Some a" and "heap t a = Some n" and "records n \<noteq> []"
    and "\<forall>b. (pre n = Some b \<or> nxt n = Some b) \<and> b \<noteq> m_header \<longrightarrow> heap t b \<noteq> None"
  shows
    "let l = (case pre n of None \<Rightarrow> None | Some b \<Rightarrow> if b = m_header then None else heap t b);
         r = (case nxt n of None \<Rightarrow> None | Some b \<Rightarrow> if b = m_header then None else heap t b);
         fit = (\<lambda>x. case x of None \<Rightarrow> False
                   | Some s \<Rightarrow> parent s = parent n \<and> length (records n) - 1 + length (records s) \<le> m);
         rich = (\<lambda>x. case x of None \<Rightarrow> False | Some s \<Rightarrow> half_order m < length (records s));
         big = (half_order m < length (records n))
     in erase_strategy m t a = Some
          (if m = 2 then
             (if fit l then MERGE_LEFT else if fit r then MERGE_RIGHT
              else if big then REMOVE_DIRECTLY
              else if rich r then BORROW_RIGHT else if rich l then BORROW_LEFT
              else SINGLE_CHILD)
           else
             (if big then REMOVE_DIRECTLY
              else if rich r then BORROW_RIGHT else if rich l then BORROW_LEFT
              else if fit l then MERGE_LEFT else if fit r then MERGE_RIGHT
              else SINGLE_CHILD))"
proof -
  have ms: "merged_size (length (records n)) k = length (records n) - 1 + k" for k
    using assms(3) by (cases "records n") (simp_all add: merged_size_def)
  have nb: "(p = None \<and> neighbour (heap t) n p = Some (True, False, 0) \<and> x = None)
          \<or> (p = Some m_header \<and> neighbour (heap t) n p = Some (True, False, 0) \<and> x = None)
          \<or> (\<exists>b s. p = Some b \<and> b \<noteq> m_header \<and> x = Some s
                 \<and> neighbour (heap t) n p = Some (False, parent s = parent n, length (records s)))"
    if "p = pre n \<or> p = nxt n"
      and "x = (case p of None \<Rightarrow> None | Some b \<Rightarrow> if b = m_header then None else heap t b)"
    for p x
  proof (cases "p = None \<or> p = Some m_header")
    case True
    then show ?thesis using that(2) by (auto simp: neighbour_def)
  next
    case False
    then obtain b where b: "p = Some b" "b \<noteq> m_header" by (cases p) auto
    with that(1) assms(4) have "heap t b \<noteq> None" by auto
    then obtain s where "heap t b = Some s" by auto
    with b that(2) show ?thesis by (simp add: neighbour_def)
  qed
  define l where "l = (case pre n of None \<Rightarrow> None | Some b \<Rightarrow> if b = m_header then None else heap t b)"
  define r where "r = (case nxt n of None \<Rightarrow> None | Some b \<Rightarrow> if b = m_header then None else heap t b)"
  have E: "erase_strategy m t a = do {
        (is_left_end, has_left_slibing, left_size) \<leftarrow> neighbour (heap t) n (pre n);
        (is_right_end, has_right_slibing, right_size) \<leftarrow> neighbour (heap t) n (nxt n);
        Some (if m = 2 then
               (if has_left_slibing \<and> length (records n) - 1 + left_size \<le> m then MERGE_LEFT
                else if has_right_slibing \<and> length (records n) - 1 + right_size \<le> m then MERGE_RIGHT
                else if length (records n) > half_order m then REMOVE_DIRECTLY
                else if \<not> is_right_end \<and> right_size > half_order m then BORROW_RIGHT
                else if \<not> is_left_end \<and> left_size > half_order m then BORROW_LEFT
                else SINGLE_CHILD)
              else
               (if length (records n) > half_order m then REMOVE_DIRECTLY
                else if \<not> is_right_end \<and> right_size > half_order m then BORROW_RIGHT
                else if \<not> is_left_end \<and> left_size > half_order m then BORROW_LEFT
                else if has_left_slibing \<and> length (records n) - 1 + left_size \<le> m then MERGE_LEFT
                else if has_right_slibing \<and> length (records n) - 1 + right_size \<le> m then MERGE_RIGHT
                else SINGLE_CHILD)) }"
    using assms(1,2)
    by (cases "m = 2")
       (simp_all add: erase_strategy_def erase_strategy_eq2_def erase_strategy_gt2_def ms
          split del: if_split cong: if_cong)
  have G: "erase_strategy m t a = Some
          (if m = 2 then
             (if (case l of None \<Rightarrow> False
                   | Some s \<Rightarrow> parent s = parent n \<and> length (records n) - 1 + length (records s) \<le> m) then MERGE_LEFT
              else if (case r of None \<Rightarrow> False
                   | Some s \<Rightarrow> parent s = parent n \<and> length (records n) - 1 + length (records s) \<le> m) then MERGE_RIGHT
              else if half_order m < length (records n) then REMOVE_DIRECTLY
              else if (case r of None \<Rightarrow> False | Some s \<Rightarrow> half_order m < length (records s)) then BORROW_RIGHT
              else if (case l of None \<Rightarrow> False | Some s \<Rightarrow> half_order m < length (records s)) then BORROW_LEFT
              else SINGLE_CHILD)
           else
             (if half_order m < length (records n) then REMOVE_DIRECTLY
              else if (case r of None \<Rightarrow> False | Some s \<Rightarrow> half_order m < length (records s)) then BORROW_RIGHT
              else if (case l of None \<Rightarrow> False | Some s \<Rightarrow> half_order m < length (records s)) then BORROW_LEFT
              else if (case l of None \<Rightarrow> False
                   | Some s \<Rightarrow> parent s = parent n \<and> length (records n) - 1 + length (records s) \<le> m) then MERGE_LEFT
              else if (case r of None \<Rightarrow> False
                   | Some s \<Rightarrow> parent s = parent n \<and> length (records n) - 1 + length (records s) \<le> m) then MERGE_RIGHT
              else SINGLE_CHILD))"
    using nb [OF disjI1 [OF refl] l_def] nb [OF disjI2 [OF refl] r_def]
    unfolding E
    by (elim disjE exE conjE) (simp_all split del: if_split cong: if_cong)
  show ?thesis unfolding Let_def l_def [symmetric] r_def [symmetric] by (rule G)
qed

text \<open>
  In \<open>t_order2\<close> the leaf at address 1 holds two records, more than \<open>half_order 2\<close>,
  and its left sibling at address 2 one: the merge fits, the node is big, and the
  answer is \<^verbatim>\<open>MERGE_LEFT\<close>. In \<open>t_order4\<close> the leaf at address 1 holds three records
  and its left sibling two: the merge fits, the node is big, and the answer is
  \<^verbatim>\<open>REMOVE_DIRECTLY\<close>.
\<close>

theorem erase_strategy_order_witness:
  "m_root t_order2 \<noteq> Some 1
   \<and> map_option records (heap t_order2 1) = Some [(2, None), (3, None)]
   \<and> map_option pre (heap t_order2 1) = Some (Some 2)
   \<and> map_option records (heap t_order2 2) = Some [(1, None)]
   \<and> map_option parent (heap t_order2 2) = map_option parent (heap t_order2 1)
   \<and> half_order 2 = 1
   \<and> erase_strategy 2 t_order2 1 = Some MERGE_LEFT
   \<and> m_root t_order4 \<noteq> Some 1
   \<and> map_option records (heap t_order4 1) = Some [(3, None), (4, None), (5, None)]
   \<and> map_option pre (heap t_order4 1) = Some (Some 2)
   \<and> map_option records (heap t_order4 2) = Some [(1, None), (2, None)]
   \<and> map_option parent (heap t_order4 2) = map_option parent (heap t_order4 1)
   \<and> half_order 4 = 2
   \<and> erase_strategy 4 t_order4 1 = Some REMOVE_DIRECTLY"
proof -
  let ?n2 = "\<lparr>records = [(2::int, None), (3, None)], is_leaf = True, nxt = Some 0,
              pre = Some 2, parent = Some 3\<rparr>"
  let ?l2 = "\<lparr>records = [(1::int, None)], is_leaf = True, nxt = Some 1,
              pre = Some 0, parent = Some 3\<rparr>"
  let ?n4 = "\<lparr>records = [(3::int, None), (4, None), (5, None)], is_leaf = True, nxt = Some 0,
              pre = Some 2, parent = Some 3\<rparr>"
  let ?l4 = "\<lparr>records = [(1::int, None), (2, None)], is_leaf = True, nxt = Some 1,
              pre = Some 0, parent = Some 3\<rparr>"
  have a2: "m_root t_order2 \<noteq> Some 1" unfolding t_order2_def by code_simp
  have b2: "heap t_order2 1 = Some ?n2" unfolding t_order2_def by code_simp
  have c2: "heap t_order2 2 = Some ?l2" unfolding t_order2_def by code_simp
  have d2: "records ?n2 \<noteq> []" by simp
  have e2: "\<forall>b. (pre ?n2 = Some b \<or> nxt ?n2 = Some b) \<and> b \<noteq> m_header \<longrightarrow> heap t_order2 b \<noteq> None"
    using c2 by (auto simp: m_header_def)
  have a4: "m_root t_order4 \<noteq> Some 1" unfolding t_order4_def by code_simp
  have b4: "heap t_order4 1 = Some ?n4" unfolding t_order4_def by code_simp
  have c4: "heap t_order4 2 = Some ?l4" unfolding t_order4_def by code_simp
  have d4: "records ?n4 \<noteq> []" by simp
  have e4: "\<forall>b. (pre ?n4 = Some b \<or> nxt ?n4 = Some b) \<and> b \<noteq> m_header \<longrightarrow> heap t_order4 b \<noteq> None"
    using c4 by (auto simp: m_header_def)
  have r2: "erase_strategy 2 t_order2 1 = Some MERGE_LEFT"
    using erase_strategy_order [OF a2 b2 d2 e2, of 2] c2
    by (simp add: Let_def m_header_def)
  have r4: "erase_strategy 4 t_order4 1 = Some REMOVE_DIRECTLY"
    using erase_strategy_order [OF a4 b4 d4 e4, of 4] c4
    by (simp add: Let_def m_header_def half_order_def)
  have h: "half_order 2 = 1" "half_order 4 = 2" by (simp_all add: half_order_def)
  show ?thesis using a2 b2 c2 a4 b4 c4 r2 r4 h by simp
qed

text \<open>
  Claim C5 says that a borrow takes from a sibling under the same parent only. The
  classifier tests \<^verbatim>\<open>!is_right_end\<close> and \<^verbatim>\<open>!is_left_end\<close> for a borrow, not
  \<^verbatim>\<open>has_right_slibing\<close> and \<^verbatim>\<open>has_left_slibing\<close>. In \<open>t_borrow\<close> the leaf \<open>[6,7]\<close> at
  address 5 has the parent 3; its sibling \<open>[8,9]\<close> at address 1 under the same
  parent holds \<open>half_order 3\<close> records and no more; its left neighbour in the chain,
  \<open>[3,4,5]\<close> at address 2, has the parent 6. The classifier answers \<^verbatim>\<open>BORROW_LEFT\<close>,
  and \<^verbatim>\<open>erase_helper\<close> moves the key 5 from the node at 2 into the node at 5.
\<close>

theorem borrow_from_other_parent:
  "run 3 [Insert 5, Insert 8, Insert 7, Insert 2, Insert 3, Insert 6, Insert 1, Insert 4, Insert 9]
     empty_tree = Some t_borrow \<and>
   m_root t_borrow \<noteq> Some 5 \<and>
   erase_strategy 3 t_borrow 5 = Some BORROW_LEFT \<and>
   map_option pre (heap t_borrow 5) = Some (Some 2) \<and>
   map_option parent (heap t_borrow 5) = Some (Some 3) \<and>
   map_option parent (heap t_borrow 2) = Some (Some 6) \<and>
   map_option nxt (heap t_borrow 5) = Some (Some 1) \<and>
   map_option parent (heap t_borrow 1) = Some (Some 3) \<and>
   map_option records (heap t_borrow 1) = Some [(8, None), (9, None)] \<and>
   map_option records (heap t_borrow 2) = Some [(3, None), (4, None), (5, None)] \<and>
   map_option records (heap t_borrow 5) = Some [(6, None), (7, None)] \<and>
   half_order 3 = 2 \<and>
   (case erase_helper 3 t_borrow 5 1 of
      Some (again, a, i, h) \<Rightarrow>
        map_option records (h 2) = Some [(3, None), (4, None)] \<and>
        map_option records (h 5) = Some [(5, None), (6, None)]
    | None \<Rightarrow> False)"
proof -
  have "run 3 [Insert 5, Insert 8, Insert 7, Insert 2, Insert 3, Insert 6, Insert 1, Insert 4,
               Insert 9] (empty_tree :: int bplustree) \<noteq> None"
    by code_simp
  then have r: "run 3 [Insert 5, Insert 8, Insert 7, Insert 2, Insert 3, Insert 6, Insert 1,
                       Insert 4, Insert 9] empty_tree = Some t_borrow"
    unfolding t_borrow_def by fastforce
  have rest: "m_root t_borrow \<noteq> Some 5 \<and>
   erase_strategy 3 t_borrow 5 = Some BORROW_LEFT \<and>
   map_option pre (heap t_borrow 5) = Some (Some 2) \<and>
   map_option parent (heap t_borrow 5) = Some (Some 3) \<and>
   map_option parent (heap t_borrow 2) = Some (Some 6) \<and>
   map_option nxt (heap t_borrow 5) = Some (Some 1) \<and>
   map_option parent (heap t_borrow 1) = Some (Some 3) \<and>
   map_option records (heap t_borrow 1) = Some [(8, None), (9, None)] \<and>
   map_option records (heap t_borrow 2) = Some [(3, None), (4, None), (5, None)] \<and>
   map_option records (heap t_borrow 5) = Some [(6, None), (7, None)] \<and>
   half_order 3 = 2 \<and>
   (case erase_helper 3 t_borrow 5 1 of
      Some (again, a, i, h) \<Rightarrow>
        map_option records (h 2) = Some [(3, None), (4, None)] \<and>
        map_option records (h 5) = Some [(5, None), (6, None)]
    | None \<Rightarrow> False)"
    unfolding t_borrow_def by code_simp
  show ?thesis using r rest by blast
qed

text \<open>
  Claim C5 as the code has it. The classifier answers \<^verbatim>\<open>BORROW_RIGHT\<close> only when
  \<^verbatim>\<open>node->next\<close> is a node other than the header that holds more than
  \<open>half_order m = (m + 1) div 2\<close> records, and \<^verbatim>\<open>BORROW_LEFT\<close> only when
  \<^verbatim>\<open>node->pre\<close> is such a node; the parent of that neighbour is not looked at. The
  record that is borrowed is taken from that neighbour: in the state \<open>mid\<close> between
  two rounds of the loop of \<^verbatim>\<open>erase\<close>, the round returns with the loop at its end,
  the neighbour has lost its first record (\<^verbatim>\<open>BORROW_RIGHT\<close>) or its last record
  (\<^verbatim>\<open>BORROW_LEFT\<close>), and the node holds its records without the one to erase,
  followed (preceded) by the record that the neighbour lost. The first round of
  every \<^verbatim>\<open>erase\<close> on a well-formed tree is in the state \<open>mid\<close> (lemma \<open>inv_mid\<close>).
\<close>

theorem borrow_takes_from_chain_neighbour:
  fixes t :: "'k::linorder bplustree"
  assumes "erase_strategy m t a = Some s" and "heap t a = Some n"
  shows "(s = BORROW_RIGHT \<longrightarrow>
            (\<exists>b r. nxt n = Some b \<and> b \<noteq> m_header \<and> heap t b = Some r
                   \<and> half_order m < length (records r)
                   \<and> (\<forall>lv d i. mid m (heap t) lv d a i \<longrightarrow>
                        (\<exists>h'. erase_helper m t a i = Some (False, a, i, h')
                            \<and> h' b = Some (r\<lparr>records := tl (records r)\<rparr>)
                            \<and> h' a = Some (n\<lparr>records := take i (records n) @ drop (Suc i) (records n)
                                                           @ [hd (records r)]\<rparr>)))))
       \<and> (s = BORROW_LEFT \<longrightarrow>
            (\<exists>b l. pre n = Some b \<and> b \<noteq> m_header \<and> heap t b = Some l
                   \<and> half_order m < length (records l)
                   \<and> (\<forall>lv d i. mid m (heap t) lv d a i \<longrightarrow>
                        (\<exists>h'. erase_helper m t a i = Some (False, a, i, h')
                            \<and> h' b = Some (l\<lparr>records := butlast (records l)\<rparr>)
                            \<and> h' a = Some (n\<lparr>records := last (records l) # take i (records n)
                                                           @ drop (Suc i) (records n)\<rparr>)))))"
proof (intro conjI impI)
  assume s: "s = BORROW_RIGHT"
  from borrow_strategyD(1) [OF assms s] obtain b r where
    b: "nxt n = Some b" "b \<noteq> m_header" "heap t b = Some r" "half_order m < length (records r)"
    by blast
  have "\<exists>h'. erase_helper m t a i = Some (False, a, i, h')
            \<and> h' b = Some (r\<lparr>records := tl (records r)\<rparr>)
            \<and> h' a = Some (n\<lparr>records := take i (records n) @ drop (Suc i) (records n) @ [hd (records r)]\<rparr>)"
    if M: "mid m (heap t) lv d a i" for lv d i
  proof -
    note D = midD [OF M assms(2)]
    from D(2) obtain xs ys where L: "lv ! d = xs @ a # ys" by (meson split_list)
    have two: "2 \<le> length (records r)" using b(4) D(6) by simp
    from borrow_right_step [OF assms(2) D(3,4,1) L b(1,2,3) two] obtain h' where
      h': "erase_borrow_right a i (heap t) = Some (False, a, i, h')"
          "h' a = Some (n\<lparr>records := take i (records n) @ drop (Suc i) (records n) @ [hd (records r)]\<rparr>)"
          "h' b = Some (r\<lparr>records := tl (records r)\<rparr>)"
      by blast
    have "erase_helper m t a i = Some (False, a, i, h')"
      using assms s D(3) h'(1) by (simp add: erase_helper_def set_at_def)
    with h'(2,3) show ?thesis by blast
  qed
  with b show "\<exists>b r. nxt n = Some b \<and> b \<noteq> m_header \<and> heap t b = Some r
                   \<and> half_order m < length (records r)
                   \<and> (\<forall>lv d i. mid m (heap t) lv d a i \<longrightarrow>
                        (\<exists>h'. erase_helper m t a i = Some (False, a, i, h')
                            \<and> h' b = Some (r\<lparr>records := tl (records r)\<rparr>)
                            \<and> h' a = Some (n\<lparr>records := take i (records n) @ drop (Suc i) (records n)
                                                           @ [hd (records r)]\<rparr>)))"
    by blast
next
  assume s: "s = BORROW_LEFT"
  from borrow_strategyD(2) [OF assms s] obtain b l where
    b: "pre n = Some b" "b \<noteq> m_header" "heap t b = Some l" "half_order m < length (records l)"
    by blast
  have "\<exists>h'. erase_helper m t a i = Some (False, a, i, h')
            \<and> h' b = Some (l\<lparr>records := butlast (records l)\<rparr>)
            \<and> h' a = Some (n\<lparr>records := last (records l) # take i (records n) @ drop (Suc i) (records n)\<rparr>)"
    if M: "mid m (heap t) lv d a i" for lv d i
  proof -
    note D = midD [OF M assms(2)]
    from D(2) obtain xs ys where L: "lv ! d = xs @ a # ys" by (meson split_list)
    have two: "2 \<le> length (records l)" using b(4) D(6) by simp
    from borrow_left_step [OF assms(2) D(3,4,1) L b(1,2,3) two] obtain h' where
      h': "erase_borrow_left a i (heap t) = Some (False, a, i, h')"
          "h' a = Some (n\<lparr>records := last (records l) # take i (records n) @ drop (Suc i) (records n)\<rparr>)"
          "h' b = Some (l\<lparr>records := butlast (records l)\<rparr>)"
      by blast
    have "erase_helper m t a i = Some (False, a, i, h')"
      using assms s D(3) h'(1) by (simp add: erase_helper_def set_at_def)
    with h'(2,3) show ?thesis by blast
  qed
  with b show "\<exists>b l. pre n = Some b \<and> b \<noteq> m_header \<and> heap t b = Some l
                   \<and> half_order m < length (records l)
                   \<and> (\<forall>lv d i. mid m (heap t) lv d a i \<longrightarrow>
                        (\<exists>h'. erase_helper m t a i = Some (False, a, i, h')
                            \<and> h' b = Some (l\<lparr>records := butlast (records l)\<rparr>)
                            \<and> h' a = Some (n\<lparr>records := last (records l) # take i (records n)
                                                           @ drop (Suc i) (records n)\<rparr>)))"
    by blast
qed

lemma run_t_order4:
  "run 4 [Insert 1, Insert 2, Insert 3, Insert 4, Insert 5] empty_tree = Some t_order4"
proof -
  have "run 4 [Insert 1, Insert 2, Insert 3, Insert 4, Insert 5] (empty_tree :: int bplustree) \<noteq> None"
    by code_simp
  then show ?thesis unfolding t_order4_def by fastforce
qed

text \<open>
  The first round of \<^verbatim>\<open>erase(find(k))\<close> for a stored key \<open>k\<close> of a tree built by
  insertions is in the state \<open>mid\<close>.
\<close>

lemma first_round_mid:
  fixes t :: "'k::linorder bplustree"
  assumes r: "run m (map Insert ks) empty_tree = Some t" and m: "2 \<le> m" and k: "k \<in> set ks"
    and f: "find t k = Some \<lparr>it_node = Some a, record_iterator = i\<rparr>"
  shows "\<exists>lv d. mid m (heap t) lv d a i"
proof -
  from run_inserts_inv [OF inv_empty_tree m, of ks] r obtain lv where
    I: "inv m t lv" and s: "set (leaf_keys t lv) = set ks \<union> set (leaf_keys (empty_tree :: 'k bplustree) [])"
    and ne: "ks \<noteq> [] \<longrightarrow> m_root t \<noteq> None"
    by auto
  from ne k obtain r where r: "m_root t = Some r" by auto
  have "k \<in> set (leaf_keys t lv)" using s k by simp
  from find_stored [OF I r this] f obtain n xs ys where
    "last lv = xs @ a # ys" "heap t a = Some n" "i < length (records n)" by auto
  then have "mid m (heap t) lv (length lv - 1) a i"
    using inv_mid [OF I r, of a n i] by simp
  then show ?thesis by blast
qed

text \<open>
  In \<open>t_borrow\<close> the leaf \<open>[6,7]\<close> at address 5 takes the last record of its left
  neighbour \<open>[3,4,5]\<close> at address 2, a node under another parent, when the key 7 is
  erased. In \<open>t_order4\<close>, of order 4, the leaf \<open>[1,2]\<close> at address 2 takes the first
  record of its right neighbour \<open>[3,4,5]\<close> at address 1 when the key 1 is erased:
  that neighbour holds three records, more than \<open>half_order 4 = 2\<close> and not more than
  \<open>(4 + 2) div 2 = 3\<close>, the half of \<open>m + 1\<close> rounded up.
\<close>

theorem borrow_takes_from_chain_neighbour_witness:
  "erase_strategy 3 t_borrow 5 = Some BORROW_LEFT
   \<and> (\<exists>lv d. mid 3 (heap t_borrow) lv d 5 1)
   \<and> map_option records (heap t_borrow 5) = Some [(6, None), (7, None)]
   \<and> map_option pre (heap t_borrow 5) = Some (Some 2)
   \<and> map_option records (heap t_borrow 2) = Some [(3, None), (4, None), (5, None)]
   \<and> (\<exists>h'. erase_helper 3 t_borrow 5 1 = Some (False, 5, 1, h')
          \<and> map_option records (h' 2) = Some [(3, None), (4, None)]
          \<and> map_option records (h' 5) = Some [(5, None), (6, None)])
   \<and> erase_strategy 4 t_order4 2 = Some BORROW_RIGHT
   \<and> (\<exists>lv d. mid 4 (heap t_order4) lv d 2 0)
   \<and> map_option records (heap t_order4 2) = Some [(1, None), (2, None)]
   \<and> map_option nxt (heap t_order4 2) = Some (Some 1)
   \<and> map_option records (heap t_order4 1) = Some [(3, None), (4, None), (5, None)]
   \<and> half_order 4 = 2
   \<and> (\<exists>h'. erase_helper 4 t_order4 2 0 = Some (False, 2, 0, h')
          \<and> map_option records (h' 1) = Some [(4, None), (5, None)]
          \<and> map_option records (h' 2) = Some [(2, None), (3, None)])"
proof -
  let ?n5 = "\<lparr>records = [(6::int, None), (7, None)], is_leaf = True, nxt = Some 1,
              pre = Some 2, parent = Some 3\<rparr>"
  let ?n2 = "\<lparr>records = [(3::int, None), (4, None), (5, None)], is_leaf = True, nxt = Some 5,
              pre = Some 4, parent = Some 6\<rparr>"
  have s3: "erase_strategy 3 t_borrow 5 = Some BORROW_LEFT" unfolding t_borrow_def by code_simp
  have h5: "heap t_borrow 5 = Some ?n5" unfolding t_borrow_def by code_simp
  have h2: "heap t_borrow 2 = Some ?n2" unfolding t_borrow_def by code_simp
  have f7: "find t_borrow 7 = Some \<lparr>it_node = Some 5, record_iterator = 1\<rparr>"
    unfolding t_borrow_def by code_simp
  have "run 3 (map Insert [5, 8, 7, 2, 3, 6, 1, 4, 9]) empty_tree = Some t_borrow"
    using run_t_borrow by simp
  from first_round_mid [OF this _ _ f7] obtain lv d where M3: "mid 3 (heap t_borrow) lv d 5 1"
    by auto
  from borrow_takes_from_chain_neighbour [OF s3 h5] h2 M3
  obtain h' where b3: "erase_helper 3 t_borrow 5 1 = Some (False, 5, 1, h')"
      "h' 2 = Some (?n2\<lparr>records := butlast (records ?n2)\<rparr>)"
      "h' 5 = Some (?n5\<lparr>records := last (records ?n2) # take 1 (records ?n5) @ drop (Suc 1) (records ?n5)\<rparr>)"
    by fastforce
  let ?m2 = "\<lparr>records = [(1::int, None), (2, None)], is_leaf = True, nxt = Some 1,
              pre = Some 0, parent = Some 3\<rparr>"
  let ?m1 = "\<lparr>records = [(3::int, None), (4, None), (5, None)], is_leaf = True, nxt = Some 0,
              pre = Some 2, parent = Some 3\<rparr>"
  have s4: "erase_strategy 4 t_order4 2 = Some BORROW_RIGHT" unfolding t_order4_def by code_simp
  have g2: "heap t_order4 2 = Some ?m2" unfolding t_order4_def by code_simp
  have g1: "heap t_order4 (Suc 0) = Some ?m1" unfolding t_order4_def by code_simp
  have f1: "find t_order4 1 = Some \<lparr>it_node = Some 2, record_iterator = 0\<rparr>"
    unfolding t_order4_def by code_simp
  have "run 4 (map Insert [1, 2, 3, 4, 5]) empty_tree = Some t_order4"
    using run_t_order4 by simp
  from first_round_mid [OF this _ _ f1] obtain lv' d' where M4: "mid 4 (heap t_order4) lv' d' 2 0"
    by auto
  from borrow_takes_from_chain_neighbour [OF s4 g2] g1 M4
  obtain h'' where b4: "erase_helper 4 t_order4 2 0 = Some (False, 2, 0, h'')"
      "h'' (Suc 0) = Some (?m1\<lparr>records := tl (records ?m1)\<rparr>)"
      "h'' 2 = Some (?m2\<lparr>records := take 0 (records ?m2) @ drop (Suc 0) (records ?m2) @ [hd (records ?m1)]\<rparr>)"
    by fastforce
  have h: "half_order 4 = 2" by (simp add: half_order_def)
  have A: "\<exists>h'. erase_helper 3 t_borrow 5 1 = Some (False, 5, 1, h')
          \<and> map_option records (h' 2) = Some [(3, None), (4, None)]
          \<and> map_option records (h' 5) = Some [(5, None), (6, None)]"
    using b3 by (intro exI [of _ h']) simp
  have B: "\<exists>h'. erase_helper 4 t_order4 2 0 = Some (False, 2, 0, h')
          \<and> map_option records (h' 1) = Some [(4, None), (5, None)]
          \<and> map_option records (h' 2) = Some [(2, None), (3, None)]"
    using b4 by (intro exI [of _ h'']) simp
  have C: "\<exists>lv d. mid 3 (heap t_borrow) lv d 5 1" using M3 by blast
  have D: "\<exists>lv d. mid 4 (heap t_order4) lv d 2 0" using M4 by blast
  show ?thesis using s3 C h5 h2 A s4 D g2 g1 h B by simp
qed

section \<open>The handle returned by erase\<close>

text \<open>
  Claim C4 asks \<^verbatim>\<open>erase\<close> for the handle of the next key, or the past-the-end handle
  when there is none. \<^verbatim>\<open>erase\<close> returns \<^verbatim>\<open>lower_bound(to_delete_key)\<close>, and
  \<^verbatim>\<open>lower_bound\<close> builds its result at a leaf with \<^verbatim>\<open>make_iterator_uncheck\<close>, where
  \<^verbatim>\<open>upper_bound\<close> uses the checked \<^verbatim>\<open>make_iterator\<close>. In the tree \<open>t12\<close> with the
  keys 1 and 2 in one leaf, erasing 2 through the handle that \<^verbatim>\<open>find\<close> gave returns
  a handle with the leaf as node and the position \<^verbatim>\<open>end()\<close> of its container: it is
  not equal to the past-the-end handle and it cannot be dereferenced.
\<close>

theorem erase_last_key_of_single_leaf:
  "find t12 2 = Some \<lparr>it_node = Some 1, record_iterator = 1\<rparr> \<and>
   (case erase 3 \<lparr>it_node = Some 1, record_iterator = 1\<rparr> t12 of
      Some (Inr it, t') \<Rightarrow>
        it = \<lparr>it_node = Some 1, record_iterator = 1\<rparr> \<and> \<not> iterator_eq it end_iterator \<and>
        deref t' it = None \<and> map_option records (heap t' 1) = Some [(1, None)] \<and> m_size t' = 1
    | _ \<Rightarrow> False)"
  unfolding t12_def by code_simp

section \<open>Inserting a key that is present\<close>

text \<open>
  Claim C7. In a well-formed tree that holds the key \<open>k\<close>, \<^verbatim>\<open>insert(k)\<close> returns a
  handle that dereferences to \<open>k\<close> together with \<open>False\<close>, and the tree object after
  the call is the tree object before it (so the keys, every node and the size are
  unchanged). Hence in any well-formed tree a second \<^verbatim>\<open>insert(k)\<close> right after a
  first one reports \<open>False\<close> and changes nothing.
\<close>

theorem insert_existing_key:
  fixes t :: "'k::linorder bplustree"
  assumes "inv m t lv" and "2 \<le> m"
  shows "(k \<in> set (leaf_keys t lv) \<longrightarrow>
            (\<exists>it. insert m k t = Some ((it, False), t) \<and> deref t it = Some k))
       \<and> (\<exists>it1 b t1 it2. insert m k t = Some ((it1, b), t1)
              \<and> insert m k t1 = Some ((it2, False), t1) \<and> deref t1 it2 = Some k)"
proof -
  from insert_inv [OF assms, of k] obtain it b t' lv' where
    1: "insert m k t = Some ((it, b), t')" "inv m t' lv'"
       "set (leaf_keys t' lv') = Set.insert k (set (leaf_keys t lv))"
       "b \<longleftrightarrow> k \<notin> set (leaf_keys t lv)"
       "\<not> b \<longrightarrow> t' = t \<and> lv' = lv \<and> deref t it = Some k"
    by blast
  from insert_inv [OF 1(2) assms(2), of k] obtain it2 b2 t2 lv2 where
    2: "insert m k t' = Some ((it2, b2), t2)"
       "b2 \<longleftrightarrow> k \<notin> set (leaf_keys t' lv')"
       "\<not> b2 \<longrightarrow> t2 = t' \<and> lv2 = lv' \<and> deref t' it2 = Some k"
    by blast
  have "\<not> b2" using 2(2) 1(3) by simp
  with 2 have "insert m k t' = Some ((it2, False), t') \<and> deref t' it2 = Some k" by simp
  with 1(1) have B: "\<exists>it1 b t1 it2. insert m k t = Some ((it1, b), t1)
              \<and> insert m k t1 = Some ((it2, False), t1) \<and> deref t1 it2 = Some k" by blast
  have A: "k \<in> set (leaf_keys t lv) \<longrightarrow>
            (\<exists>it. insert m k t = Some ((it, False), t) \<and> deref t it = Some k)"
    using 1 by auto
  show ?thesis using A B by blast
qed

text \<open>The tree \<open>t12\<close> of order 3 is the single leaf \<open>[1, 2]\<close> at address 1.\<close>

theorem insert_existing_key_witness:
  "inv 3 t12 [[1]] \<and> (2::nat) \<le> 3 \<and> (2::int) \<in> set (leaf_keys t12 [[1]])
   \<and> (\<exists>it. insert 3 2 t12 = Some ((it, False), t12) \<and> deref t12 it = Some 2)"
proof -
  have h1: "heap t12 1 = Some \<lparr>records = [(1, None), (2, None)], is_leaf = True, nxt = Some 0,
                                pre = Some 0, parent = None\<rparr>"
    unfolding t12_def by code_simp
  have h0: "heap t12 m_header = Some \<lparr>records = [], is_leaf = True, nxt = Some 1,
                                pre = Some 1, parent = None\<rparr>"
    unfolding t12_def by code_simp
  have r: "m_root t12 = Some 1" "m_size t12 = 2" "fresh t12 = 2"
    unfolding t12_def by code_simp+
  have s: "shape (heap t12) [[1]] None"
    unfolding shape_def using h0 h1 by (simp add: leaf_level_def keys_of_def m_header_def)
  have i: "inv 3 t12 [[1]]"
    unfolding inv_def using r s h1 by (simp add: fits_def keys_of_def m_header_def)
  have k: "(2::int) \<in> set (leaf_keys t12 [[1]])" using h1 by (simp add: leaf_keys_def keys_of_def)
  from insert_existing_key [OF i, of 2] k
  have "\<exists>it. insert 3 2 t12 = Some ((it, False), t12) \<and> deref t12 it = Some 2" by simp
  with i k show ?thesis by simp
qed

section \<open>Stepping a handle backwards\<close>

lemma inv_t12: "inv 3 t12 [[1]]"
proof -
  have h1: "heap t12 1 = Some \<lparr>records = [(1, None), (2, None)], is_leaf = True, nxt = Some 0,
                                pre = Some 0, parent = None\<rparr>"
    unfolding t12_def by code_simp
  have h0: "heap t12 m_header = Some \<lparr>records = [], is_leaf = True, nxt = Some 1,
                                pre = Some 1, parent = None\<rparr>"
    unfolding t12_def by code_simp
  have r: "m_root t12 = Some 1" "m_size t12 = 2" "fresh t12 = 2"
    unfolding t12_def by code_simp+
  have s: "shape (heap t12) [[1]] None"
    unfolding shape_def using h0 h1 by (simp add: leaf_level_def keys_of_def m_header_def)
  show ?thesis
    unfolding inv_def using r s h1 by (simp add: fits_def keys_of_def m_header_def)
qed

text \<open>
  Claim C9. In a well-formed tree that is not empty: \<^verbatim>\<open>--\<close> on the end handle gives
  the last record of the leaf \<^verbatim>\<open>header.pre\<close>, whose key is the greatest key;
  \<^verbatim>\<open>--\<close> on \<^verbatim>\<open>begin()\<close>, the handle of the least key, gives \<^verbatim>\<open>begin()\<close> again; and
  \<^verbatim>\<open>--\<close> on the handle of any other stored key \<open>k\<close> gives the handle of the greatest
  stored key below \<open>k\<close>, which is the last record of \<^verbatim>\<open>node.pre\<close> when the handle
  stands on the first record of its leaf and the record before it otherwise.
\<close>

theorem decrement_steps_back:
  fixes t :: "'k::linorder bplustree"
  assumes "inv m t lv" and "m_root t \<noteq> None"
  shows "(\<exists>hn a n. heap t m_header = Some hn \<and> pre hn = Some a \<and> heap t a = Some n \<and> records n \<noteq> []
           \<and> decrement t end_iterator = Some \<lparr>it_node = Some a, record_iterator = length (records n) - 1\<rparr>
           \<and> fst (last (records n)) = Max (set (leaf_keys t lv)))
       \<and> (\<exists>b. begin_iterator t = Some b \<and> decrement t b = Some b
           \<and> deref t b = Some (Min (set (leaf_keys t lv))))
       \<and> (\<forall>k\<in>set (leaf_keys t lv). k \<noteq> Min (set (leaf_keys t lv)) \<longrightarrow>
            (\<exists>it it' a n. find t k = Some it \<and> deref t it = Some k \<and> it_node it = Some a \<and> heap t a = Some n
               \<and> decrement t it = Some it'
               \<and> deref t it' = Some (Max {x \<in> set (leaf_keys t lv). x < k})
               \<and> (record_iterator it = 0 \<longrightarrow>
                     (\<exists>b p. pre n = Some b \<and> heap t b = Some p
                             \<and> it' = \<lparr>it_node = Some b, record_iterator = length (records p) - 1\<rparr>))
               \<and> (record_iterator it \<noteq> 0 \<longrightarrow>
                     it' = \<lparr>it_node = Some a, record_iterator = record_iterator it - 1\<rparr>)))"
proof -
  from assms(2) obtain r where r: "m_root t = Some r" by auto
  show ?thesis
    using decrement_end [OF assms(1) r] decrement_begin [OF assms(1) r]
      decrement_stored [OF assms(1) r]
    by blast
qed

theorem decrement_steps_back_witness:
  "inv 3 t12 [[1]] \<and> m_root t12 \<noteq> None \<and> (2::int) \<in> set (leaf_keys t12 [[1]])
   \<and> 2 \<noteq> Min (set (leaf_keys t12 [[1]]))
   \<and> decrement t12 end_iterator = Some \<lparr>it_node = Some 1, record_iterator = 1\<rparr>
   \<and> (\<exists>it it'. find t12 2 = Some it \<and> decrement t12 it = Some it'
                \<and> deref t12 it' = Some (Max {x \<in> set (leaf_keys t12 [[1]]). x < 2}))"
proof -
  have h1: "heap t12 1 = Some \<lparr>records = [(1, None), (2, None)], is_leaf = True, nxt = Some 0,
                                pre = Some 0, parent = None\<rparr>"
    unfolding t12_def by code_simp
  have r: "m_root t12 \<noteq> None" unfolding t12_def by code_simp
  have ks: "leaf_keys t12 [[1]] = [1, 2]" using h1 by (simp add: leaf_keys_def keys_of_def)
  have k: "(2::int) \<in> set (leaf_keys t12 [[1]])" "(2::int) \<noteq> Min (set (leaf_keys t12 [[1]]))"
    unfolding ks by simp_all
  have e: "decrement t12 end_iterator = Some \<lparr>it_node = Some 1, record_iterator = 1\<rparr>"
    unfolding t12_def by code_simp
  from decrement_steps_back [OF inv_t12 r] k
  have "\<exists>it it'. find t12 2 = Some it \<and> decrement t12 it = Some it'
                \<and> deref t12 it' = Some (Max {x \<in> set (leaf_keys t12 [[1]]). x < 2})"
    by blast
  with inv_t12 r k e show ?thesis by blast
qed

end
